(* ===== verification/Prelude.thy ===== *)
theory Prelude
  imports "HOL-Library.Word" "HOL-Library.Product_Lexorder" "HOL-Library.Multiset"
    "HOL-Library.Code_Target_Nat"
begin

text \<open>
  Shared vocabulary of the development: the machine integers and checked arithmetic of
  the Rust standard library, the error values, actions (state, fault and result) with
  their inversion rules, and two small logics over actions: frames (a relation between
  the states before and after, kept on every exit) and conservation (what an action
  consumes and hands on, with everything it owned given back when it faults).
\<close>

section \<open>Machine integers\<close>

type_synonym u8 = "8 word"
type_synonym u32 = "32 word"
type_synonym u64 = "64 word"

text \<open>The library is modelled on a target with 64-bit pointers.\<close>

type_synonym usize = "64 word"

definition checked_add :: "'a::len word \<Rightarrow> 'a word \<Rightarrow> 'a word option" where
  "checked_add a b = (if unat a + unat b < 2 ^ LENGTH('a) then Some (a + b) else None)"

definition checked_mul :: "'a::len word \<Rightarrow> 'a word \<Rightarrow> 'a word option" where
  "checked_mul a b = (if unat a * unat b < 2 ^ LENGTH('a) then Some (a * b) else None)"

definition saturating_sub :: "'a::len word \<Rightarrow> 'a word \<Rightarrow> 'a word" where
  "saturating_sub a b = (if b \<le> a then a - b else 0)"

definition saturating_add :: "'a::len word \<Rightarrow> 'a word \<Rightarrow> 'a word" where
  "saturating_add a b = (case checked_add a b of Some c \<Rightarrow> c | None \<Rightarrow> - 1)"

definition saturating_mul :: "'a::len word \<Rightarrow> 'a word \<Rightarrow> 'a word" where
  "saturating_mul a b = (case checked_mul a b of Some c \<Rightarrow> c | None \<Rightarrow> - 1)"

text \<open>\<open>u64::div_ceil\<close>: quotient, plus one when a remainder is left.\<close>

definition div_ceil :: "'a::len word \<Rightarrow> 'a word \<Rightarrow> 'a word" where
  "div_ceil a b = (if a mod b > 0 then a div b + 1 else a div b)"

named_theorems word_facts \<open>readings of the checked operations through \<^term>\<open>unat\<close>\<close>

lemma unat_u8: "unat (x :: u8) < 256"
proof -
  have "unat x < 2 ^ LENGTH(8)" by (rule unsigned_less)
  then show ?thesis by simp
qed

lemma unat_u32: "unat (x :: u32) < 2 ^ 32"
proof -
  have "unat x < 2 ^ LENGTH(32)" by (rule unsigned_less)
  then show ?thesis by simp
qed

lemma unat_u64: "unat (x :: u64) < 2 ^ 64"
proof -
  have "unat x < 2 ^ LENGTH(64)" by (rule unsigned_less)
  then show ?thesis by simp
qed

lemma unat_ucast_u32_u64 [simp, word_facts]: "unat (ucast (x :: u32) :: u64) = unat x"
proof -
  have "unat x < 2 ^ 32" by (rule unat_u32)
  then have "unat x < 2 ^ 64" by simp
  then show ?thesis by (simp add: unsigned_ucast_eq take_bit_nat_eq_self)
qed

lemma checked_add_eq_Some [word_facts]:
  "checked_add a b = Some c \<longleftrightarrow> unat c = unat a + unat (b :: 'a::len word)"
proof
  assume "checked_add a b = Some c"
  then show "unat c = unat a + unat b"
    by (auto simp: checked_add_def unat_word_ariths split: if_splits)
next
  assume eq: "unat c = unat a + unat b"
  then have "unat a + unat b < 2 ^ LENGTH('a)"
    by (metis unsigned_less)
  moreover from this have "unat (a + b) = unat c"
    by (simp add: eq unat_word_ariths)
  ultimately show "checked_add a b = Some c"
    by (simp add: checked_add_def word_unat_eq_iff)
qed

lemma checked_add_eq_None [word_facts]:
  "checked_add a b = None \<longleftrightarrow> 2 ^ LENGTH('a) \<le> unat a + unat (b :: 'a::len word)"
  by (auto simp: checked_add_def)

lemma checked_mul_eq_Some [word_facts]:
  "checked_mul a b = Some c \<longleftrightarrow> unat c = unat a * unat (b :: 'a::len word)"
proof
  assume "checked_mul a b = Some c"
  then show "unat c = unat a * unat b"
    by (auto simp: checked_mul_def unat_word_ariths split: if_splits)
next
  assume eq: "unat c = unat a * unat b"
  then have "unat a * unat b < 2 ^ LENGTH('a)"
    by (metis unsigned_less)
  moreover from this have "unat (a * b) = unat c"
    by (simp add: eq unat_word_ariths)
  ultimately show "checked_mul a b = Some c"
    by (simp add: checked_mul_def word_unat_eq_iff)
qed

lemma unat_saturating_sub [word_facts]:
  "unat (saturating_sub a b) = unat a - unat (b :: 'a::len word)"
  by (auto simp: saturating_sub_def word_le_nat_alt unat_sub)

lemma unat_saturating_add [word_facts]:
  "unat (saturating_add a b) = min (unat a + unat b) (2 ^ LENGTH('a) - 1)"
  for a b :: "'a::len word"
proof (cases "checked_add a b")
  case None
  then have "2 ^ LENGTH('a) \<le> unat a + unat b"
    by (simp add: word_facts)
  then show ?thesis
    by (simp add: saturating_add_def None unsigned_minus_1_eq_mask mask_eq_exp_minus_1)
next
  case (Some c)
  then have "unat c = unat a + unat b"
    by (simp add: word_facts)
  moreover have "unat c < 2 ^ LENGTH('a)"
    by (rule unsigned_less)
  ultimately show ?thesis
    using Some by (simp add: saturating_add_def)
qed

lemma unat_saturating_mul [word_facts]:
  "unat (saturating_mul a b) = min (unat a * unat b) (2 ^ LENGTH('a) - 1)"
  for a b :: "'a::len word"
proof (cases "checked_mul a b")
  case None
  then have "2 ^ LENGTH('a) \<le> unat a * unat b"
    by (auto simp: checked_mul_def split: if_splits)
  then show ?thesis
    by (simp add: saturating_mul_def None unsigned_minus_1_eq_mask mask_eq_exp_minus_1)
next
  case (Some c)
  then have "unat c = unat a * unat b"
    by (simp add: word_facts)
  moreover have "unat c < 2 ^ LENGTH('a)"
    by (rule unsigned_less)
  ultimately show ?thesis
    using Some by (simp add: saturating_mul_def)
qed

lemma unat_min [word_facts]: "unat (min a b) = min (unat a) (unat (b :: 'a::len word))"
  by (auto simp: min_def word_le_nat_alt)

lemma unat_max [word_facts]: "unat (max a b) = max (unat a) (unat (b :: 'a::len word))"
  by (auto simp: max_def word_le_nat_alt)

lemma unat_div_ceil [word_facts]:
  assumes "0 < unat b"
  shows "unat (div_ceil a b) = (unat a + unat b - 1) div unat (b :: 'a::len word)"
proof -
  let ?q = "unat a div unat b" and ?r = "unat a mod unat b"
  have a: "unat a = unat b * ?q + ?r" by simp
  have r: "?r < unat b" using assms by simp
  show ?thesis
  proof (cases "?r = 0")
    case True
    have "(unat a + unat b - 1) div unat b = ?q"
      by (rule div_nat_eqI) (use a True assms in \<open>auto simp: algebra_simps\<close>)
    moreover have "\<not> a mod b > 0"
      using True by (simp add: word_less_nat_alt unat_mod_distrib)
    ultimately show ?thesis
      by (simp add: div_ceil_def unat_div_distrib)
  next
    case False
    have "(unat a + unat b - 1) div unat b = ?q + 1"
    proof (rule div_nat_eqI)
      have "1 \<le> ?r" using False by simp
      moreover have "unat b * (?q + 1) = unat b * ?q + unat b" by simp
      ultimately show "unat b * (?q + 1) \<le> unat a + unat b - 1"
        using a by linarith
      have "unat b * Suc (?q + 1) = unat b * ?q + unat b + unat b" by simp
      then show "unat a + unat b - 1 < unat b * Suc (?q + 1)"
        using a r by linarith
    qed
    moreover have "a mod b > 0"
      using False by (simp add: word_less_nat_alt unat_mod_distrib)
    moreover have "unat (a div b + 1) = ?q + 1"
    proof -
      have "2 \<le> unat b" using False r by linarith
      then have "?q \<le> unat a div 2" by (simp add: div_le_mono2)
      moreover have "unat a < 2 ^ LENGTH('a)" and "unat b < 2 ^ LENGTH('a)" by simp_all
      ultimately have "?q + 1 < 2 ^ LENGTH('a)"
        using \<open>2 \<le> unat b\<close> by linarith
      then show ?thesis by (simp add: unat_word_ariths unat_div_distrib)
    qed
    ultimately show ?thesis by (simp add: div_ceil_def)
  qed
qed


section \<open>Errors\<close>

text \<open>
  \<open>SorterError\<close> of src/error.rs, constructor by constructor. The payload of \<open>Io\<close> is
  the error value of the file package, kept as its text.
\<close>

type_synonym fs_error = string

datatype error =
    Io fs_error
  | Encode string
  | Decode string
  | RunLimit
  | SessionFailed
  | MemoryBudget (requested: u64) (available: u64)
  | ReplaySourceFailed
  | ReplayInUse
  | Worker string
  | Gone

text \<open>
  An action ends with a value or with a fault: an error the code returns, a panic
  (\<open>expect\<close>, \<open>assert!\<close>, \<open>clamp\<close>, an index out of range), or an await that no step of
  this task can complete (a permit held elsewhere), observed when the waiting future is
  dropped.
\<close>

datatype fault = Raise error | Panic string | Waiting

text \<open>\<open>Ord::clamp\<close> panics when its bounds are crossed.\<close>

definition clamp :: "'a::linorder \<Rightarrow> 'a \<Rightarrow> 'a \<Rightarrow> fault + 'a" where
  "clamp lo hi x =
     (if lo \<le> hi then Inr (if x < lo then lo else if hi < x then hi else x)
      else Inl (Panic ''assertion failed: min <= max''))"

lemma clamp_Inr [simp]: "clamp lo hi x = Inr y \<longleftrightarrow> lo \<le> hi \<and> y = max lo (min hi x)"
  by (auto simp: clamp_def max_def min_def)

lemma clamp_Inl [simp]: "clamp lo hi x = Inl e \<longleftrightarrow> hi < lo \<and> e = Panic ''assertion failed: min <= max''"
  by (auto simp: clamp_def)

section \<open>Actions\<close>

type_synonym ('s, 'a) act = "'s \<Rightarrow> (fault + 'a) \<times> 's"

definition ret :: "'a \<Rightarrow> ('s, 'a) act" where
  "ret x s = (Inr x, s)"

definition fail :: "fault \<Rightarrow> ('s, 'a) act" where
  "fail e s = (Inl e, s)"

definition modify :: "('s \<Rightarrow> 's) \<Rightarrow> ('s, unit) act" where
  "modify g s = (Inr (), g s)"

text \<open>
  \<open>attempt d m f\<close> is \<open>m?\<close> followed by \<open>f\<close>: on a fault the locals in scope are dropped
  (\<open>d\<close>) and the fault is returned. \<open>ensuring m d\<close> is a block that ends with the drop
  \<open>d\<close> on every exit.
\<close>

definition attempt :: "('s \<Rightarrow> 's) \<Rightarrow> ('s, 'a) act \<Rightarrow> ('a \<Rightarrow> ('s, 'b) act) \<Rightarrow> ('s, 'b) act" where
  "attempt d m f s = (case m s of (Inl e, t) \<Rightarrow> (Inl e, d t) | (Inr x, t) \<Rightarrow> f x t)"

abbreviation and_then :: "('s, 'a) act \<Rightarrow> ('a \<Rightarrow> ('s, 'b) act) \<Rightarrow> ('s, 'b) act" where
  "and_then \<equiv> attempt (\<lambda>s. s)"

definition ensuring :: "('s, 'a) act \<Rightarrow> ('s \<Rightarrow> 's) \<Rightarrow> ('s, 'a) act" where
  "ensuring m d s = (case m s of (r, t) \<Rightarrow> (r, d t))"

text \<open>\<open>bail d e\<close>: an early \<open>return Err\<close> (or panic) with the locals in scope dropped.\<close>

definition bail :: "('s \<Rightarrow> 's) \<Rightarrow> fault \<Rightarrow> ('s, 'a) act" where
  "bail d e s = (Inl e, d s)"

text \<open>\<open>ok_or\<close>: the value of an option, or a fault.\<close>

definition ok_or :: "fault \<Rightarrow> 'a option \<Rightarrow> ('s, 'a) act" where
  "ok_or e v = (case v of None \<Rightarrow> fail e | Some x \<Rightarrow> ret x)"

named_theorems act_ok \<open>inversion of actions that return a value\<close>

lemma ret_ok [act_ok]: "ret x s = (Inr y, t) \<longleftrightarrow> y = x \<and> t = s"
  by (auto simp: ret_def)

lemma fail_ok [act_ok]: "fail e s = (Inr y, t) \<longleftrightarrow> False"
  by (simp add: fail_def)

lemma bail_ok [act_ok]: "bail d e s = (Inr y, t) \<longleftrightarrow> False"
  by (simp add: bail_def)

lemma modify_ok [act_ok]: "modify g s = (Inr y, t) \<longleftrightarrow> t = g s"
  by (auto simp: modify_def)

lemma attempt_ok [act_ok]:
  "attempt d m f s = (Inr y, t) \<longleftrightarrow> (\<exists>x u. m s = (Inr x, u) \<and> f x u = (Inr y, t))"
  by (auto simp: attempt_def split: prod.splits sum.splits)

lemma ensuring_ok [act_ok]:
  "ensuring m d s = (Inr y, t) \<longleftrightarrow> (\<exists>u. m s = (Inr y, u) \<and> t = d u)"
  by (auto simp: ensuring_def split: prod.splits)

lemma ok_or_ok [act_ok]: "ok_or e v s = (Inr y, t) \<longleftrightarrow> v = Some y \<and> t = s"
  by (auto simp: ok_or_def act_ok split: option.splits)

named_theorems act_fault \<open>inversion of actions that end with a fault\<close>

lemma ret_fault [act_fault]: "ret x s = (Inl e, t) \<longleftrightarrow> False"
  by (simp add: ret_def)

lemma fail_fault [act_fault]: "fail f s = (Inl e, t) \<longleftrightarrow> e = f \<and> t = s"
  by (auto simp: fail_def)

lemma bail_fault [act_fault]: "bail d f s = (Inl e, t) \<longleftrightarrow> e = f \<and> t = d s"
  by (auto simp: bail_def)

lemma modify_fault [act_fault]: "modify g s = (Inl e, t) \<longleftrightarrow> False"
  by (simp add: modify_def)

lemma attempt_fault [act_fault]:
  "attempt d m f s = (Inl e, t) \<longleftrightarrow>
     (\<exists>u. m s = (Inl e, u) \<and> t = d u) \<or> (\<exists>x u. m s = (Inr x, u) \<and> f x u = (Inl e, t))"
  by (auto simp: attempt_def split: prod.splits sum.splits)

lemma ok_or_fault [act_fault]: "ok_or f v s = (Inl e, t) \<longleftrightarrow> v = None \<and> e = f \<and> t = s"
  by (auto simp: ok_or_def act_ok ret_fault fail_fault split: option.splits)

subsection \<open>Frames\<close>

text \<open>\<open>keeps R m\<close>: \<open>m\<close> relates its states by \<open>R\<close> whether it returns or faults.\<close>

definition keeps :: "('s \<Rightarrow> 's \<Rightarrow> bool) \<Rightarrow> ('s, 'a) act \<Rightarrow> bool" where
  "keeps R m \<longleftrightarrow> (\<forall>s. R s (snd (m s)))"

lemma keepsI: "(\<And>s r t. m s = (r, t) \<Longrightarrow> R s t) \<Longrightarrow> keeps R m"
  by (metis keeps_def surjective_pairing)

lemma keepsD: "keeps R m \<Longrightarrow> m s = (r, t) \<Longrightarrow> R s t"
  by (metis keeps_def snd_conv)

locale frame =
  fixes R :: "'s \<Rightarrow> 's \<Rightarrow> bool"
  assumes refl: "R s s"
    and trans: "R s t \<Longrightarrow> R t u \<Longrightarrow> R s u"
begin

lemma keeps_ret: "keeps R (ret x)"
  by (simp add: keeps_def ret_def refl)

lemma keeps_fail: "keeps R (fail e)"
  by (simp add: keeps_def fail_def refl)

lemma keeps_bail: "(\<And>s. R s (d s)) \<Longrightarrow> keeps R (bail d e)"
  by (simp add: keeps_def bail_def)

lemma keeps_modify: "(\<And>s. R s (g s)) \<Longrightarrow> keeps R (modify g)"
  by (simp add: keeps_def modify_def)

lemma keeps_attempt:
  assumes "keeps R m" and "\<And>x. keeps R (f x)" and "\<And>s. R s (d s)"
  shows "keeps R (attempt d m f)"
proof (rule keepsI)
  fix s r t
  assume "attempt d m f s = (r, t)"
  then show "R s t"
    using assms by (auto simp: attempt_def split: prod.splits sum.splits
        dest!: keepsD intro: trans)
qed

text \<open>Where the continuation depends on what a returned value is known to be.\<close>

lemma keeps_attempt_value:
  assumes "keeps R m" and "\<And>s x t. m s = (Inr x, t) \<Longrightarrow> keeps R (f x)" and "\<And>s. R s (d s)"
  shows "keeps R (attempt d m f)"
proof (rule keepsI)
  fix s r t
  assume run: "attempt d m f s = (r, t)"
  obtain q u where m: "m s = (q, u)" by (metis surj_pair)
  note first = keepsD [OF assms(1) m]
  show "R s t"
  proof (cases q)
    case (Inl e)
    then show ?thesis using run m first assms(3) by (auto simp: attempt_def intro: trans)
  next
    case (Inr x)
    then show ?thesis
      using run m trans [OF first keepsD [OF assms(2) [OF m [unfolded Inr]]]] by (simp add: attempt_def)
  qed
qed

lemma keeps_ensuring:
  assumes "keeps R m" and "\<And>s. R s (d s)"
  shows "keeps R (ensuring m d)"
proof (rule keepsI)
  fix s r t
  assume "ensuring m d s = (r, t)"
  then show "R s t"
    using assms by (auto simp: ensuring_def split: prod.splits dest!: keepsD intro: trans)
qed

lemma keeps_ok_or: "keeps R (ok_or e v)"
  by (simp add: ok_or_def keeps_ret keeps_fail split: option.splits)

lemmas keeps_intros =
  keeps_ret keeps_fail keeps_bail keeps_modify keeps_attempt keeps_ensuring keeps_ok_or refl

end

subsection \<open>Conservation\<close>

text \<open>
  \<open>conserves \<mu> a m b\<close>: an action that owns \<open>a\<close> when it starts and hands on \<open>b x\<close> with a
  value \<open>x\<close> changes the account \<open>\<mu>\<close> by exactly what it hands on less what it owned; on a
  fault everything it owned is given back.
\<close>

definition conserves ::
    "('s \<Rightarrow> 'n::ab_group_add) \<Rightarrow> 'n \<Rightarrow> ('s, 'a) act \<Rightarrow> ('a \<Rightarrow> 'n) \<Rightarrow> bool" where
  "conserves \<mu> a m b \<longleftrightarrow>
     (\<forall>s. \<mu> (snd (m s)) = \<mu> s - a + (case fst (m s) of Inl _ \<Rightarrow> 0 | Inr x \<Rightarrow> b x))"

lemma conservesI:
  assumes "\<And>s e t. m s = (Inl e, t) \<Longrightarrow> \<mu> t = \<mu> s - a"
    and "\<And>s x t. m s = (Inr x, t) \<Longrightarrow> \<mu> t = \<mu> s - a + b x"
  shows "conserves \<mu> a m b"
  unfolding conserves_def
proof
  fix s
  show "\<mu> (snd (m s)) = \<mu> s - a + (case fst (m s) of Inl _ \<Rightarrow> 0 | Inr x \<Rightarrow> b x)"
    using assms by (cases "m s"; cases "fst (m s)") auto
qed

lemma conserves_fault: "conserves \<mu> a m b \<Longrightarrow> m s = (Inl e, t) \<Longrightarrow> \<mu> t = \<mu> s - a"
  unfolding conserves_def by (drule spec [of _ s]) simp

lemma conserves_value: "conserves \<mu> a m b \<Longrightarrow> m s = (Inr x, t) \<Longrightarrow> \<mu> t = \<mu> s - a + b x"
  unfolding conserves_def by (drule spec [of _ s]) simp

lemma conserves_ret: "a = b x \<Longrightarrow> conserves \<mu> a (ret x) b"
  by (simp add: conserves_def ret_def)

lemma conserves_fail: "conserves \<mu> 0 (fail e) b"
  by (simp add: conserves_def fail_def)

lemma conserves_ok_or: "conserves \<mu> 0 (ok_or e v) (\<lambda>_. 0)"
  by (simp add: ok_or_def conserves_ret conserves_fail split: option.splits)

lemma conserves_attempt_when:
  assumes m: "conserves \<mu> a m b"
    and f: "\<And>s x t. m s = (Inr x, t) \<Longrightarrow> conserves \<mu> (b x + c) (f x) h"
    and d: "\<And>s. \<mu> (d s) = \<mu> s - c"
  shows "conserves \<mu> (a + c) (attempt d m f) h"
  unfolding conserves_def
proof
  fix s
  obtain r t where run: "m s = (r, t)" by fastforce
  show "\<mu> (snd (attempt d m f s))
      = \<mu> s - (a + c) + (case fst (attempt d m f s) of Inl _ \<Rightarrow> 0 | Inr x \<Rightarrow> h x)"
  proof (cases r)
    case (Inl e)
    then show ?thesis
      using run conserves_fault [OF m, of s e t] by (simp add: attempt_def d algebra_simps)
  next
    case (Inr x)
    then have t: "\<mu> t = \<mu> s - a + b x" and "conserves \<mu> (b x + c) (f x) h"
      using run conserves_value [OF m, of s x t] f [of s x t] by simp_all
    then have "\<mu> (snd (f x t)) = \<mu> t - (b x + c) + (case fst (f x t) of Inl _ \<Rightarrow> 0 | Inr x \<Rightarrow> h x)"
      unfolding conserves_def by blast
    moreover have "\<mu> s - a + b x - (b x + c) + v = \<mu> s - (a + c) + v" for v
      by simp
    ultimately show ?thesis
      using run Inr t by (simp add: attempt_def)
  qed
qed

lemma conserves_attempt:
  assumes "conserves \<mu> a m b" and "\<And>x. conserves \<mu> (b x + c) (f x) h"
    and "\<And>s. \<mu> (d s) = \<mu> s - c"
  shows "conserves \<mu> (a + c) (attempt d m f) h"
  using assms(1,2,3) by (rule conserves_attempt_when)

lemma conserves_and_then:
  assumes "conserves \<mu> a m b" and "\<And>x. conserves \<mu> (b x) (f x) h"
  shows "conserves \<mu> a (and_then m f) h"
  using conserves_attempt [of \<mu> a m b 0 f h "\<lambda>s. s"] assms by simp

lemma conserves_bail: "(\<And>s. \<mu> (d s) = \<mu> s - c) \<Longrightarrow> conserves \<mu> c (bail d e) b"
  by (simp add: conserves_def bail_def)

lemma conserves_modify: "(\<And>s. \<mu> (g s) = \<mu> s - c) \<Longrightarrow> (\<And>x. b x = 0) \<Longrightarrow> conserves \<mu> c (modify g) b"
  by (simp add: conserves_def modify_def)

text \<open>A step that owns nothing and hands on nothing, while \<open>c\<close> is owned around it.\<close>

lemma conserves_attempt_neutral:
  assumes "conserves \<mu> 0 m (\<lambda>_. 0)" and "\<And>x. conserves \<mu> c (f x) h" and "\<And>s. \<mu> (d s) = \<mu> s - c"
  shows "conserves \<mu> c (attempt d m f) h"
  using conserves_attempt [of \<mu> 0 m "\<lambda>_. 0" c f h d] assms by simp

text \<open>A step that acquires \<open>b x\<close> while \<open>c\<close> is owned around it.\<close>

lemma conserves_attempt_gain:
  assumes "conserves \<mu> 0 m b" and "\<And>x. conserves \<mu> (b x + c) (f x) h" and "\<And>s. \<mu> (d s) = \<mu> s - c"
  shows "conserves \<mu> c (attempt d m f) h"
  using conserves_attempt [of \<mu> 0 m b c f h d] assms by simp

lemma conserves_ensuring:
  assumes m: "conserves \<mu> a m b" and d: "\<And>s. \<mu> (d s) = \<mu> s - c"
  shows "conserves \<mu> (a + c) (ensuring m d) b"
  using m by (intro conservesI)
    (auto simp: ensuring_def d algebra_simps split: prod.splits
        dest!: conserves_fault [OF m] conserves_value [OF m])

subsection \<open>Panics\<close>

text \<open>\<open>calm m\<close>: \<open>m\<close> may return, fail or wait, but it never panics.\<close>

definition calm :: "('s, 'a) act \<Rightarrow> bool" where
  "calm m \<longleftrightarrow> (\<forall>s p. fst (m s) \<noteq> Inl (Panic p))"

lemma calmD: "calm m \<Longrightarrow> m s = (Inl e, t) \<Longrightarrow> e \<noteq> Panic p"
  by (metis calm_def fst_conv)

lemma calm_panic: "calm m \<Longrightarrow> m s = (Inl (Panic p), t) \<Longrightarrow> False"
  by (metis calm_def fst_conv)

lemma calm_ret: "calm (ret x)"
  by (simp add: calm_def ret_def)

lemma calm_raise: "calm (fail (Raise e))"
  by (simp add: calm_def fail_def)

lemma calm_bail: "calm (bail d (Raise e))"
  by (simp add: calm_def bail_def)

lemma calm_modify: "calm (modify g)"
  by (simp add: calm_def modify_def)

lemma calm_ok_or: "calm (ok_or (Raise e) v)"
  by (simp add: ok_or_def calm_ret calm_raise split: option.splits)

lemma attempt_cases:
  "fst (attempt d m f s) =
     (case fst (m s) of Inl e \<Rightarrow> Inl e | Inr x \<Rightarrow> fst (f x (snd (m s))))"
  by (simp add: attempt_def split: prod.splits sum.splits)

lemma fst_ensuring: "fst (ensuring m d s) = fst (m s)"
  by (simp add: ensuring_def split: prod.splits)

lemma calm_attempt: "calm m \<Longrightarrow> (\<And>x. calm (f x)) \<Longrightarrow> calm (attempt d m f)"
  by (auto simp: calm_def attempt_cases split: sum.splits)

lemma calm_ensuring: "calm m \<Longrightarrow> calm (ensuring m d)"
  by (simp add: calm_def fst_ensuring)

lemmas calm_intros =
  calm_ret calm_raise calm_bail calm_modify calm_ok_or calm_attempt calm_ensuring

section \<open>Counting over an updated list\<close>

lemma filter_update:
  "i < length xs \<Longrightarrow> length (filter P (xs[i := y])) + (if P (xs ! i) then 1 else 0)
    = length (filter P xs) + (if P y then 1 else 0)"
proof (induction xs arbitrary: i)
  case (Cons x xs)
  then show ?case by (cases i) auto
qed simp

lemma filter_same:
  "i < length xs \<Longrightarrow> P y = P (xs ! i) \<Longrightarrow> length (filter P (xs[i := y])) = length (filter P xs)"
  using filter_update [of i xs P y] by (simp split: if_splits)

lemma sum_update:
  "i < length xs \<Longrightarrow> sum_list (map f (xs[i := y])) = sum_list (map f xs) - f (xs ! i) + (f y :: 'a::ab_group_add)"
proof (induction xs arbitrary: i)
  case (Cons x xs)
  then show ?case by (cases i) auto
qed simp

lemma rank_update:
  "i < length xs \<Longrightarrow> sum_list (map f (xs[i := y])) + f (xs ! i) = sum_list (map f xs) + (f y :: nat)"
proof (induction xs arbitrary: i)
  case (Cons x xs)
  then show ?case by (cases i) auto
qed simp

end
