(* ===== verification/Planner.thy ===== *)
theory Planner
  imports Prelude
begin

text \<open>
  The pure decision of the governor: the caller's estimate (src/spec.rs), the caps
  (src/config.rs), the point-in-time pressure (src/snapshot.rs), the plan
  (src/plan/kind.rs) and the planner that reconciles them (src/plan/planner.rs).
\<close>

section \<open>The caller's estimate\<close>

record sort_spec =
  estimated_rows :: u64
  estimated_bytes :: u64
  spec_dedup :: bool
  label :: string

definition sort_spec_new :: "u64 \<Rightarrow> u64 \<Rightarrow> sort_spec" where
  "sort_spec_new rows bytes =
     \<lparr>estimated_rows = rows, estimated_bytes = bytes, spec_dedup = False, label = ''sort''\<rparr>"

definition with_dedup :: "sort_spec \<Rightarrow> bool \<Rightarrow> sort_spec" where
  "with_dedup spec d = spec\<lparr>spec_dedup := d\<rparr>"

definition labelled :: "sort_spec \<Rightarrow> string \<Rightarrow> sort_spec" where
  "labelled spec l = spec\<lparr>label := l\<rparr>"

section \<open>Caps\<close>

record sorter_config =
  in_memory_ceiling_bytes :: u64
  max_fan_in :: u32
  fd_safety_margin :: u32
  min_run_buffer_bytes :: u64
  max_run_buffer_bytes :: u64

definition config_default :: sorter_config where
  "config_default =
     \<lparr>in_memory_ceiling_bytes = 8 * 1024 * 1024,
      max_fan_in = 64,
      fd_safety_margin = 96,
      min_run_buffer_bytes = 1024 * 1024,
      max_run_buffer_bytes = 256 * 1024 * 1024\<rparr>"

definition from_fd_limit :: "u32 \<Rightarrow> fault + sorter_config" where
  "from_fd_limit soft_fd_limit =
     (let usable = saturating_sub soft_fd_limit 96
      in case clamp 2 64 (usable div 8) of
           Inl e \<Rightarrow> Inl e
         | Inr fan \<Rightarrow> Inr (config_default\<lparr>max_fan_in := fan\<rparr>))"

section \<open>Pressure at one moment\<close>

record sorter_snapshot =
  effective_target_bytes :: u64
  resident_bytes :: u64
  fd_headroom :: u32
  active_external_sorts :: u32

definition snapshot_new :: "u64 \<Rightarrow> u64 \<Rightarrow> u32 \<Rightarrow> u32 \<Rightarrow> sorter_snapshot" where
  "snapshot_new target resident headroom active =
     \<lparr>effective_target_bytes = target, resident_bytes = resident,
      fd_headroom = headroom, active_external_sorts = active\<rparr>"

definition available_memory_bytes :: "sorter_snapshot \<Rightarrow> u64" where
  "available_memory_bytes snap =
     saturating_sub (effective_target_bytes snap) (resident_bytes snap)"

section \<open>Plans\<close>

datatype sort_plan = InMemory | External (run_buffer_bytes: usize) (plan_fan_in: u32)

definition is_external :: "sort_plan \<Rightarrow> bool" where
  "is_external p = (case p of External _ _ \<Rightarrow> True | InMemory \<Rightarrow> False)"

definition is_in_memory :: "sort_plan \<Rightarrow> bool" where
  "is_in_memory p = (case p of InMemory \<Rightarrow> True | External _ _ \<Rightarrow> False)"

definition ration_fan_in :: "sorter_snapshot \<Rightarrow> sorter_config \<Rightarrow> fault + u32" where
  "ration_fan_in snap cfg =
     (let share = fd_headroom snap div saturating_add (active_external_sorts snap) 1
      in clamp 2 (max_fan_in cfg) share)"

definition size_run_buffer ::
    "sort_spec \<Rightarrow> sorter_snapshot \<Rightarrow> sorter_config \<Rightarrow> u32 \<Rightarrow> fault + usize" where
  "size_run_buffer spec snap cfg max_fan =
     (let fan = ucast max_fan :: u64;
          two_pass_target = div_ceil (estimated_bytes spec) (max (saturating_mul fan fan) 1);
          mem_cap = max (available_memory_bytes snap) (min_run_buffer_bytes cfg)
      in case clamp (min_run_buffer_bytes cfg) (max_run_buffer_bytes cfg) two_pass_target of
           Inl e \<Rightarrow> Inl e
         | Inr buffer \<Rightarrow> Inr (min buffer mem_cap))"

definition sort_planner_plan ::
    "sort_spec \<Rightarrow> sorter_snapshot \<Rightarrow> sorter_config \<Rightarrow> fault + sort_plan" where
  "sort_planner_plan spec snap cfg =
     (let available = available_memory_bytes snap
      in if estimated_bytes spec \<noteq> 0
            \<and> estimated_bytes spec \<le> in_memory_ceiling_bytes cfg
            \<and> estimated_bytes spec \<le> available
         then Inr InMemory
         else case ration_fan_in snap cfg of
                Inl e \<Rightarrow> Inl e
              | Inr fan \<Rightarrow>
                  (case size_run_buffer spec snap cfg fan of
                     Inl e \<Rightarrow> Inl e
                   | Inr buffer \<Rightarrow> Inr (External buffer fan)))"

section \<open>What the planner guarantees\<close>

text \<open>Caps as the constructors build them.\<close>

definition config_ok :: "sorter_config \<Rightarrow> bool" where
  "config_ok cfg \<longleftrightarrow>
     2 \<le> max_fan_in cfg \<and> 0 < min_run_buffer_bytes cfg
     \<and> min_run_buffer_bytes cfg \<le> max_run_buffer_bytes cfg"

lemma config_ok_default: "config_ok config_default"
  by (simp add: config_ok_def config_default_def)

lemma config_ok_from_fd_limit: "from_fd_limit n = Inr cfg \<Longrightarrow> config_ok cfg"
  by (auto simp: from_fd_limit_def config_ok_def config_default_def Let_def
      split: sum.splits)

lemma unat_available_memory [word_facts]:
  "unat (available_memory_bytes snap) = unat (effective_target_bytes snap) - unat (resident_bytes snap)"
  by (simp add: available_memory_bytes_def word_facts)

lemma ration_fan_in_total:
  "config_ok cfg \<Longrightarrow>
     ration_fan_in snap cfg =
       Inr (max 2 (min (max_fan_in cfg)
         (fd_headroom snap div saturating_add (active_external_sorts snap) 1)))"
  by (simp add: ration_fan_in_def config_ok_def Let_def)

lemma size_run_buffer_total:
  assumes "config_ok cfg"
  shows "\<exists>buffer. size_run_buffer spec snap cfg fan = Inr buffer"
  using assms by (auto simp: size_run_buffer_def config_ok_def Let_def split: sum.split)

lemma fan_squared: "unat (saturating_mul (ucast fan) (ucast fan) :: u64) = unat (fan :: u32) ^ 2"
proof -
  have "unat fan \<le> 2 ^ 32 - 1" using unat_u32 [of fan] by simp
  then have "unat fan * unat fan \<le> (2 ^ 32 - 1) * (2 ^ 32 - 1)"
    by (intro mult_le_mono)
  also have "\<dots> \<le> (2 ^ 64 - 1 :: nat)" by simp
  finally have "min (unat fan * unat fan) (2 ^ 64 - 1) = unat fan ^ 2"
    by (simp only: min_absorb1 power2_eq_square)
  then show ?thesis
    by (simp add: unat_saturating_mul)
qed


lemma unat_size_run_buffer:
  assumes "size_run_buffer spec snap cfg fan = Inr buffer"
  shows "unat buffer =
    min (max (unat (min_run_buffer_bytes cfg))
          (min (unat (max_run_buffer_bytes cfg))
            ((unat (estimated_bytes spec) + max (unat fan ^ 2) 1 - 1) div max (unat fan ^ 2) 1)))
      (max (unat (available_memory_bytes snap)) (unat (min_run_buffer_bytes cfg)))"
proof -
  have "0 < unat (max (saturating_mul (ucast fan) (ucast fan)) (1 :: u64))"
    by (simp add: unat_max)
  then show ?thesis
    using assms
    by (auto simp: size_run_buffer_def Let_def unat_min unat_max unat_div_ceil fan_squared
        split: sum.splits)
qed

lemma plan_External:
  assumes "sort_planner_plan spec snap cfg = Inr (External buffer fan)"
  shows "ration_fan_in snap cfg = Inr fan"
    and "size_run_buffer spec snap cfg fan = Inr buffer"
    and "estimated_bytes spec = 0 \<or> in_memory_ceiling_bytes cfg < estimated_bytes spec
      \<or> available_memory_bytes snap < estimated_bytes spec"
  using assms by (auto simp: sort_planner_plan_def Let_def split: if_splits sum.splits)

lemmas plan_eval =
  sort_planner_plan_def ration_fan_in_def size_run_buffer_def available_memory_bytes_def
  sort_spec_new_def snapshot_new_def config_default_def Let_def clamp_def div_ceil_def
  saturating_sub_def saturating_add_def saturating_mul_def checked_add_def checked_mul_def

lemma plan_within:
  assumes "config_ok cfg"
  shows "\<exists>p. sort_planner_plan spec snap cfg = Inr p \<and>
    (case p of
       InMemory \<Rightarrow>
         0 < unat (estimated_bytes spec)
         \<and> estimated_bytes spec \<le> in_memory_ceiling_bytes cfg
         \<and> unat (estimated_bytes spec) + unat (resident_bytes snap)
             \<le> unat (effective_target_bytes snap)
     | External buffer fan \<Rightarrow>
         2 \<le> fan \<and> fan \<le> max_fan_in cfg
         \<and> min_run_buffer_bytes cfg \<le> buffer \<and> buffer \<le> max_run_buffer_bytes cfg
         \<and> buffer \<le> max (available_memory_bytes snap) (min_run_buffer_bytes cfg))"
proof (cases "sort_planner_plan spec snap cfg")
  case (Inl e)
  obtain fan where fan: "ration_fan_in snap cfg = Inr fan"
    using ration_fan_in_total [OF assms] by blast
  moreover obtain buffer where "size_run_buffer spec snap cfg fan = Inr buffer"
    using size_run_buffer_total [OF assms] by blast
  ultimately have False
    using Inl by (auto simp: sort_planner_plan_def Let_def split: if_splits)
  then show ?thesis ..
next
  case (Inr p)
  show ?thesis
  proof (cases p)
    case InMemory
    with Inr have "estimated_bytes spec \<noteq> 0"
      "estimated_bytes spec \<le> in_memory_ceiling_bytes cfg"
      "estimated_bytes spec \<le> available_memory_bytes snap"
      by (auto simp: sort_planner_plan_def Let_def split: if_splits sum.splits)
    moreover from this have "0 < unat (estimated_bytes spec)"
      by (simp add: unat_gt_0)
    moreover from calculation
      have "unat (estimated_bytes spec) \<le>
        unat (effective_target_bytes snap) - unat (resident_bytes snap)"
      by (simp add: word_le_nat_alt word_facts)
    ultimately show ?thesis
      using Inr InMemory by auto
  next
    case (External buffer fan)
    note plan = plan_External [OF Inr [unfolded External]]
    have "2 \<le> fan" "fan \<le> max_fan_in cfg"
      using plan(1) assms by (auto simp: ration_fan_in_total config_ok_def)
    moreover have "min_run_buffer_bytes cfg \<le> buffer" "buffer \<le> max_run_buffer_bytes cfg"
      "buffer \<le> max (available_memory_bytes snap) (min_run_buffer_bytes cfg)"
      using plan(2) assms
      by (auto simp: size_run_buffer_def config_ok_def Let_def
          intro: order_trans [OF min.cobounded1] split: sum.splits)
    ultimately show ?thesis
      using Inr External by auto
  qed
qed

lemma plan_total: "config_ok cfg \<Longrightarrow> \<exists>p. sort_planner_plan spec snap cfg = Inr p"
  using plan_within by blast

text \<open>C39. For caps as the constructors build them the planner never panics, and its answer
  is within every budget: a sort starts in memory only for a known size within the ceiling
  and the available memory; an external plan has a fan-in between 2 and the cap, and a run
  buffer between the configured floor and ceiling that exceeds the available memory exactly
  when the floor does, and is the floor then.\<close>

theorem plan_within_budgets:
  assumes "config_ok cfg"
  shows "\<exists>p. sort_planner_plan spec snap cfg = Inr p \<and>
    (case p of
       InMemory \<Rightarrow>
         0 < unat (estimated_bytes spec)
         \<and> estimated_bytes spec \<le> in_memory_ceiling_bytes cfg
         \<and> unat (estimated_bytes spec) + unat (resident_bytes snap)
             \<le> unat (effective_target_bytes snap)
     | External buffer fan \<Rightarrow>
         2 \<le> fan \<and> fan \<le> max_fan_in cfg
         \<and> min_run_buffer_bytes cfg \<le> buffer \<and> buffer \<le> max_run_buffer_bytes cfg
         \<and> buffer \<le> max (available_memory_bytes snap) (min_run_buffer_bytes cfg))"
  using assms by (rule plan_within)

theorem plan_within_budgets_witness:
  "\<exists>p. sort_planner_plan (sort_spec_new 0 0) (snapshot_new 0 0 0 0) config_default = Inr p"
  using plan_within_budgets [OF config_ok_default, of "sort_spec_new 0 0" "snapshot_new 0 0 0 0"]
  by blast

lemma min_le_clamped: "min t (min hi cap) \<le> min (max lo (min hi t)) cap"
  for t :: "'a::linorder"
  by (simp add: le_max_iff_disj min_le_iff_disj)

text \<open>C40. The two-pass promise of the run buffer: whenever the estimate fits \<open>fan\<^sup>2\<close> run
  buffers of the largest size the caps and the memory allow, it fits \<open>fan\<^sup>2\<close> run buffers of
  the size chosen, so an input of the estimated size makes at most \<open>fan\<^sup>2\<close> full runs.\<close>

theorem plan_two_passes:
  assumes "sort_planner_plan spec snap cfg = Inr (External buffer fan)"
    and "2 \<le> fan"
    and "unat (estimated_bytes spec) \<le> unat fan ^ 2 *
      unat (min (max_run_buffer_bytes cfg)
        (max (available_memory_bytes snap) (min_run_buffer_bytes cfg)))"
  shows "unat (estimated_bytes spec) \<le> unat fan ^ 2 * unat buffer"
proof -
  let ?s = "unat fan ^ 2" and ?e = "unat (estimated_bytes spec)"
  let ?t = "(?e + ?s - 1) div ?s"
  define hi where "hi = unat (max_run_buffer_bytes cfg)"
  define cap where "cap = unat (max (available_memory_bytes snap) (min_run_buffer_bytes cfg))"
  have "1 \<le> ?s"
    using assms(2) by (intro one_le_power) (simp add: word_le_nat_alt)
  then have s: "max ?s 1 = ?s" "0 < ?s"
    by (rule max_absorb1, use \<open>1 \<le> ?s\<close> in linarith)
  have "?e \<le> ?s * ?t"
  proof -
    have "?e + ?s - 1 = ?s * ?t + (?e + ?s - 1) mod ?s" by simp
    moreover have "(?e + ?s - 1) mod ?s \<le> ?s - 1"
      using mod_less_divisor [OF s(2), of "?e + ?s - 1"] by linarith
    ultimately show ?thesis using s(2) by linarith
  qed
  moreover have "?e \<le> ?s * min hi cap"
    using assms(3) unfolding unat_min hi_def cap_def .
  ultimately have "?e \<le> ?s * min ?t (min hi cap)"
    by (metis min_def)
  also have "\<dots> \<le> ?s * unat buffer"
  proof (rule mult_le_mono2)
    have "unat buffer = min (max (unat (min_run_buffer_bytes cfg)) (min hi ?t)) cap"
      using unat_size_run_buffer [OF plan_External(2) [OF assms(1)]]
      unfolding s(1) unat_max [symmetric] hi_def cap_def .
    then show "min ?t (min hi cap) \<le> unat buffer"
      using min_le_clamped by simp
  qed
  finally show ?thesis .
qed

theorem plan_two_passes_witness:
  "unat (estimated_bytes (sort_spec_new 1000 100000000)) \<le> unat (4 :: u32) ^ 2 * unat (6250000 :: usize)"
proof -
  have plan: "sort_planner_plan (sort_spec_new 1000 100000000)
      (snapshot_new 1073741824 0 4 0) config_default = Inr (External 6250000 4)"
    by (simp add: plan_eval)
  show ?thesis
    by (rule plan_two_passes [OF plan])
      (simp_all add: sort_spec_new_def config_default_def snapshot_new_def
        available_memory_bytes_def saturating_sub_def)
qed

lemma plan_share:
  assumes "sort_planner_plan spec snap cfg = Inr (External buffer fan)"
    and "2 * (unat (active_external_sorts snap) + 1) \<le> unat (fd_headroom snap)"
  shows "unat fan * (unat (active_external_sorts snap) + 1) \<le> unat (fd_headroom snap)"
proof -
  let ?n = "unat (active_external_sorts snap) + 1"
  have n: "unat (saturating_add (active_external_sorts snap) 1) = ?n"
    using assms(2) unat_u32 [of "fd_headroom snap"] by (simp add: unat_saturating_add)
  have "fan = max 2 (min (max_fan_in cfg)
      (fd_headroom snap div saturating_add (active_external_sorts snap) 1))"
    using plan_External(1) [OF assms(1)] by (simp add: ration_fan_in_def Let_def)
  then have "unat fan \<le> max 2 (unat (fd_headroom snap) div ?n)"
    by (simp add: unat_max unat_min unat_div_distrib n)
  moreover have "2 \<le> unat (fd_headroom snap) div ?n"
    using assms(2) by (simp add: less_eq_div_iff_mult_less_eq del: add_Suc_right)
  ultimately have "unat fan \<le> unat (fd_headroom snap) div ?n" by simp
  then have "unat fan * ?n \<le> (unat (fd_headroom snap) div ?n) * ?n"
    by (rule mult_le_mono1)
  then show ?thesis
    using times_div_less_eq_dividend [of ?n "unat (fd_headroom snap)"]
    by (simp add: mult.commute)
qed

end
