(* ===== verification/Budget.thy ===== *)
theory Budget
  imports Prelude
begin

text \<open>
  Byte reservations (src/engine/budget.rs) and the state the engine's operations share:
  the budget, the descriptor permits, the count of pending operations of the scratch
  scope and the files. The budget's atomics are read here by one task at a time; the
  compare-and-exchange loop between tasks is the subject of the theory BudgetThreads.
\<close>

section \<open>Pressure\<close>

text \<open>
  A \<open>MemoryPressure\<close> source answers each call with its reading of that moment: the
  \<open>n\<close>-th call sees the pair (effective target, resident bytes) at \<open>n\<close>.
\<close>

type_synonym pressure = "nat \<Rightarrow> u64 \<times> u64"

definition static_pressure_new :: "u64 \<Rightarrow> u64 \<Rightarrow> pressure" where
  "static_pressure_new target resident = (\<lambda>_. (target, resident))"

section \<open>The budget\<close>

record budget =
  budget_cap :: u64
  budget_pressure :: "pressure option"
  budget_clock :: nat
  budget_used :: u64
  budget_peak :: u64

definition budget_new :: "u64 \<Rightarrow> budget" where
  "budget_new limit =
     \<lparr>budget_cap = limit, budget_pressure = None, budget_clock = 0,
      budget_used = 0, budget_peak = 0\<rparr>"

definition budget_governed :: "u64 \<Rightarrow> pressure \<Rightarrow> budget" where
  "budget_governed limit p =
     \<lparr>budget_cap = limit, budget_pressure = Some p, budget_clock = 0,
      budget_used = 0, budget_peak = 0\<rparr>"

definition is_governed :: "budget \<Rightarrow> bool" where
  "is_governed b \<longleftrightarrow> budget_pressure b \<noteq> None"

text \<open>\<open>limit\<close> asks a governed source twice: the target first, then the resident bytes.\<close>

definition budget_limit :: "budget \<Rightarrow> u64 \<times> budget" where
  "budget_limit b =
     (case budget_pressure b of
        None \<Rightarrow> (budget_cap b, b)
      | Some p \<Rightarrow>
          let target = fst (p (budget_clock b));
              resident = snd (p (Suc (budget_clock b)))
          in (min (budget_cap b) (saturating_sub target resident),
              b\<lparr>budget_clock := Suc (Suc (budget_clock b))\<rparr>))"

text \<open>A \<open>MemoryCharge\<close> is the number of bytes it gives back when dropped.\<close>

type_synonym memory_charge = u64

definition budget_reserve :: "usize \<Rightarrow> budget \<Rightarrow> (error + memory_charge) \<times> budget" where
  "budget_reserve bytes b =
     (let previous = budget_used b;
          (limit, b1) = budget_limit b
      in case checked_add previous bytes of
           Some after \<Rightarrow>
             if after \<le> limit
             then (Inr bytes, b1\<lparr>budget_used := after, budget_peak := max (budget_peak b1) after\<rparr>)
             else (Inl (MemoryBudget bytes (saturating_sub limit previous)), b1)
         | None \<Rightarrow> (Inl (MemoryBudget bytes (saturating_sub limit previous)), b1))"

definition budget_release :: "memory_charge \<Rightarrow> budget \<Rightarrow> budget" where
  "budget_release c b = b\<lparr>budget_used := budget_used b - c\<rparr>"

definition frame_working_bytes :: "usize \<Rightarrow> usize option" where
  "frame_working_bytes bytes =
     (case checked_mul bytes 3 of None \<Rightarrow> None | Some product \<Rightarrow> checked_add product 32)"

section \<open>The state the engine's operations share\<close>

record 'fs world =
  w_budget :: budget
  w_permits :: nat
  w_pending :: usize
  w_leaves :: "bool list"
  w_files :: 'fs

definition limit_now :: "('fs world, u64) act" where
  "limit_now w = (case budget_limit (w_budget w) of (l, b) \<Rightarrow> (Inr l, w\<lparr>w_budget := b\<rparr>))"

definition reserve :: "usize \<Rightarrow> ('fs world, memory_charge) act" where
  "reserve bytes w =
     (case budget_reserve bytes (w_budget w) of
        (Inl e, b) \<Rightarrow> (Inl (Raise e), w\<lparr>w_budget := b\<rparr>)
      | (Inr c, b) \<Rightarrow> (Inr c, w\<lparr>w_budget := b\<rparr>))"

definition release :: "memory_charge \<Rightarrow> 'fs world \<Rightarrow> 'fs world" where
  "release c w = w\<lparr>w_budget := budget_release c (w_budget w)\<rparr>"

definition release_opt :: "memory_charge option \<Rightarrow> 'fs world \<Rightarrow> 'fs world" where
  "release_opt c = (case c of None \<Rightarrow> (\<lambda>w. w) | Some n \<Rightarrow> release n)"

definition reserve_frame :: "usize \<Rightarrow> ('fs world, memory_charge) act" where
  "reserve_frame bytes = and_then (ok_or (Raise RunLimit) (frame_working_bytes bytes)) reserve"

section \<open>What a reservation does\<close>

lemma budget_limit_fields [simp]:
  "budget_used (snd (budget_limit b)) = budget_used b"
  "budget_cap (snd (budget_limit b)) = budget_cap b"
  "budget_peak (snd (budget_limit b)) = budget_peak b"
  by (simp_all add: budget_limit_def Let_def split: option.splits)

lemma budget_limit_le: "fst (budget_limit b) \<le> budget_cap b"
  by (simp add: budget_limit_def Let_def split: option.splits)

text \<open>Held bytes as the word the atomic counter stores.\<close>

definition held_bytes :: "'fs world \<Rightarrow> u64" where
  "held_bytes w = budget_used (w_budget w)"

definition same_but_budget :: "'fs world \<Rightarrow> 'fs world \<Rightarrow> bool" where
  "same_but_budget w w' \<longleftrightarrow>
     w_permits w' = w_permits w \<and> w_pending w' = w_pending w \<and> w_files w' = w_files w"

text \<open>The ceiling is fixed and the peak never passes it.\<close>

definition within_cap :: "'fs world \<Rightarrow> 'fs world \<Rightarrow> bool" where
  "within_cap w w' \<longleftrightarrow>
     budget_cap (w_budget w') = budget_cap (w_budget w)
     \<and> (budget_peak (w_budget w) \<le> budget_cap (w_budget w) \<longrightarrow>
        budget_peak (w_budget w') \<le> budget_cap (w_budget w'))
     \<and> budget_peak (w_budget w) \<le> budget_peak (w_budget w')"

interpretation cap: frame within_cap
  by unfold_locales (auto simp: within_cap_def)

interpretation plain: frame same_but_budget
  by unfold_locales (auto simp: same_but_budget_def)

lemma limit_now_eq:
  "limit_now w = (Inr (fst (budget_limit (w_budget w))),
     w\<lparr>w_budget := snd (budget_limit (w_budget w))\<rparr>)"
  by (simp add: limit_now_def split: prod.splits)

lemma budget_reserve_cases:
  obtains (granted) after where "budget_reserve n b = (Inr n, (snd (budget_limit b))
      \<lparr>budget_used := after, budget_peak := max (budget_peak b) after\<rparr>)"
    and "checked_add (budget_used b) n = Some after" and "after \<le> fst (budget_limit b)"
  | (refused) "budget_reserve n b =
      (Inl (MemoryBudget n (saturating_sub (fst (budget_limit b)) (budget_used b))),
       snd (budget_limit b))"
    and "unat (fst (budget_limit b)) < unat (budget_used b) + unat n"
proof (cases "checked_add (budget_used b) n")
  case None
  then have "2 ^ 64 \<le> unat (budget_used b) + unat n"
    by (simp add: word_facts)
  then have "unat (fst (budget_limit b)) < unat (budget_used b) + unat n"
    using unat_u64 [of "fst (budget_limit b)"] by linarith
  with None show ?thesis
    by (intro refused) (simp_all add: budget_reserve_def Let_def split: prod.splits)
next
  case (Some after)
  show ?thesis
  proof (cases "after \<le> fst (budget_limit b)")
    case True
    with Some show ?thesis
      using budget_limit_fields(3) [of b]
      by (intro granted [of after])
        (auto simp: budget_reserve_def Let_def simp del: budget_limit_fields split: prod.splits)
  next
    case False
    moreover from Some have "unat after = unat (budget_used b) + unat n"
      by (simp add: word_facts)
    ultimately have "unat (fst (budget_limit b)) < unat (budget_used b) + unat n"
      by (simp add: word_le_nat_alt)
    with False Some show ?thesis
      by (intro refused) (auto simp: budget_reserve_def Let_def split: prod.splits)
  qed
qed

lemma reserve_conserves: "conserves held_bytes 0 (reserve n) (\<lambda>c. c)"
proof (rule conservesI)
  fix w :: "'a world" and e t
  assume "reserve n w = (Inl e, t)"
  then show "held_bytes t = held_bytes w - 0"
    by (cases n "w_budget w" rule: budget_reserve_cases)
      (auto simp: reserve_def held_bytes_def)
next
  fix w :: "'a world" and c t
  assume "reserve n w = (Inr c, t)"
  then show "held_bytes t = held_bytes w - 0 + c"
    by (cases n "w_budget w" rule: budget_reserve_cases)
      (auto simp: reserve_def held_bytes_def word_facts unat_word_ariths checked_add_def
        split: if_splits)
qed

lemma held_release: "held_bytes (release c w) = held_bytes w - c"
  by (simp add: held_bytes_def release_def budget_release_def)

lemma held_release_opt: "held_bytes (release_opt c w) = held_bytes w - (case c of None \<Rightarrow> 0 | Some n \<Rightarrow> n)"
  by (simp add: release_opt_def held_release split: option.splits)

lemma reserve_within_cap: "keeps within_cap (reserve n)"
proof (rule keepsI)
  fix w :: "'a world" and r t
  assume "reserve n w = (r, t)"
  then show "within_cap w t"
    using budget_limit_le [of "w_budget w"]
    by (cases n "w_budget w" rule: budget_reserve_cases)
      (auto simp: reserve_def within_cap_def)
qed

lemma reserve_same: "keeps same_but_budget (reserve n)"
  by (rule keepsI)
    (auto simp: reserve_def same_but_budget_def split: prod.splits sum.splits)

lemma limit_now_frames:
  "keeps same_but_budget limit_now" "keeps within_cap limit_now"
  by (auto simp: keeps_def limit_now_eq same_but_budget_def within_cap_def)

lemma limit_now_conserves: "conserves held_bytes 0 limit_now (\<lambda>_. 0)"
  by (simp add: conserves_def limit_now_eq held_bytes_def)

lemma release_frames:
  "same_but_budget w (release c w)" "within_cap w (release c w)"
  "same_but_budget w (release_opt d w)" "within_cap w (release_opt d w)"
  by (auto simp: release_opt_def release_def budget_release_def same_but_budget_def
      within_cap_def split: option.splits)

end
