(* ===== verification/Files.thy ===== *)
theory Files
  imports Budget
begin

text \<open>
  The packages the engine calls, as a record of parameters: the file operations of
  async-fs-io, the CBOR serializer and deserializer of ciborium with serde, and the
  numbers only the compiler and the allocator know (sizes of types, capacities). Named
  laws say what the engine relies on: what a successful file operation does to the
  contents, and that a serialized row deserializes to itself. Also here: paths and the
  file names the engine makes, little-endian fields, and in-memory instances of the
  parameters.
\<close>

section \<open>Paths and file names\<close>

type_synonym path = "string list"

definition join :: "path \<Rightarrow> string \<Rightarrow> path" where
  "join dir name = dir @ [name]"

fun decimal :: "nat \<Rightarrow> string" where
  "decimal n =
     (if n < 10 then [char_of (48 + n)] else decimal (n div 10) @ [char_of (48 + n mod 10)])"

declare decimal.simps [simp del]

text \<open>The format \<open>{:0w}\<close>: at least \<open>w\<close> digits, filled with zeros on the left.\<close>

definition padded :: "nat \<Rightarrow> nat \<Rightarrow> string" where
  "padded w n = replicate (w - length (decimal n)) (CHR ''0'') @ decimal n"

definition run_name :: "u64 \<Rightarrow> string" where
  "run_name ordinal = ''run-'' @ padded 20 (unat ordinal) @ ''.cbor''"

definition carry_name :: "u64 \<Rightarrow> nat \<Rightarrow> string" where
  "carry_name ordinal level =
     ''carry-'' @ padded 20 (unat ordinal) @ ''-'' @ padded 2 level @ ''.cbor''"

definition merge_name :: "nat \<Rightarrow> nat \<Rightarrow> string" where
  "merge_name pass group_idx =
     ''merge-'' @ padded 3 pass @ ''-'' @ padded 5 group_idx @ ''.cbor''"

definition decimal_value :: "string \<Rightarrow> nat" where
  "decimal_value s = foldl (\<lambda>v c. 10 * v + (of_char c - 48)) 0 s"

lemma decimal_value_snoc: "decimal_value (s @ [c]) = 10 * decimal_value s + (of_char c - 48)"
  by (simp add: decimal_value_def)

lemma of_char_digit: "d < 10 \<Longrightarrow> of_char (char_of (48 + d) :: char) - 48 = (d :: nat)"
  by (simp add: of_char_of)

lemma decimal_value_decimal: "decimal_value (decimal n) = n"
proof (induction n rule: decimal.induct)
  case (1 n)
  show ?case
  proof (cases "n < 10")
    case True
    then show ?thesis
      by (subst decimal.simps) (simp add: decimal_value_def of_char_digit)
  next
    case False
    with 1 show ?thesis
      by (subst decimal.simps) (simp add: decimal_value_snoc of_char_digit)
  qed
qed

lemma decimal_value_zeros: "decimal_value (replicate k (CHR ''0'') @ s) = decimal_value s"
  by (induction k) (simp_all add: decimal_value_def)

lemma decimal_value_padded: "decimal_value (padded w n) = n"
  by (simp add: padded_def decimal_value_zeros decimal_value_decimal)

lemma padded_inj [simp]: "padded w m = padded w n \<longleftrightarrow> m = n"
  by (metis decimal_value_padded)

lemma char_of_digit_no_dash: "d < 10 \<Longrightarrow> char_of (48 + d :: nat) \<noteq> CHR ''-''"
proof
  assume "d < 10" and "char_of (48 + d) = CHR ''-''"
  then have "of_char (char_of (48 + d) :: char) = (45 :: nat)" by simp
  then show False using \<open>d < 10\<close> by (simp add: of_char_of)
qed

lemma decimal_no_dash: "CHR ''-'' \<notin> set (decimal n)"
proof (induction n rule: decimal.induct)
  case (1 n)
  then show ?case
    using char_of_digit_no_dash [of n] char_of_digit_no_dash [of "n mod 10"]
    by (subst decimal.simps) auto
qed

lemma padded_no_dash: "CHR ''-'' \<notin> set (padded w n)"
  by (auto simp: padded_def decimal_no_dash)

lemma split_at_dash:
  assumes "a @ CHR ''-'' # b = c @ CHR ''-'' # d" "CHR ''-'' \<notin> set a" "CHR ''-'' \<notin> set c"
  shows "a = c \<and> b = d"
proof -
  have "a = takeWhile (\<lambda>x. x \<noteq> CHR ''-'') (a @ CHR ''-'' # b)"
    using assms(2) by (subst takeWhile_append2) auto
  moreover have "c = takeWhile (\<lambda>x. x \<noteq> CHR ''-'') (c @ CHR ''-'' # d)"
    using assms(3) by (subst takeWhile_append2) auto
  ultimately have "a = c" using assms(1) by simp
  then show ?thesis using assms(1) by simp
qed

lemma run_name_inj [simp]: "run_name a = run_name b \<longleftrightarrow> a = b"
  by (simp add: run_name_def word_unat_eq_iff)

lemma carry_name_inj [simp]: "carry_name a l = carry_name b m \<longleftrightarrow> a = b \<and> l = m"
  by (auto simp: carry_name_def word_unat_eq_iff dest!: split_at_dash simp: padded_no_dash)

lemma merge_name_inj [simp]: "merge_name p g = merge_name q h \<longleftrightarrow> p = q \<and> g = h"
  by (auto simp: merge_name_def dest!: split_at_dash simp: padded_no_dash)

lemma names_apart [simp]:
  "run_name a \<noteq> carry_name b l" "carry_name b l \<noteq> run_name a"
  "run_name a \<noteq> merge_name p g" "merge_name p g \<noteq> run_name a"
  "carry_name b l \<noteq> merge_name p g" "merge_name p g \<noteq> carry_name b l"
  by (simp_all add: run_name_def carry_name_def merge_name_def)

lemma join_inj [simp]: "join d m = join d n \<longleftrightarrow> m = n"
  by (simp add: join_def)

section \<open>Little-endian fields\<close>

fun le_bytes :: "nat \<Rightarrow> nat \<Rightarrow> u8 list" where
  "le_bytes 0 n = []"
| "le_bytes (Suc k) n = of_nat n # le_bytes k (n div 256)"

fun le_value :: "u8 list \<Rightarrow> nat" where
  "le_value [] = 0"
| "le_value (b # bs) = unat b + 256 * le_value bs"

definition u64_to_le_bytes :: "u64 \<Rightarrow> u8 list" where
  "u64_to_le_bytes w = le_bytes 8 (unat w)"

definition u64_from_le_bytes :: "u8 list \<Rightarrow> u64" where
  "u64_from_le_bytes bs = of_nat (le_value bs)"

definition u32_to_le_bytes :: "u32 \<Rightarrow> u8 list" where
  "u32_to_le_bytes w = le_bytes 4 (unat w)"

definition u32_from_le_bytes :: "u8 list \<Rightarrow> u32" where
  "u32_from_le_bytes bs = of_nat (le_value bs)"

lemma length_le_bytes [simp]: "length (le_bytes k n) = k"
  by (induction k arbitrary: n) simp_all

lemma le_value_le_bytes: "le_value (le_bytes k n) = n mod 256 ^ k"
proof (induction k arbitrary: n)
  case 0
  then show ?case by simp
next
  case (Suc k)
  have "n mod 256 ^ Suc k = n mod 256 + 256 * (n div 256 mod 256 ^ k)"
    by (simp add: mod_mult2_eq)
  then show ?case by (simp add: Suc unat_of_nat)
qed

lemma u64_le_roundtrip [simp]: "u64_from_le_bytes (u64_to_le_bytes w) = w"
proof -
  have "unat w mod 256 ^ 8 = unat w" using unat_u64 [of w] by simp
  then show ?thesis by (simp add: u64_from_le_bytes_def u64_to_le_bytes_def le_value_le_bytes)
qed

lemma u32_le_roundtrip [simp]: "u32_from_le_bytes (u32_to_le_bytes w) = w"
proof -
  have "unat w mod 256 ^ 4 = unat w" using unat_u32 [of w] by simp
  then show ?thesis by (simp add: u32_from_le_bytes_def u32_to_le_bytes_def le_value_le_bytes)
qed

lemma length_to_le_bytes [simp]:
  "length (u64_to_le_bytes w) = 8" "length (u32_to_le_bytes v) = 4"
  by (simp_all add: u64_to_le_bytes_def u32_to_le_bytes_def)


section \<open>The parameters\<close>

text \<open>The futures passed to \<open>perform\<close>, one per call site: each has a size of its own.\<close>

datatype io_op = CreateRun | WriteRow | FinishRun | OpenRun | ReadRow | EnsureDir | EnsureReplayDir

text \<open>A row is serialized twice: to measure the frame, then into it.\<close>

datatype pass = Sizing | Encoding

text \<open>What a run stores of a row: key, value, ordinal.\<close>

type_synonym ('k, 'v) row_payload = "'k \<times> 'v \<times> u64"

text \<open>
  A serializer call is the sequence of buffers it writes and the error it ends with, if it
  ends with one of its own.
\<close>

type_synonym writes = "u8 list list \<times> string option"

record ('fs, 'h, 'k, 'v) ext =
  fs_create :: "path \<Rightarrow> 'fs \<Rightarrow> (fs_error + 'h) \<times> 'fs"
  fs_open :: "path \<Rightarrow> 'fs \<Rightarrow> (fs_error + 'h) \<times> 'fs"
  fs_open_append :: "path \<Rightarrow> 'fs \<Rightarrow> (fs_error + 'h) \<times> 'fs"
  fs_open_write_at_end :: "path \<Rightarrow> 'fs \<Rightarrow> (fs_error + 'h) \<times> 'fs"
  fs_seek :: "'h \<Rightarrow> u64 \<Rightarrow> 'fs \<Rightarrow> (fs_error + 'h) \<times> 'fs"
  fs_write_all :: "'h \<Rightarrow> u8 list \<Rightarrow> 'fs \<Rightarrow> (fs_error + 'h) \<times> 'fs"
  fs_flush :: "'h \<Rightarrow> 'fs \<Rightarrow> (fs_error + 'h) \<times> 'fs"
  fs_read_exact :: "'h \<Rightarrow> nat \<Rightarrow> 'fs \<Rightarrow> (fs_error + u8 list \<times> 'h) \<times> 'fs"
  fs_ensure_dir :: "path \<Rightarrow> 'fs \<Rightarrow> (fs_error + unit) \<times> 'fs"
  fs_remove_if_exists :: "path \<Rightarrow> 'fs \<Rightarrow> (fs_error + unit) \<times> 'fs"
  fs_remove_dir_all :: "path \<Rightarrow> 'fs \<Rightarrow> (fs_error + unit) \<times> 'fs"
  into_writer :: "pass \<Rightarrow> ('k, 'v) row_payload \<Rightarrow> writes"
  from_reader :: "u8 list \<Rightarrow> string + ('k, 'v) row_payload"
  size_of_future :: "io_op \<Rightarrow> usize"
  size_of_row :: usize
  size_of_pair :: usize
  size_of_source :: usize
  size_of_heap_entry :: usize
  size_of_session :: usize
  size_of_reader :: usize
  size_of_writer_and_inner :: usize
  path_capacity :: "path \<Rightarrow> usize"
  vec_capacity :: "usize \<Rightarrow> usize"

text \<open>
  What the engine relies on in the file package: the effect of an operation that
  succeeds, with \<open>view\<close> the contents by path and \<open>hpath\<close>, \<open>hpos\<close> the path and position
  of an open file. Creating truncates; appending and opening at the end position behind
  the last byte; a write replaces what it covers and extends the file; reading changes
  nothing, whether it succeeds or fails. Nothing is assumed of an operation that creates,
  writes or removes and then reports an error.
\<close>

definition overwrite :: "nat \<Rightarrow> u8 list \<Rightarrow> u8 list \<Rightarrow> u8 list" where
  "overwrite pos bs c = take pos c @ bs @ drop (pos + length bs) c"

definition read_laws ::
    "('fs, 'h, 'k, 'v) ext \<Rightarrow> ('fs \<Rightarrow> path \<Rightarrow> u8 list option)
      \<Rightarrow> ('h \<Rightarrow> path) \<Rightarrow> ('h \<Rightarrow> nat) \<Rightarrow> bool" where
  "read_laws X view hpath hpos \<longleftrightarrow>
     (\<forall>p s r s'. fs_open X p s = (r, s') \<longrightarrow> view s' = view s) \<and>
     (\<forall>p s h s'. fs_open X p s = (Inr h, s') \<longrightarrow> hpath h = p \<and> hpos h = 0 \<and> view s p \<noteq> None) \<and>
     (\<forall>h n s r s'. fs_seek X h n s = (r, s') \<longrightarrow> view s' = view s) \<and>
     (\<forall>h n s h' s'. fs_seek X h n s = (Inr h', s') \<longrightarrow> hpath h' = hpath h \<and> hpos h' = unat n) \<and>
     (\<forall>h n s r s'. fs_read_exact X h n s = (r, s') \<longrightarrow> view s' = view s) \<and>
     (\<forall>h n s bs h' s' c. fs_read_exact X h n s = (Inr (bs, h'), s') \<longrightarrow> view s (hpath h) = Some c \<longrightarrow>
        hpath h' = hpath h \<and> hpos h' = hpos h + n \<and> length bs = n \<and> bs = take n (drop (hpos h) c))"

definition write_laws ::
    "('fs, 'h, 'k, 'v) ext \<Rightarrow> ('fs \<Rightarrow> path \<Rightarrow> u8 list option)
      \<Rightarrow> ('h \<Rightarrow> path) \<Rightarrow> ('h \<Rightarrow> nat) \<Rightarrow> bool" where
  "write_laws X view hpath hpos \<longleftrightarrow>
     (\<forall>p s h s'. fs_create X p s = (Inr h, s') \<longrightarrow>
        view s' = (view s)(p \<mapsto> []) \<and> hpath h = p \<and> hpos h = 0) \<and>
     (\<forall>p s h s' c. fs_open_append X p s = (Inr h, s') \<longrightarrow> view s p = Some c \<longrightarrow>
        view s' = view s \<and> hpath h = p \<and> hpos h = length c) \<and>
     (\<forall>p s h s' c. fs_open_write_at_end X p s = (Inr h, s') \<longrightarrow> view s p = Some c \<longrightarrow>
        view s' = view s \<and> hpath h = p \<and> hpos h = length c) \<and>
     (\<forall>h bs s h' s' c. fs_write_all X h bs s = (Inr h', s') \<longrightarrow> view s (hpath h) = Some c \<longrightarrow>
        hpos h \<le> length c \<longrightarrow>
        view s' = (view s)(hpath h \<mapsto> overwrite (hpos h) bs c)
        \<and> hpath h' = hpath h \<and> hpos h' = hpos h + length bs) \<and>
     (\<forall>h s h' s'. fs_flush X h s = (Inr h', s') \<longrightarrow> view s' = view s)"

definition dir_laws ::
    "('fs, 'h, 'k, 'v) ext \<Rightarrow> ('fs \<Rightarrow> path \<Rightarrow> u8 list option) \<Rightarrow> bool" where
  "dir_laws X view \<longleftrightarrow>
     (\<forall>d s s'. fs_ensure_dir X d s = (Inr (), s') \<longrightarrow> view s' = view s) \<and>
     (\<forall>p s s'. fs_remove_if_exists X p s = (Inr (), s') \<longrightarrow> view s' = (view s)(p := None)) \<and>
     (\<forall>d s s'. fs_remove_dir_all X d s = (Inr (), s') \<longrightarrow>
        (\<forall>q. view s' q = (if take (length d) q = d then None else view s q)))"

text \<open>Serializing and deserializing are inverse: the law of a serde format.\<close>

definition codec_laws :: "('fs, 'h, 'k, 'v) ext \<Rightarrow> bool" where
  "codec_laws X \<longleftrightarrow>
     (\<forall>x chunks. into_writer X Encoding x = (chunks, None) \<longrightarrow> from_reader X (concat chunks) = Inr x)"

definition ext_laws ::
    "('fs, 'h, 'k, 'v) ext \<Rightarrow> ('fs \<Rightarrow> path \<Rightarrow> u8 list option)
      \<Rightarrow> ('h \<Rightarrow> path) \<Rightarrow> ('h \<Rightarrow> nat) \<Rightarrow> bool" where
  "ext_laws X view hpath hpos \<longleftrightarrow>
     read_laws X view hpath hpos \<and> write_laws X view hpath hpos \<and> dir_laws X view \<and> codec_laws X"

section \<open>File calls as actions\<close>

definition io :: "('fs \<Rightarrow> (fs_error + 'a) \<times> 'fs) \<Rightarrow> ('fs world, 'a) act" where
  "io f w =
     (case f (w_files w) of
        (Inl e, s) \<Rightarrow> (Inl (Raise (Io e)), w\<lparr>w_files := s\<rparr>)
      | (Inr x, s) \<Rightarrow> (Inr x, w\<lparr>w_files := s\<rparr>))"

lemma io_ok [act_ok]:
  "io f w = (Inr x, w') \<longleftrightarrow> (\<exists>s. f (w_files w) = (Inr x, s) \<and> w' = w\<lparr>w_files := s\<rparr>)"
  by (auto simp: io_def split: prod.splits sum.splits)

lemma io_conserves: "conserves held_bytes 0 (io f) (\<lambda>_. 0)"
  by (auto simp: conserves_def io_def held_bytes_def split: prod.splits sum.splits)

lemma io_within_cap: "keeps within_cap (io f)"
  by (auto simp: keeps_def io_def within_cap_def split: prod.splits sum.splits)

end
