(* ===== verification/Operation.thy ===== *)
theory Operation
  imports Files
begin

text \<open>
  File operations that own their reservations (src/engine/operation.rs), awaited by the
  task that starts them: the pending count of the scratch scope, the descriptor permit and
  the bookkeeping reservation, all given back when the operation ends. A caller may leave at
  any await; an operation it had started then runs to its end without it. The interleaving
  of such operations with what the caller does next is the subject of the theory OperationJobs.
\<close>

definition scope_start :: "'fs world \<Rightarrow> 'fs world" where
  "scope_start w = w\<lparr>w_pending := w_pending w + 1\<rparr>"

definition io_guard_drop :: "'fs world \<Rightarrow> 'fs world" where
  "io_guard_drop w = w\<lparr>w_pending := w_pending w - 1\<rparr>"

definition permit_take :: "'fs world \<Rightarrow> 'fs world" where
  "permit_take w = w\<lparr>w_permits := w_permits w - 1\<rparr>"

definition permit_drop :: "'fs world \<Rightarrow> 'fs world" where
  "permit_drop w = w\<lparr>w_permits := w_permits w + 1\<rparr>"

text \<open>
  An await of the caller. \<open>w_leaves\<close> says, await by await, whether the caller drops its future
  there; once the list is empty it stays for good. Leaving drops what the future owns, as an
  early return does.
\<close>

definition caller_stays :: "('fs world, unit) act" where
  "caller_stays w =
     (case w_leaves w of
        [] \<Rightarrow> (Inr (), w)
      | leaves # later \<Rightarrow> (if leaves then Inl Waiting else Inr (), w\<lparr>w_leaves := later\<rparr>))"

definition awaited :: "('fs world, 'a) act \<Rightarrow> ('fs world, 'a) act" where
  "awaited m = and_then m (\<lambda>x. and_then caller_stays (\<lambda>_. ret x))"

text \<open>A spawned task has no caller that could leave.\<close>

definition detached :: "('fs world, 'a) act \<Rightarrow> ('fs world, 'a) act" where
  "detached m w = (case m (w\<lparr>w_leaves := []\<rparr>) of (r, w') \<Rightarrow> (r, w'\<lparr>w_leaves := w_leaves w\<rparr>))"

text \<open>
  \<open>perform_reserved captured operation\<close>: the future \<open>operation\<close> owns what \<open>captured\<close>
  drops, whether it runs or is dropped unrun while it waits for a permit. The spawned
  task turns a panic of the operation into a worker error. If the caller leaves while the
  task runs, the task still ends, gives back its permit, and drops its result (\<open>lost\<close>).
\<close>

definition join_error :: "fault + 'a \<Rightarrow> fault + 'a" where
  "join_error r = (case r of Inl (Panic m) \<Rightarrow> Inl (Raise (Worker m)) | _ \<Rightarrow> r)"

definition perform_reserved_with ::
    "('a \<Rightarrow> 'fs world \<Rightarrow> 'fs world) \<Rightarrow> ('fs world \<Rightarrow> 'fs world) \<Rightarrow> ('fs world, 'a) act
      \<Rightarrow> ('fs world, 'a) act" where
  "perform_reserved_with lost captured operation w =
     (let w1 = scope_start w
      in if w_permits w1 = 0 then (Inl Waiting, io_guard_drop (captured w1))
         else
           (case caller_stays w1 of
              (Inl e, w2) \<Rightarrow> (Inl e, io_guard_drop (captured w2))
            | (Inr _, w2) \<Rightarrow>
                (case ensuring operation captured (permit_take w2) of
                   (r, w3) \<Rightarrow>
                     (case caller_stays (io_guard_drop (permit_drop w3)) of
                        (Inl e, w4) \<Rightarrow> (Inl e, case r of Inl _ \<Rightarrow> w4 | Inr x \<Rightarrow> lost x w4)
                      | (Inr _, w4) \<Rightarrow> (join_error r, w4)))))"

definition perform_reserved ::
    "('fs world \<Rightarrow> 'fs world) \<Rightarrow> ('fs world, 'a) act \<Rightarrow> ('fs world, 'a) act" where
  "perform_reserved = perform_reserved_with (\<lambda>_ w. w)"

definition perform_bytes :: "usize \<Rightarrow> usize \<Rightarrow> usize option" where
  "perform_bytes future_size path_bytes =
     Option.bind (checked_mul future_size 2) (\<lambda>doubled.
     Option.bind (checked_mul path_bytes 3) (\<lambda>paths.
     Option.bind (checked_add doubled paths) (\<lambda>sum. checked_add sum 1024)))"

definition perform_with ::
    "('a \<Rightarrow> 'fs world \<Rightarrow> 'fs world) \<Rightarrow> ('fs world \<Rightarrow> 'fs world) \<Rightarrow> usize \<Rightarrow> usize
      \<Rightarrow> ('fs world, 'a) act \<Rightarrow> ('fs world, 'a) act" where
  "perform_with lost captured future_size path_bytes operation =
     attempt captured (ok_or (Raise RunLimit) (perform_bytes future_size path_bytes)) (\<lambda>bytes.
     attempt captured (reserve bytes) (\<lambda>metadata.
     perform_reserved_with lost (\<lambda>w. release metadata (captured w)) operation))"

definition perform ::
    "('fs world \<Rightarrow> 'fs world) \<Rightarrow> usize \<Rightarrow> usize \<Rightarrow> ('fs world, 'a) act
      \<Rightarrow> ('fs world, 'a) act" where
  "perform = perform_with (\<lambda>_ w. w)"

section \<open>Every operation gives back what it took\<close>

lemma scope_fields [simp]:
  "w_budget (scope_start w) = w_budget w" "w_budget (io_guard_drop w) = w_budget w"
  "w_budget (permit_take w) = w_budget w" "w_budget (permit_drop w) = w_budget w"
  "w_files (scope_start w) = w_files w" "w_files (io_guard_drop w) = w_files w"
  "w_files (permit_take w) = w_files w" "w_files (permit_drop w) = w_files w"
  by (simp_all add: scope_start_def io_guard_drop_def permit_take_def permit_drop_def)

lemma caller_stays_cases:
  obtains r l where "caller_stays w = (r, w\<lparr>w_leaves := l\<rparr>)" and "r = Inr () \<or> r = Inl Waiting"
proof (cases "w_leaves w")
  case Nil
  then have "caller_stays w = (Inr (), w\<lparr>w_leaves := []\<rparr>)" by (simp add: caller_stays_def)
  then show thesis using that by blast
next
  case (Cons b l)
  then show thesis using that by (simp add: caller_stays_def)
qed

lemma caller_stays_fields:
  assumes "caller_stays w = (r, w')"
  shows "w_files w' = w_files w \<and> w_budget w' = w_budget w \<and> w_permits w' = w_permits w \<and> w_pending w' = w_pending w"
  using assms by (auto simp: caller_stays_def split: list.splits)

lemma caller_stays_same: "keeps same_but_budget caller_stays" "keeps within_cap caller_stays"
  by (auto simp: keeps_def caller_stays_def same_but_budget_def within_cap_def split: list.splits)

lemma caller_stays_conserves: "conserves held_bytes 0 caller_stays (\<lambda>_. 0)"
  by (auto simp: conserves_def caller_stays_def held_bytes_def split: list.splits)

lemma held_leaves [simp]: "held_bytes (w\<lparr>w_leaves := l\<rparr>) = held_bytes w"
  by (simp add: held_bytes_def)

text \<open>
  An operation, taken apart: it is dropped before it starts, or it runs and its result is
  returned or lost.
\<close>

lemma perform_reserved_cases:
  assumes "perform_reserved_with lost captured operation w = (r, w')"
  obtains (unrun) l where "r = Inl Waiting" "w' = io_guard_drop (captured ((scope_start w)\<lparr>w_leaves := l\<rparr>))"
  | (returned) l l' q u where "0 < w_permits w" "operation (permit_take ((scope_start w)\<lparr>w_leaves := l\<rparr>)) = (q, u)"
      "r = join_error q" "w' = (io_guard_drop (permit_drop (captured u)))\<lparr>w_leaves := l'\<rparr>"
  | (left) l l' q u where "0 < w_permits w" "operation (permit_take ((scope_start w)\<lparr>w_leaves := l\<rparr>)) = (q, u)"
      "r = Inl Waiting"
      "w' = (case q of Inl _ \<Rightarrow> (\<lambda>w. w) | Inr x \<Rightarrow> lost x) ((io_guard_drop (permit_drop (captured u)))\<lparr>w_leaves := l'\<rparr>)"
proof (cases "w_permits w = 0")
  case True
  then have "r = Inl Waiting" "w' = io_guard_drop (captured ((scope_start w)\<lparr>w_leaves := w_leaves w\<rparr>))"
    using assms by (simp_all add: perform_reserved_with_def scope_start_def)
  then show thesis by (rule unrun)
next
  case False
  obtain r1 l where first: "caller_stays (scope_start w) = (r1, (scope_start w)\<lparr>w_leaves := l\<rparr>)"
    "r1 = Inr () \<or> r1 = Inl Waiting" by (rule caller_stays_cases)
  obtain q u where op: "operation (permit_take ((scope_start w)\<lparr>w_leaves := l\<rparr>)) = (q, u)" by fastforce
  obtain r2 l' where second: "caller_stays (io_guard_drop (permit_drop (captured u)))
      = (r2, (io_guard_drop (permit_drop (captured u)))\<lparr>w_leaves := l'\<rparr>)"
    "r2 = Inr () \<or> r2 = Inl Waiting" by (rule caller_stays_cases)
  show thesis
    using assms False first second op unrun returned [OF _ op] left [OF _ op]
    by (auto simp: perform_reserved_with_def Let_def ensuring_def scope_start_def split: sum.splits)
qed

text \<open>An operation that returns, inverted.\<close>

lemma caller_stays_ok:
  "caller_stays w = (Inr (), w') \<Longrightarrow> \<exists>l. w' = w\<lparr>w_leaves := l\<rparr>"
  using caller_stays_cases [of w] by (metis prod.inject)

lemma perform_reserved_ok:
  "perform_reserved_with lost captured operation w = (Inr x, w') \<longleftrightarrow>
     0 < w_permits w \<and>
     (\<exists>w2 u. caller_stays (scope_start w) = (Inr (), w2) \<and> operation (permit_take w2) = (Inr x, u)
        \<and> caller_stays (io_guard_drop (permit_drop (captured u))) = (Inr (), w'))"
  by (auto simp: perform_reserved_with_def Let_def scope_start_def ensuring_def join_error_def
      split: prod.splits sum.splits fault.splits)

lemma perform_ok:
  "perform_with lost captured fsize pbytes operation w = (Inr x, w') \<longleftrightarrow>
     (\<exists>n m w1 w2 u. perform_bytes fsize pbytes = Some n \<and> reserve n w = (Inr m, w1)
        \<and> 0 < w_permits w1 \<and> caller_stays (scope_start w1) = (Inr (), w2)
        \<and> operation (permit_take w2) = (Inr x, u)
        \<and> caller_stays (io_guard_drop (permit_drop (release m (captured u)))) = (Inr (), w'))"
  by (auto simp: perform_with_def act_ok perform_reserved_ok)

lemma perform_reserved_conserves:
  assumes op: "conserves held_bytes 0 operation b"
    and captured: "\<And>w. held_bytes (captured w) = held_bytes w - c"
    and lost: "\<And>x w. held_bytes (lost x w) = held_bytes w - b x"
  shows "conserves held_bytes c (perform_reserved_with lost captured operation) b"
proof -
  have held: "held_bytes (scope_start w) = held_bytes w" "held_bytes (io_guard_drop w) = held_bytes w"
    "held_bytes (permit_take w) = held_bytes w" "held_bytes (permit_drop w) = held_bytes w"
    for w :: "'a world"
    by (simp_all add: held_bytes_def)
  have job: "held_bytes u = held_bytes w + (case q of Inl _ \<Rightarrow> 0 | Inr x \<Rightarrow> b x)"
    if "operation (permit_take ((scope_start w)\<lparr>w_leaves := l\<rparr>)) = (q, u)" for w l q u
    using that by (cases q) (auto simp: held dest: conserves_fault [OF op] conserves_value [OF op])
  show ?thesis
  proof (rule conservesI)
    fix s e t
    assume "perform_reserved_with lost captured operation s = (Inl e, t)"
    then show "held_bytes t = held_bytes s - c"
    proof (cases rule: perform_reserved_cases)
      case (left l l' q u)
      show ?thesis using job [OF left(2)] by (cases q) (simp_all add: left(4) held captured lost)
    next
      case (returned l l' q u)
      then obtain f where "q = Inl f" by (cases q) (auto simp: join_error_def)
      then show ?thesis using job [OF returned(2)] by (simp add: returned(4) held captured)
    qed (simp add: held captured)
  next
    fix s x t
    assume "perform_reserved_with lost captured operation s = (Inr x, t)"
    then show "held_bytes t = held_bytes s - c + b x"
    proof (cases rule: perform_reserved_cases)
      case (returned l l' q u)
      then have "q = Inr x" by (auto simp: join_error_def split: sum.splits fault.splits)
      then show ?thesis using job [OF returned(2)] by (simp add: returned(4) held captured)
    qed simp_all
  qed
qed

lemma perform_with_conserves:
  assumes op: "conserves held_bytes 0 operation b"
    and captured: "\<And>w. held_bytes (captured w) = held_bytes w - c"
    and lost: "\<And>x w. held_bytes (lost x w) = held_bytes w - b x"
  shows "conserves held_bytes c (perform_with lost captured fsize pbytes operation) b"
proof -
  have inner: "conserves held_bytes (m + c)
      (perform_reserved_with lost (\<lambda>w. release m (captured w)) operation) b" for m
    using op by (rule perform_reserved_conserves) (simp_all add: held_release captured lost)
  show ?thesis
    unfolding perform_with_def
    by (intro conserves_attempt_neutral [OF conserves_ok_or]
        conserves_attempt_gain [OF reserve_conserves] inner captured)
qed

lemma perform_conserves:
  assumes "conserves held_bytes 0 operation (\<lambda>_. 0)" and "\<And>w. held_bytes (captured w) = held_bytes w - c"
  shows "conserves held_bytes c (perform captured fsize pbytes operation) (\<lambda>_. 0)"
  unfolding perform_def by (rule perform_with_conserves [OF assms]) simp

lemma awaited_conserves: "conserves held_bytes 0 m (\<lambda>_. 0) \<Longrightarrow> conserves held_bytes 0 (awaited m) (\<lambda>_. 0)"
  unfolding awaited_def
  by (intro conserves_and_then [of _ _ _ "\<lambda>_. 0"] conserves_and_then [OF caller_stays_conserves] conserves_ret) simp_all

lemma detached_conserves:
  assumes "conserves held_bytes 0 m (\<lambda>_. 0)"
  shows "held_bytes (snd (detached m w)) = held_bytes w"
proof -
  obtain r u where run: "m (w\<lparr>w_leaves := []\<rparr>) = (r, u)" by (metis surj_pair)
  then have "held_bytes u = held_bytes w"
    using conserves_fault [OF assms] conserves_value [OF assms] by (cases r) auto
  then show ?thesis using run by (simp add: detached_def)
qed

text \<open>The permits and the pending count are restored on every exit.\<close>

definition same_permits :: "'fs world \<Rightarrow> 'fs world \<Rightarrow> bool" where
  "same_permits w w' \<longleftrightarrow> w_permits w' = w_permits w \<and> w_pending w' = w_pending w"

interpretation permits: frame same_permits
  by unfold_locales (auto simp: same_permits_def)

lemma same_permitsI: "same_but_budget w w' \<Longrightarrow> same_permits w w'"
  by (simp add: same_but_budget_def same_permits_def)

lemma keeps_weaken: "keeps R m \<Longrightarrow> (\<And>s t. R s t \<Longrightarrow> Q s t) \<Longrightarrow> keeps Q m"
  by (simp add: keeps_def)

lemma io_same_permits: "keeps same_permits (io f)"
  by (auto simp: keeps_def io_def same_permits_def split: prod.splits sum.splits)

lemma perform_reserved_same_permits:
  assumes op: "keeps same_permits operation" and captured: "\<And>w. same_permits w (captured w)"
    and lost: "\<And>x w. same_permits w (lost x w)"
  shows "keeps same_permits (perform_reserved_with lost captured operation)"
proof (rule keepsI)
  fix w r w'
  assume run: "perform_reserved_with lost captured operation w = (r, w')"
  have ran: "same_permits w ((io_guard_drop (permit_drop (captured u)))\<lparr>w_leaves := l'\<rparr>)"
    if "0 < w_permits w" "operation (permit_take ((scope_start w)\<lparr>w_leaves := l\<rparr>)) = (q, u)" for l l' q u
    using that(1) permits.trans [OF keepsD [OF op that(2)] captured]
    by (simp add: same_permits_def scope_start_def io_guard_drop_def permit_take_def permit_drop_def)
  show "same_permits w w'"
    using run
  proof (cases rule: perform_reserved_cases)
    case (unrun l)
    then show ?thesis
      using captured [of "(scope_start w)\<lparr>w_leaves := l\<rparr>"]
      by (simp add: same_permits_def scope_start_def io_guard_drop_def)
  next
    case (left l l' q u)
    then show ?thesis
      using ran [OF left(1,2), of l'] lost by (cases q) (auto intro: permits.trans)
  qed (use ran in blast)
qed

lemma awaited_same_permits: "keeps same_permits m \<Longrightarrow> keeps same_permits (awaited m)"
  unfolding awaited_def
  by (intro permits.keeps_intros keeps_weaken [OF caller_stays_same(1) same_permitsI])

lemma awaited_ok: "awaited m w = (Inr x, w') \<Longrightarrow> \<exists>u. m w = (Inr x, u) \<and> w_files w' = w_files u"
  by (auto simp: awaited_def act_ok dest: caller_stays_fields)

lemma detached_same_permits:
  assumes "keeps same_permits m"
  shows "keeps same_permits (detached m)"
proof (rule keepsI)
  fix w r w'
  assume "detached m w = (r, w')"
  then obtain u where "m (w\<lparr>w_leaves := []\<rparr>) = (r, u)" "w' = u\<lparr>w_leaves := w_leaves w\<rparr>"
    by (auto simp: detached_def split: prod.splits)
  then show "same_permits w w'" using keepsD [OF assms] by (fastforce simp: same_permits_def)
qed

lemma caller_frames: "keeps same_permits caller_stays" "keeps within_cap caller_stays"
  by (auto intro: keeps_weaken [OF caller_stays_same(1) same_permitsI] caller_stays_same(2))

lemma perform_with_same_permits:
  assumes "keeps same_permits operation" and "\<And>w. same_permits w (captured w)"
    and "\<And>x w. same_permits w (lost x w)"
  shows "keeps same_permits (perform_with lost captured fsize pbytes operation)"
  unfolding perform_with_def
  by (intro permits.keeps_intros perform_reserved_same_permits assms
      keeps_weaken [OF reserve_same same_permitsI])
    (auto intro: permits.trans [OF assms(2)] same_permitsI release_frames)

lemma perform_same_permits:
  "keeps same_permits operation \<Longrightarrow> (\<And>w. same_permits w (captured w)) \<Longrightarrow>
    keeps same_permits (perform captured fsize pbytes operation)"
  unfolding perform_def by (rule perform_with_same_permits) (simp_all add: permits.refl)

text \<open>
  What an operation and what it owns keep, the whole call keeps, for a relation that does not
  look at the permits, the pending count or the caller's decisions.
\<close>

locale blind_frame = frame R for R :: "'fs world \<Rightarrow> 'fs world \<Rightarrow> bool" +
  assumes blind: "R v w \<Longrightarrow> w_budget v' = w_budget v \<Longrightarrow> w_files v' = w_files v \<Longrightarrow>
      w_budget w' = w_budget w \<Longrightarrow> w_files w' = w_files w \<Longrightarrow> R v' w'"
begin

lemma keeps_caller_stays: "keeps R caller_stays"
  by (auto intro!: keepsI blind [OF refl] simp: caller_stays_def split: list.splits)

lemma keeps_awaited: "keeps R m \<Longrightarrow> keeps R (awaited m)"
  unfolding awaited_def by (intro keeps_attempt keeps_caller_stays keeps_ret refl)

lemma keeps_detached:
  assumes "keeps R m"
  shows "keeps R (detached m)"
proof (rule keepsI)
  fix w r w'
  assume "detached m w = (r, w')"
  then obtain u where "m (w\<lparr>w_leaves := []\<rparr>) = (r, u)" "w' = u\<lparr>w_leaves := w_leaves w\<rparr>"
    by (auto simp: detached_def split: prod.splits)
  then show "R w w'" using blind [OF keepsD [OF assms]] by auto
qed

lemma keeps_perform_reserved:
  assumes op: "keeps R operation" and captured: "\<And>w. R w (captured w)" and lost: "\<And>x w. R w (lost x w)"
  shows "keeps R (perform_reserved_with lost captured operation)"
proof (rule keepsI)
  fix w r w'
  assume run: "perform_reserved_with lost captured operation w = (r, w')"
  have ran: "R w ((io_guard_drop (permit_drop (captured u)))\<lparr>w_leaves := l'\<rparr>)"
    if "operation (permit_take ((scope_start w)\<lparr>w_leaves := l\<rparr>)) = (q, u)" for l l' q u
    by (rule blind [OF trans [OF keepsD [OF op that] captured]]) simp_all
  show "R w w'"
    using run
  proof (cases rule: perform_reserved_cases)
    case (unrun l)
    show ?thesis
      by (rule blind [OF captured [of "(scope_start w)\<lparr>w_leaves := l\<rparr>"]]) (simp_all add: unrun)
  next
    case (left l l' q u)
    then show ?thesis
      using ran [OF left(2), of l'] trans [OF ran [OF left(2), of l'] lost] by (cases q) auto
  qed (use ran in blast)
qed

lemma keeps_perform_with:
  assumes "\<And>n. keeps R (reserve n)" and release: "\<And>c w. R w (release c w)"
    and "keeps R operation" and "\<And>w. R w (captured w)" and "\<And>x w. R w (lost x w)"
  shows "keeps R (perform_with lost captured fsize pbytes operation)"
  unfolding perform_with_def
  by (intro keeps_attempt keeps_ok_or keeps_perform_reserved assms) (rule trans [OF assms(4) release])

end

interpretation capped: blind_frame within_cap
  by unfold_locales (auto simp: within_cap_def)

lemma perform_with_within_cap:
  "keeps within_cap operation \<Longrightarrow> (\<And>w. within_cap w (captured w)) \<Longrightarrow> (\<And>x w. within_cap w (lost x w)) \<Longrightarrow>
    keeps within_cap (perform_with lost captured fsize pbytes operation)"
  by (intro capped.keeps_perform_with reserve_within_cap release_frames)

lemma perform_within_cap:
  "keeps within_cap operation \<Longrightarrow> (\<And>w. within_cap w (captured w)) \<Longrightarrow>
    keeps within_cap (perform captured fsize pbytes operation)"
  unfolding perform_def by (rule perform_with_within_cap) (simp_all add: cap.refl)

end
