(* ===== verification/Codec.thy ===== *)
theory Codec
  imports Operation
begin

text \<open>
  Measuring a serialized row before its exact storage is reserved (src/engine/codec.rs):
  the counting writer, the bounded frame writer and \<open>encode\<close>, over a serializer that is a
  parameter and may behave differently in its two passes.
\<close>

section \<open>The two writers\<close>

record counter =
  counter_bytes :: usize
  counter_limit :: usize

definition counter_write :: "counter \<Rightarrow> u8 list \<Rightarrow> string + counter" where
  "counter_write c bytes =
     (if 2 ^ 64 \<le> unat (counter_bytes c) + length bytes
      then Inl ''encoded record length overflow''
      else let n = counter_bytes c + of_nat (length bytes)
           in if counter_limit c < n then Inl ''encoded record exceeds byte budget''
              else Inr (c\<lparr>counter_bytes := n\<rparr>))"

record frame_writer =
  fw_bytes :: "u8 list"
  fw_limit :: usize

definition frame_writer_write :: "frame_writer \<Rightarrow> u8 list \<Rightarrow> string + frame_writer" where
  "frame_writer_write fw bytes =
     (if unat (fw_limit fw) - length (fw_bytes fw) < length bytes
      then Inl ''serialized row changed after sizing''
      else Inr (fw\<lparr>fw_bytes := fw_bytes fw @ bytes\<rparr>))"

text \<open>A serializer call hands its buffers to a writer until one is refused.\<close>

fun drive :: "('s \<Rightarrow> u8 list \<Rightarrow> string + 's) \<Rightarrow> 's \<Rightarrow> u8 list list \<Rightarrow> string option \<Rightarrow> string + 's" where
  "drive wr s [] None = Inr s"
| "drive wr s [] (Some e) = Inl e"
| "drive wr s (c # cs) e = (case wr s c of Inl m \<Rightarrow> Inl m | Inr s' \<Rightarrow> drive wr s' cs e)"

definition or_raise :: "(string \<Rightarrow> error) \<Rightarrow> string + 'a \<Rightarrow> ('s, 'a) act" where
  "or_raise g r = (case r of Inl m \<Rightarrow> fail (Raise (g m)) | Inr x \<Rightarrow> ret x)"

definition encode ::
    "('fs, 'h, 'k, 'v) ext \<Rightarrow> ('k, 'v) row_payload \<Rightarrow> ('fs world, u8 list \<times> memory_charge) act" where
  "encode X value =
     and_then limit_now (\<lambda>limit.
     and_then (or_raise Encode
       (case_prod (drive counter_write \<lparr>counter_bytes = 0, counter_limit = limit\<rparr>)
          (into_writer X Sizing value))) (\<lambda>count.
     and_then (reserve_frame (counter_bytes count)) (\<lambda>charge.
     attempt (release charge) (or_raise Encode
       (case_prod (drive frame_writer_write \<lparr>fw_bytes = [], fw_limit = counter_bytes count\<rparr>)
          (into_writer X Encoding value))) (\<lambda>writer.
     if length (fw_bytes writer) \<noteq> unat (counter_bytes count)
        \<or> counter_bytes count < vec_capacity X (counter_bytes count)
     then bail (release charge)
            (Raise (Encode ''serialization changed between sizing and encoding''))
     else ret (fw_bytes writer, charge)))))"

section \<open>What encoding yields\<close>

lemma or_raise_ok [act_ok]: "or_raise g r s = (Inr x, t) \<longleftrightarrow> r = Inr x \<and> t = s"
  by (auto simp: or_raise_def act_ok split: sum.splits)

lemma or_raise_conserves: "conserves \<mu> 0 (or_raise g r) (\<lambda>_. 0)"
  by (simp add: or_raise_def conserves_ret conserves_fail split: sum.splits)

context frame
begin

lemma keeps_or_raise: "keeps R (or_raise g r)"
  by (simp add: or_raise_def keeps_ret keeps_fail split: sum.splits)

end

lemma drive_counter:
  assumes "drive counter_write c chunks e = Inr c'"
  shows "unat (counter_bytes c') = unat (counter_bytes c) + length (concat chunks)
    \<and> counter_limit c' = counter_limit c \<and> e = None
    \<and> (counter_bytes c \<le> counter_limit c \<longrightarrow> counter_bytes c' \<le> counter_limit c)"
  using assms
proof (induction counter_write c chunks e rule: drive.induct)
  case (3 s c cs e)
  let ?n = "counter_bytes s + of_nat (length c)"
  from "3.prems" have step: "unat (counter_bytes s) + length c < 2 ^ 64" "\<not> counter_limit s < ?n"
    "drive counter_write (s\<lparr>counter_bytes := ?n\<rparr>) cs e = Inr c'"
    by (auto simp: counter_write_def Let_def split: if_splits)
  have "unat (of_nat (length c) :: u64) = length c"
    using step(1) by (simp add: unat_of_nat)
  then have "unat ?n = unat (counter_bytes s) + length c"
    using step(1) by (simp add: unat_word_ariths)
  moreover have "counter_write s c = Inr (s\<lparr>counter_bytes := ?n\<rparr>)"
    using step by (simp add: counter_write_def Let_def)
  ultimately show ?case
    using "3.hyps" [OF _ step(3)] step(2) by simp
qed simp_all

lemma drive_frame_writer:
  "drive frame_writer_write fw chunks e = Inr fw' \<Longrightarrow>
     fw_bytes fw' = fw_bytes fw @ concat chunks \<and> e = None"
  by (induction frame_writer_write fw chunks e rule: drive.induct)
    (auto simp: frame_writer_write_def split: sum.splits if_splits)

text \<open>The bytes a row's frame holds when its serialization succeeds.\<close>

definition encoded :: "('fs, 'h, 'k, 'v) ext \<Rightarrow> ('k, 'v) row_payload \<Rightarrow> u8 list" where
  "encoded X value = concat (fst (into_writer X Encoding value))"

lemma reserve_frame_conserves: "conserves held_bytes 0 (reserve_frame n) (\<lambda>c. c)"
  unfolding reserve_frame_def
  by (intro conserves_and_then [OF conserves_ok_or] reserve_conserves)

lemma reserve_frame_same: "keeps same_but_budget (reserve_frame n)"
  unfolding reserve_frame_def by (intro plain.keeps_intros reserve_same)

lemma reserve_frame_within_cap: "keeps within_cap (reserve_frame n)"
  unfolding reserve_frame_def by (intro cap.keeps_intros reserve_within_cap)

lemma reserve_value: "reserve n w = (Inr c, w') \<Longrightarrow> c = n"
  by (cases n "w_budget w" rule: budget_reserve_cases) (auto simp: reserve_def)

lemma reserve_frame_value:
  "reserve_frame n w = (Inr c, w') \<Longrightarrow> unat c = 3 * unat n + 32"
  by (auto simp: reserve_frame_def act_ok frame_working_bytes_def word_facts
      dest!: reserve_value split: option.splits)

lemma encode_conserves: "conserves held_bytes 0 (encode X value) snd"
  unfolding encode_def
  by (intro conserves_and_then [OF limit_now_conserves] conserves_and_then [OF or_raise_conserves]
      conserves_and_then [OF reserve_frame_conserves]
      conserves_attempt_neutral [OF or_raise_conserves])
    (auto simp: held_release intro: conserves_bail conserves_ret)

lemma encode_frames:
  "keeps same_but_budget (encode X value)" "keeps within_cap (encode X value)"
  unfolding encode_def
  by (auto intro!: plain.keeps_intros plain.keeps_or_raise reserve_frame_same limit_now_frames
        cap.keeps_intros cap.keeps_or_raise reserve_frame_within_cap release_frames)

text \<open>Encoding, inverted.\<close>

lemma encode_result:
  assumes "encode X value w = (Inr (bytes, charge), w')"
  shows "bytes = encoded X value \<and> snd (into_writer X Encoding value) = None
    \<and> length bytes \<le> unat (fst (budget_limit (w_budget w)))
    \<and> unat charge = 3 * length bytes + 32"
proof -
  obtain count w1 writer where
    count: "case_prod (drive counter_write
        \<lparr>counter_bytes = 0, counter_limit = fst (budget_limit (w_budget w))\<rparr>)
      (into_writer X Sizing value) = Inr count"
    and charge: "reserve_frame (counter_bytes count) w1 = (Inr charge, w')"
    and writer: "case_prod (drive frame_writer_write
        \<lparr>fw_bytes = [], fw_limit = counter_bytes count\<rparr>) (into_writer X Encoding value) = Inr writer"
    and bytes: "bytes = fw_bytes writer" "length (fw_bytes writer) = unat (counter_bytes count)"
    using assms
    by (auto simp: encode_def act_ok limit_now_eq split: if_splits)
  have "counter_bytes count \<le> fst (budget_limit (w_budget w))"
    using count by (auto dest!: drive_counter split: prod.splits)
  then have "length bytes \<le> unat (fst (budget_limit (w_budget w)))"
    using bytes by (simp add: word_le_nat_alt)
  moreover have "bytes = encoded X value \<and> snd (into_writer X Encoding value) = None"
    using writer bytes(1)
    by (auto simp: encoded_def dest!: drive_frame_writer split: prod.splits)
  moreover have "unat charge = 3 * length bytes + 32"
    using reserve_frame_value [OF charge] bytes by simp
  ultimately show ?thesis by blast
qed

text \<open>C38. Encoding a row measures it first: when \<open>encode\<close> returns, the bytes are exactly what
  the serializer wrote, the measured length is within the limit read at the start, and the
  charge held for the frame is three times its length and 32 bytes more.\<close>

theorem encode_exact:
  assumes "encode X value w = (Inr (bytes, charge), w')"
  shows "bytes = encoded X value \<and> snd (into_writer X Encoding value) = None
    \<and> length bytes \<le> unat (fst (budget_limit (w_budget w)))
    \<and> unat charge = 3 * length bytes + 32"
  using assms by (rule encode_result)

end
