(* ===== verification/Run.thy ===== *)
theory Run
  imports Codec
begin

text \<open>
  Spilled runs (src/engine/row.rs, src/engine/run.rs): rows, the writer that frames them
  and the reader that keeps a position and a row count instead of an open file. A run file
  is a u64 row count and then frames: u32 length, u64 retained bytes, the encoded row.
\<close>

section \<open>Rows\<close>

record ('k, 'v) run_row =
  row_key :: 'k
  row_value :: 'v
  row_ordinal :: u64
  row_retained :: usize
  row_charge :: "memory_charge option"

definition run_row_new :: "('fs, 'h, 'k, 'v) ext \<Rightarrow> 'k \<Rightarrow> 'v \<Rightarrow> ('k, 'v) run_row" where
  "run_row_new X k v =
     \<lparr>row_key = k, row_value = v, row_ordinal = 0, row_retained = size_of_row X, row_charge = None\<rparr>"

text \<open>The fields serde serializes; the other two are skipped.\<close>

definition payload :: "('k, 'v) run_row \<Rightarrow> ('k, 'v) row_payload" where
  "payload r = (row_key r, row_value r, row_ordinal r)"

definition row_drop :: "('k, 'v) run_row \<Rightarrow> 'fs world \<Rightarrow> 'fs world" where
  "row_drop r = release_opt (row_charge r)"

section \<open>The writer\<close>

record run_writer =
  rw_path :: path
  rw_count :: u64

definition run_writer_create ::
    "('fs, 'h, 'k, 'v) ext \<Rightarrow> path \<Rightarrow> ('fs world, run_writer) act" where
  "run_writer_create X p =
     and_then (perform (\<lambda>w. w) (size_of_future X CreateRun) (path_capacity X p)
       (and_then (io (fs_create X p)) (\<lambda>file.
        and_then (io (fs_write_all X file (u64_to_le_bytes 0))) (\<lambda>file.
        and_then (io (fs_flush X file)) (\<lambda>_. ret ()))))) (\<lambda>_.
     ret \<lparr>rw_path = p, rw_count = 0\<rparr>)"

definition length_u32 :: "'a list \<Rightarrow> u32 option" where
  "length_u32 bytes = (if length bytes < 2 ^ 32 then Some (of_nat (length bytes)) else None)"

definition run_writer_write_row ::
    "('fs, 'h, 'k, 'v) ext \<Rightarrow> run_writer \<Rightarrow> ('k, 'v) run_row \<Rightarrow> ('fs world, run_writer) act" where
  "run_writer_write_row X wr row =
     and_then (encode X (payload row)) (\<lambda>(bytes, charge).
     attempt (release charge)
       (ok_or (Raise (Encode ''out of range integral type conversion attempted''))
         (length_u32 bytes)) (\<lambda>len.
     and_then (perform (release charge) (size_of_future X WriteRow) (path_capacity X (rw_path wr))
       (and_then (io (fs_open_append X (rw_path wr))) (\<lambda>file.
        and_then (io (fs_write_all X file (u32_to_le_bytes len))) (\<lambda>file.
        and_then (io (fs_write_all X file (u64_to_le_bytes (row_retained row)))) (\<lambda>file.
        and_then (io (fs_write_all X file bytes)) (\<lambda>file.
        and_then (io (fs_flush X file)) (\<lambda>_. ret ()))))))) (\<lambda>_.
     and_then (ok_or (Raise RunLimit) (checked_add (rw_count wr) 1)) (\<lambda>count.
     ret (wr\<lparr>rw_count := count\<rparr>)))))"

definition run_writer_finish ::
    "('fs, 'h, 'k, 'v) ext \<Rightarrow> run_writer \<Rightarrow> ('fs world, path) act" where
  "run_writer_finish X wr =
     and_then (perform (\<lambda>w. w) (size_of_future X FinishRun) (path_capacity X (rw_path wr))
       (and_then (io (fs_open_write_at_end X (rw_path wr))) (\<lambda>file.
        and_then (io (fs_seek X file 0)) (\<lambda>file.
        and_then (io (fs_write_all X file (u64_to_le_bytes (rw_count wr)))) (\<lambda>file.
        and_then (io (fs_flush X file)) (\<lambda>_. ret ())))))) (\<lambda>_.
     ret (rw_path wr))"

section \<open>The reader\<close>

record run_reader =
  rd_path :: path
  rd_offset :: u64
  rd_remaining :: u64

record frame_read =
  fr_bytes :: "u8 list"
  fr_retained :: usize
  fr_row_charge :: memory_charge
  fr_frame_charge :: memory_charge

definition run_reader_from_position :: "path \<Rightarrow> u64 \<Rightarrow> u64 \<Rightarrow> run_reader" where
  "run_reader_from_position p offset remaining =
     \<lparr>rd_path = p, rd_offset = offset, rd_remaining = remaining\<rparr>"

definition run_reader_position :: "run_reader \<Rightarrow> u64 \<times> u64" where
  "run_reader_position rd = (rd_offset rd, rd_remaining rd)"

definition run_reader_open ::
    "('fs, 'h, 'k, 'v) ext \<Rightarrow> path \<Rightarrow> ('fs world, run_reader) act" where
  "run_reader_open X p =
     and_then (perform (\<lambda>w. w) (size_of_future X OpenRun) (path_capacity X p)
       (and_then (io (fs_open X p)) (\<lambda>file.
        and_then (io (fs_read_exact X file 8)) (\<lambda>(count, file).
        ret (u64_from_le_bytes count))))) (\<lambda>remaining.
     ret (run_reader_from_position p 8 remaining))"

definition read_frame ::
    "('fs, 'h, 'k, 'v) ext \<Rightarrow> path \<Rightarrow> u64 \<Rightarrow> ('fs world, frame_read) act" where
  "read_frame X p offset =
     and_then (io (fs_open X p)) (\<lambda>file.
     and_then (io (fs_seek X file offset)) (\<lambda>file.
     and_then (io (fs_read_exact X file 4)) (\<lambda>(len_bytes, file).
     and_then (io (fs_read_exact X file 8)) (\<lambda>(weight, file).
     let len = ucast (u32_from_le_bytes len_bytes) :: usize;
         retained = u64_from_le_bytes weight
     in and_then (reserve (max retained (size_of_row X))) (\<lambda>row_charge.
        attempt (release row_charge) (reserve_frame len) (\<lambda>frame_charge.
        attempt (\<lambda>w. release row_charge (release frame_charge w))
          (io (fs_read_exact X file (unat len))) (\<lambda>(bytes, file).
        ret \<lparr>fr_bytes = bytes, fr_retained = retained,
             fr_row_charge = row_charge, fr_frame_charge = frame_charge\<rparr>)))))))"

definition frame_drop :: "frame_read \<Rightarrow> 'fs world \<Rightarrow> 'fs world" where
  "frame_drop fr w = release (fr_frame_charge fr) (release (fr_row_charge fr) w)"

definition display :: "path \<Rightarrow> string" where
  "display p = concat (map (\<lambda>c. ''/'' @ c) p)"

definition run_reader_next_row ::
    "('fs, 'h, 'k, 'v) ext \<Rightarrow> run_reader
      \<Rightarrow> ('fs world, ('k, 'v) run_row option \<times> run_reader) act" where
  "run_reader_next_row X rd =
     (if rd_remaining rd = 0 then ret (None, rd)
      else
        and_then (perform_with frame_drop (\<lambda>w. w) (size_of_future X ReadRow) (path_capacity X (rd_path rd))
          (read_frame X (rd_path rd) (rd_offset rd))) (\<lambda>fr.
        attempt (frame_drop fr)
          (or_raise (\<lambda>e. Decode (e @ '' (run '' @ display (rd_path rd) @ '')''))
            (from_reader X (fr_bytes fr))) (\<lambda>(k, v, ordinal).
        attempt (frame_drop fr)
          (ok_or (Raise RunLimit)
            (checked_add (rd_offset rd) (12 + of_nat (length (fr_bytes fr))))) (\<lambda>offset.
        and_then (modify (release (fr_frame_charge fr))) (\<lambda>_.
        ret (Some \<lparr>row_key = k, row_value = v, row_ordinal = ordinal,
                   row_retained = fr_retained fr, row_charge = Some (fr_row_charge fr)\<rparr>,
             rd\<lparr>rd_offset := offset, rd_remaining := rd_remaining rd - 1\<rparr>))))))"

section \<open>Accounts and frames\<close>

definition charge_bytes :: "memory_charge option \<Rightarrow> u64" where
  "charge_bytes c = (case c of None \<Rightarrow> 0 | Some n \<Rightarrow> n)"

definition row_bytes :: "('k, 'v) run_row option \<Rightarrow> u64" where
  "row_bytes r = (case r of None \<Rightarrow> 0 | Some row \<Rightarrow> charge_bytes (row_charge row))"

lemma charge_bytes_simps [simp]: "charge_bytes None = 0" "charge_bytes (Some n) = n"
  by (simp_all add: charge_bytes_def)

lemma row_bytes_simps [simp]:
  "row_bytes None = 0" "row_bytes (Some row) = charge_bytes (row_charge row)"
  by (simp_all add: row_bytes_def)

lemma held_drops:
  "held_bytes (row_drop r w) = held_bytes w - charge_bytes (row_charge r)"
  "held_bytes (frame_drop fr w) = held_bytes w - (fr_row_charge fr + fr_frame_charge fr)"
  by (simp_all add: row_drop_def frame_drop_def held_release_opt held_release charge_bytes_def)

lemmas io_chain = conserves_and_then [OF io_conserves]

lemma run_writer_create_conserves: "conserves held_bytes 0 (run_writer_create X p) (\<lambda>_. 0)"
  unfolding run_writer_create_def
  by (intro conserves_and_then [OF perform_conserves] io_chain conserves_ret)
    simp_all

lemma run_writer_finish_conserves: "conserves held_bytes 0 (run_writer_finish X wr) (\<lambda>_. 0)"
  unfolding run_writer_finish_def
  by (intro conserves_and_then [OF perform_conserves] io_chain conserves_ret)
    simp_all

lemma run_writer_write_row_conserves:
  "conserves held_bytes 0 (run_writer_write_row X wr row) (\<lambda>_. 0)"
  unfolding run_writer_write_row_def
  by (intro conserves_and_then [OF encode_conserves])
    (auto simp: held_release
      intro!: conserves_attempt_neutral [OF conserves_ok_or]
        conserves_and_then [OF perform_conserves] io_chain conserves_ret)

lemma run_reader_open_conserves: "conserves held_bytes 0 (run_reader_open X p) (\<lambda>_. 0)"
  unfolding run_reader_open_def
  by (intro conserves_and_then [OF perform_conserves] io_chain)
    (auto intro!: io_chain conserves_ret split: prod.splits)

lemma read_frame_conserves:
  "conserves held_bytes 0 (read_frame X p offset) (\<lambda>fr. fr_row_charge fr + fr_frame_charge fr)"
  unfolding read_frame_def Let_def
  by (intro io_chain)
    (auto simp: held_release
      intro!: io_chain conserves_and_then [OF reserve_conserves]
        conserves_attempt_gain [OF reserve_frame_conserves]
        conserves_attempt_neutral [OF io_conserves] conserves_ret split: prod.splits)

lemma hand_on_row_conserves:
  assumes "row_charge r = Some (fr_row_charge fr)"
  shows "conserves held_bytes (fr_row_charge fr + fr_frame_charge fr)
    (and_then (modify (release (fr_frame_charge fr))) (\<lambda>_. ret (Some r, rd)))
    (\<lambda>(r, _). row_bytes r)"
  using assms by (auto simp: conserves_def attempt_def modify_def ret_def held_release)

lemma run_reader_next_row_conserves:
  "conserves held_bytes 0 (run_reader_next_row X rd) (\<lambda>(r, _). row_bytes r)"
  unfolding run_reader_next_row_def
  by (auto simp: held_drops
      intro!: conserves_ret conserves_and_then [OF perform_with_conserves [OF read_frame_conserves]]
        conserves_attempt_neutral [OF or_raise_conserves]
        conserves_attempt_neutral [OF conserves_ok_or] hand_on_row_conserves)

lemma reserve_frames:
  "keeps same_permits (reserve n)" "keeps within_cap (reserve n)"
  "keeps same_permits (reserve_frame n)" "keeps within_cap (reserve_frame n)"
  by (auto intro: keeps_weaken [OF reserve_same same_permitsI] reserve_within_cap
      keeps_weaken [OF reserve_frame_same same_permitsI] reserve_frame_within_cap)

lemma encode_permits: "keeps same_permits (encode X value)"
  by (rule keeps_weaken [OF encode_frames(1) same_permitsI])

lemma drop_frames:
  "same_permits w (release c w)" "same_permits w (row_drop r w)" "within_cap w (row_drop r w)"
  "same_permits w (release c (release d w))" "within_cap w (release c (release d w))"
  "same_permits w (frame_drop fr w)" "within_cap w (frame_drop fr w)"
  by (auto simp: row_drop_def frame_drop_def release_opt_def release_def budget_release_def
      same_permits_def within_cap_def split: option.splits)

lemmas permit_rules =
  permits.keeps_intros permits.keeps_or_raise perform_same_permits perform_with_same_permits io_same_permits
  reserve_frames encode_permits drop_frames

lemmas cap_rules =
  cap.keeps_intros cap.keeps_or_raise perform_within_cap perform_with_within_cap io_within_cap
  reserve_frames encode_frames release_frames drop_frames

lemma read_frame_frames:
  "keeps same_permits (read_frame X p offset)" "keeps within_cap (read_frame X p offset)"
  unfolding read_frame_def Let_def
  by (auto intro!: permit_rules) (auto intro!: cap_rules)

lemma run_writer_frames:
  "keeps same_permits (run_writer_create X p)" "keeps within_cap (run_writer_create X p)"
  "keeps same_permits (run_writer_write_row X wr row)" "keeps within_cap (run_writer_write_row X wr row)"
  "keeps same_permits (run_writer_finish X wr)" "keeps within_cap (run_writer_finish X wr)"
  unfolding run_writer_create_def run_writer_write_row_def run_writer_finish_def
  by (auto intro!: permit_rules) (auto intro!: cap_rules)

lemma run_reader_frames:
  "keeps same_permits (run_reader_open X p)" "keeps within_cap (run_reader_open X p)"
  "keeps same_permits (run_reader_next_row X rd)" "keeps within_cap (run_reader_next_row X rd)"
  unfolding run_reader_open_def run_reader_next_row_def
  by (auto intro!: permit_rules read_frame_frames) (auto intro!: cap_rules read_frame_frames)

end
