(* ===== verification/RunStore.thy ===== *)
theory RunStore
  imports Run
begin

text \<open>
  What run files hold. The byte image of a run, the effect of each writer step on the
  contents of the files, and the rows a reader yields from such an image: the round trip
  of src/engine/run.rs under the laws of the file package and the codec.
\<close>

section \<open>Images\<close>

definition frame_of :: "('fs, 'h, 'k, 'v) ext \<Rightarrow> ('k, 'v) run_row \<Rightarrow> u8 list" where
  "frame_of X r =
     u32_to_le_bytes (of_nat (length (encoded X (payload r))))
     @ u64_to_le_bytes (row_retained r) @ encoded X (payload r)"

definition frames_of :: "('fs, 'h, 'k, 'v) ext \<Rightarrow> ('k, 'v) run_row list \<Rightarrow> u8 list" where
  "frames_of X rows = concat (map (frame_of X) rows)"

definition run_image :: "('fs, 'h, 'k, 'v) ext \<Rightarrow> u64 \<Rightarrow> ('k, 'v) run_row list \<Rightarrow> u8 list" where
  "run_image X n rows = u64_to_le_bytes n @ frames_of X rows"

text \<open>A row that a frame can hold, and the part of a row that is stored.\<close>

definition good_row :: "('fs, 'h, 'k, 'v) ext \<Rightarrow> ('k, 'v) run_row \<Rightarrow> bool" where
  "good_row X r \<longleftrightarrow>
     snd (into_writer X Encoding (payload r)) = None \<and> length (encoded X (payload r)) < 2 ^ 32"

definition stored :: "('k, 'v) run_row \<Rightarrow> ('k, 'v) run_row" where
  "stored r = r\<lparr>row_charge := None\<rparr>"

lemma stored_simps [simp]:
  "row_key (stored r) = row_key r" "row_value (stored r) = row_value r"
  "row_ordinal (stored r) = row_ordinal r" "row_retained (stored r) = row_retained r"
  "row_charge (stored r) = None" "payload (stored r) = payload r"
  "stored (stored r) = stored r" "stored (r\<lparr>row_charge := c\<rparr>) = stored r"
  "frame_of X (stored r) = frame_of X r" "good_row X (stored r) = good_row X r"
  by (simp_all add: stored_def payload_def frame_of_def good_row_def)

lemma frames_of_simps [simp]:
  "frames_of X [] = []" "frames_of X (r # rows) = frame_of X r @ frames_of X rows"
  "frames_of X (rows @ rows') = frames_of X rows @ frames_of X rows'"
  by (simp_all add: frames_of_def)

text \<open>A complete run: its rows and their count in the header.\<close>

definition holds_run ::
    "('fs, 'h, 'k, 'v) ext \<Rightarrow> (path \<Rightarrow> u8 list option) \<Rightarrow> path \<Rightarrow> ('k, 'v) run_row list \<Rightarrow> bool" where
  "holds_run X files p rows \<longleftrightarrow>
     length rows < 2 ^ 64 \<and> files p = Some (run_image X (of_nat (length rows)) rows)
     \<and> (\<forall>r \<in> set rows. good_row X r \<and> row_charge r = None)"

text \<open>A run being written: the header still counts no rows.\<close>

definition writing_run ::
    "('fs, 'h, 'k, 'v) ext \<Rightarrow> (path \<Rightarrow> u8 list option) \<Rightarrow> run_writer \<Rightarrow> ('k, 'v) run_row list \<Rightarrow> bool" where
  "writing_run X files wr rows \<longleftrightarrow>
     unat (rw_count wr) = length rows \<and> files (rw_path wr) = Some (run_image X 0 rows)
     \<and> (\<forall>r \<in> set rows. good_row X r \<and> row_charge r = None)"

text \<open>A reader positioned in front of \<open>rows\<close>.\<close>

definition reading_run ::
    "('fs, 'h, 'k, 'v) ext \<Rightarrow> (path \<Rightarrow> u8 list option) \<Rightarrow> run_reader \<Rightarrow> ('k, 'v) run_row list \<Rightarrow> bool" where
  "reading_run X files rd rows \<longleftrightarrow>
     unat (rd_remaining rd) = length rows
     \<and> (\<exists>c rest. files (rd_path rd) = Some c \<and> drop (unat (rd_offset rd)) c = frames_of X rows @ rest)
     \<and> (\<forall>r \<in> set rows. good_row X r \<and> row_charge r = None)"

section \<open>The laws as rules\<close>

lemma law_open:
  assumes "ext_laws X view hpath hpos"
  shows "fs_open X p s = (r, s') \<Longrightarrow> view s' = view s"
    and "fs_open X p s = (Inr h, s') \<Longrightarrow> hpath h = p \<and> hpos h = 0"
  using assms unfolding ext_laws_def read_laws_def by metis+

lemma law_seek:
  assumes "ext_laws X view hpath hpos"
  shows "fs_seek X h n s = (r, s') \<Longrightarrow> view s' = view s"
    and "fs_seek X h n s = (Inr h', s') \<Longrightarrow> hpath h' = hpath h \<and> hpos h' = unat n"
  using assms unfolding ext_laws_def read_laws_def by metis+

lemma law_read:
  assumes "ext_laws X view hpath hpos"
  shows "fs_read_exact X h n s = (r, s') \<Longrightarrow> view s' = view s"
    and "fs_read_exact X h n s = (Inr (bs, h'), s') \<Longrightarrow> view s (hpath h) = Some c \<Longrightarrow>
      hpath h' = hpath h \<and> hpos h' = hpos h + n \<and> length bs = n \<and> bs = take n (drop (hpos h) c)"
  using assms unfolding ext_laws_def read_laws_def by metis+

lemma law_create:
  assumes "ext_laws X view hpath hpos" and "fs_create X p s = (Inr h, s')"
  shows "view s' = (view s)(p \<mapsto> []) \<and> hpath h = p \<and> hpos h = 0"
  using assms unfolding ext_laws_def write_laws_def by metis

lemma law_append:
  assumes "ext_laws X view hpath hpos" and "fs_open_append X p s = (Inr h, s')" and "view s p = Some c"
  shows "view s' = view s \<and> hpath h = p \<and> hpos h = length c"
  using assms unfolding ext_laws_def write_laws_def by metis

lemma law_open_at_end:
  assumes "ext_laws X view hpath hpos" and "fs_open_write_at_end X p s = (Inr h, s')"
    and "view s p = Some c"
  shows "view s' = view s \<and> hpath h = p \<and> hpos h = length c"
  using assms unfolding ext_laws_def write_laws_def by metis

lemma law_write:
  assumes "ext_laws X view hpath hpos" and "fs_write_all X h bs s = (Inr h', s')"
    and "view s (hpath h) = Some c" and "hpos h \<le> length c"
  shows "view s' = (view s)(hpath h \<mapsto> overwrite (hpos h) bs c)
    \<and> hpath h' = hpath h \<and> hpos h' = hpos h + length bs"
  using assms unfolding ext_laws_def write_laws_def by metis

lemma law_flush:
  assumes "ext_laws X view hpath hpos" and "fs_flush X h s = (Inr h', s')"
  shows "view s' = view s"
  using assms unfolding ext_laws_def write_laws_def by metis

lemma law_codec:
  assumes "ext_laws X view hpath hpos" and "snd (into_writer X Encoding x) = None"
  shows "from_reader X (encoded X x) = Inr x"
  using assms unfolding ext_laws_def codec_laws_def encoded_def by (metis prod.collapse)

lemma overwrite_end: "n = length c \<Longrightarrow> overwrite n bs c = c @ bs"
  by (simp add: overwrite_def)

lemma overwrite_start: "length bs = length a \<Longrightarrow> overwrite 0 bs (a @ b) = bs @ b"
  by (simp add: overwrite_def)

section \<open>Files across an operation\<close>

lemma files_release [simp]:
  "w_files (release c w) = w_files w" "w_files (release_opt d w) = w_files w"
  "w_files (row_drop r w) = w_files w" "w_files (frame_drop fr w) = w_files w"
  by (simp_all add: release_def release_opt_def row_drop_def frame_drop_def split: option.splits)

lemma files_same: "keeps same_but_budget m \<Longrightarrow> m w = (r, w') \<Longrightarrow> w_files w' = w_files w"
  by (drule (1) keepsD) (simp add: same_but_budget_def)

lemmas files_reserve = files_same [OF reserve_same]
lemmas files_reserve_frame = files_same [OF reserve_frame_same]
lemmas files_encode = files_same [OF encode_frames(1)]

lemma perform_with_files:
  assumes "perform_with lost captured fsize pbytes operation w = (Inr x, w')"
    and "\<And>w. w_files (captured w) = w_files w"
  shows "\<exists>u u'. operation u = (Inr x, u') \<and> w_files u = w_files w \<and> w_files w' = w_files u'"
proof -
  from assms(1) obtain n m w1 w2 u' where
    "reserve n w = (Inr m, w1)" "caller_stays (scope_start w1) = (Inr (), w2)"
    "operation (permit_take w2) = (Inr x, u')"
    "caller_stays (io_guard_drop (permit_drop (release m (captured u')))) = (Inr (), w')"
    by (auto simp: perform_ok)
  with assms(2) show ?thesis
    by (intro exI [of _ "permit_take w2"] exI [of _ u'])
      (auto simp: files_reserve dest!: caller_stays_fields)
qed

lemmas perform_files = perform_with_files [where lost = "\<lambda>_ w. w", folded perform_def]

section \<open>The writer\<close>

lemma run_writer_create_files:
  assumes L: "ext_laws X view hpath hpos" and run: "run_writer_create X p w = (Inr wr, w')"
  shows "view (w_files w') = (view (w_files w))(p \<mapsto> run_image X 0 [])
    \<and> rw_path wr = p \<and> rw_count wr = 0"
proof -
  from run obtain v where wr: "wr = \<lparr>rw_path = p, rw_count = 0\<rparr>"
    and op: "perform (\<lambda>w. w) (size_of_future X CreateRun) (path_capacity X p)
       (and_then (io (fs_create X p)) (\<lambda>file.
        and_then (io (fs_write_all X file (u64_to_le_bytes 0))) (\<lambda>file.
        and_then (io (fs_flush X file)) (\<lambda>_. ret ())))) w = (Inr v, w')"
    by (auto simp: run_writer_create_def act_ok)
  obtain h s1 h2 s2 h3 where
    1: "fs_create X p (w_files w) = (Inr h, s1)"
    and 2: "fs_write_all X h (u64_to_le_bytes 0) s1 = (Inr h2, s2)"
    and 3: "fs_flush X h2 s2 = (Inr h3, w_files w')"
    using perform_files [OF op] by atomize_elim (auto simp: act_ok)
  have c: "view s1 = (view (w_files w))(p \<mapsto> [])" "hpath h = p" "hpos h = 0"
    using law_create [OF L 1] by simp_all
  have "view s2 = (view (w_files w))(p \<mapsto> u64_to_le_bytes 0)"
    using law_write [OF L 2, of "[]"] c by (simp add: overwrite_def)
  then show ?thesis
    using law_flush [OF L 3] wr by (simp add: run_image_def)
qed

lemma run_writer_write_row_files:
  assumes L: "ext_laws X view hpath hpos"
    and run: "run_writer_write_row X wr row w = (Inr wr', w')"
    and c: "view (w_files w) (rw_path wr) = Some c"
  shows "view (w_files w') = (view (w_files w))(rw_path wr \<mapsto> c @ frame_of X row)
    \<and> rw_path wr' = rw_path wr \<and> unat (rw_count wr') = unat (rw_count wr) + 1 \<and> good_row X row"
proof -
  from run obtain bytes charge w1 len v count where
    enc: "encode X (payload row) w = (Inr (bytes, charge), w1)"
    and len: "length_u32 bytes = Some len"
    and count: "checked_add (rw_count wr) 1 = Some count" and wr': "wr' = wr\<lparr>rw_count := count\<rparr>"
    and op: "perform (release charge) (size_of_future X WriteRow) (path_capacity X (rw_path wr))
       (and_then (io (fs_open_append X (rw_path wr))) (\<lambda>file.
        and_then (io (fs_write_all X file (u32_to_le_bytes len))) (\<lambda>file.
        and_then (io (fs_write_all X file (u64_to_le_bytes (row_retained row)))) (\<lambda>file.
        and_then (io (fs_write_all X file bytes)) (\<lambda>file.
        and_then (io (fs_flush X file)) (\<lambda>_. ret ())))))) w1 = (Inr v, w')"
    by (auto simp: run_writer_write_row_def act_ok)
  obtain h1 s1 h2 s2 h3 s3 h4 s4 h5 where
    1: "fs_open_append X (rw_path wr) (w_files w1) = (Inr h1, s1)"
    and 2: "fs_write_all X h1 (u32_to_le_bytes len) s1 = (Inr h2, s2)"
    and 3: "fs_write_all X h2 (u64_to_le_bytes (row_retained row)) s2 = (Inr h3, s3)"
    and 4: "fs_write_all X h3 bytes s3 = (Inr h4, s4)"
    and 5: "fs_flush X h4 s4 = (Inr h5, w_files w')"
    using perform_files [OF op] by atomize_elim (auto simp: act_ok)
  have start: "view (w_files w) (rw_path wr) = Some c" "w_files w1 = w_files w"
    using c files_encode [OF enc] by simp_all
  have b: "bytes = encoded X (payload row)" "snd (into_writer X Encoding (payload row)) = None"
    using encode_result [OF enc] by simp_all
  have l: "len = of_nat (length bytes)" "length bytes < 2 ^ 32"
    using len by (auto simp: length_u32_def split: if_splits)
  have a1: "view s1 = view (w_files w) \<and> hpath h1 = rw_path wr \<and> hpos h1 = length c"
    using law_append [OF L 1, of c] start by simp
  have a2: "view s2 = (view (w_files w))(rw_path wr \<mapsto> c @ u32_to_le_bytes len)
      \<and> hpath h2 = rw_path wr \<and> hpos h2 = length (c @ u32_to_le_bytes len)"
    using law_write [OF L 2, of c] a1 start(1) by (simp add: overwrite_end)
  have a3: "view s3 = (view (w_files w))(rw_path wr \<mapsto> c @ u32_to_le_bytes len
        @ u64_to_le_bytes (row_retained row)) \<and> hpath h3 = rw_path wr
      \<and> hpos h3 = length (c @ u32_to_le_bytes len @ u64_to_le_bytes (row_retained row))"
    using law_write [OF L 3, of "c @ u32_to_le_bytes len"] a2
    by (simp add: overwrite_end)
  have "view s4 = (view (w_files w))(rw_path wr \<mapsto> c @ frame_of X row)"
    using law_write [OF L 4, of "c @ u32_to_le_bytes len @ u64_to_le_bytes (row_retained row)"] a3 b l
    by (simp add: frame_of_def overwrite_end)
  then show ?thesis
    using law_flush [OF L 5] start(2) wr' count b l by (simp add: good_row_def word_facts)
qed

lemma run_writer_finish_files:
  assumes L: "ext_laws X view hpath hpos"
    and run: "run_writer_finish X wr w = (Inr p, w')"
    and c: "view (w_files w) (rw_path wr) = Some (run_image X n rows)"
  shows "view (w_files w') = (view (w_files w))(rw_path wr \<mapsto> run_image X (rw_count wr) rows)
    \<and> p = rw_path wr"
proof -
  from run obtain v where p: "p = rw_path wr"
    and op: "perform (\<lambda>w. w) (size_of_future X FinishRun) (path_capacity X (rw_path wr))
       (and_then (io (fs_open_write_at_end X (rw_path wr))) (\<lambda>file.
        and_then (io (fs_seek X file 0)) (\<lambda>file.
        and_then (io (fs_write_all X file (u64_to_le_bytes (rw_count wr)))) (\<lambda>file.
        and_then (io (fs_flush X file)) (\<lambda>_. ret ()))))) w = (Inr v, w')"
    by (auto simp: run_writer_finish_def act_ok)
  obtain h1 s1 h2 s2 h3 s3 h4 where
    1: "fs_open_write_at_end X (rw_path wr) (w_files w) = (Inr h1, s1)"
    and 2: "fs_seek X h1 0 s1 = (Inr h2, s2)"
    and 3: "fs_write_all X h2 (u64_to_le_bytes (rw_count wr)) s2 = (Inr h3, s3)"
    and 4: "fs_flush X h3 s3 = (Inr h4, w_files w')"
    using perform_files [OF op] by atomize_elim (auto simp: act_ok)
  have a1: "view s1 = view (w_files w)" "hpath h1 = rw_path wr"
    using law_open_at_end [OF L 1] c by simp_all
  have a2: "view s2 = view (w_files w)" "hpath h2 = rw_path wr" "hpos h2 = 0"
    using law_seek [OF L] 2 a1 by (auto simp: unat_0)
  have "view s3 = (view (w_files w))(rw_path wr \<mapsto> run_image X (rw_count wr) rows)"
    using law_write [OF L 3, of "run_image X n rows"] a2 c
    by (simp add: run_image_def overwrite_start)
  then show ?thesis
    using law_flush [OF L 4] p by simp
qed


text \<open>The same steps on complete and incomplete runs; every other file is untouched.\<close>

definition only_at :: "path \<Rightarrow> (path \<Rightarrow> u8 list option) \<Rightarrow> (path \<Rightarrow> u8 list option) \<Rightarrow> bool" where
  "only_at p files files' \<longleftrightarrow> (\<forall>q. q \<noteq> p \<longrightarrow> files' q = files q)"

lemma only_at_trans: "only_at p f g \<Longrightarrow> only_at p g h \<Longrightarrow> only_at p f h"
  by (simp add: only_at_def)

lemma writing_create:
  assumes "ext_laws X view hpath hpos" and "run_writer_create X p w = (Inr wr, w')"
  shows "writing_run X (view (w_files w')) wr [] \<and> rw_path wr = p
    \<and> only_at p (view (w_files w)) (view (w_files w'))"
  using run_writer_create_files [OF assms] by (simp add: writing_run_def only_at_def)

lemma writing_row:
  assumes L: "ext_laws X view hpath hpos" and run: "run_writer_write_row X wr row w = (Inr wr', w')"
    and at: "writing_run X (view (w_files w)) wr rows"
  shows "writing_run X (view (w_files w')) wr' (rows @ [stored row]) \<and> rw_path wr' = rw_path wr
    \<and> only_at (rw_path wr) (view (w_files w)) (view (w_files w'))"
  using run_writer_write_row_files [OF L run, of "run_image X 0 rows"] at
  by (auto simp: writing_run_def only_at_def run_image_def)

lemma writing_finish:
  assumes L: "ext_laws X view hpath hpos" and run: "run_writer_finish X wr w = (Inr p, w')"
    and at: "writing_run X (view (w_files w)) wr rows"
  shows "holds_run X (view (w_files w')) p rows \<and> p = rw_path wr
    \<and> only_at p (view (w_files w)) (view (w_files w'))"
proof -
  have "unat (rw_count wr) = length rows"
    using at by (simp add: writing_run_def)
  moreover have "of_nat (unat (rw_count wr)) = rw_count wr"
    by simp
  ultimately have count: "rw_count wr = of_nat (length rows)" "length rows < 2 ^ 64"
    using unat_u64 [of "rw_count wr"] by simp_all
  then show ?thesis
    using run_writer_finish_files [OF L run, of 0 rows] at
    by (auto simp: writing_run_def holds_run_def only_at_def)
qed

lemma holds_run_elsewhere:
  "holds_run X files p rows \<Longrightarrow> only_at q files files' \<Longrightarrow> p \<noteq> q \<Longrightarrow> holds_run X files' p rows"
  by (auto simp: holds_run_def only_at_def)

text \<open>The loop over the buffered rows of a spill.\<close>

fun write_rows ::
    "('fs, 'h, 'k, 'v) ext \<Rightarrow> run_writer \<Rightarrow> ('k, 'v) run_row list \<Rightarrow> ('fs world, run_writer) act" where
  "write_rows X wr [] = ret wr"
| "write_rows X wr (row # rows) =
     and_then (run_writer_write_row X wr row) (\<lambda>wr. write_rows X wr rows)"

lemma writing_rows:
  assumes L: "ext_laws X view hpath hpos"
  shows "write_rows X wr new w = (Inr wr', w') \<Longrightarrow> writing_run X (view (w_files w)) wr rows \<Longrightarrow>
    writing_run X (view (w_files w')) wr' (rows @ map stored new) \<and> rw_path wr' = rw_path wr
    \<and> only_at (rw_path wr) (view (w_files w)) (view (w_files w'))"
proof (induction new arbitrary: wr w rows)
  case Nil
  then show ?case by (simp add: act_ok only_at_def)
next
  case (Cons row new)
  then obtain wr1 w1 where row: "run_writer_write_row X wr row w = (Inr wr1, w1)"
    and rest: "write_rows X wr1 new w1 = (Inr wr', w')"
    by (auto simp: act_ok)
  note step = writing_row [OF L row Cons.prems(2)]
  then show ?case
    using Cons.IH [OF rest, of "rows @ [stored row]"] by (auto intro: only_at_trans)
qed

section \<open>The reader\<close>

lemma run_reader_open_spec:
  assumes L: "ext_laws X view hpath hpos" and run: "run_reader_open X p w = (Inr rd, w')"
    and at: "holds_run X (view (w_files w)) p rows"
  shows "reading_run X (view (w_files w')) rd rows \<and> view (w_files w') = view (w_files w)
    \<and> rd_path rd = p"
proof -
  obtain h1 s1 count h2 where
    1: "fs_open X p (w_files w) = (Inr h1, s1)"
    and 2: "fs_read_exact X h1 8 s1 = (Inr (count, h2), w_files w')"
    and rd: "rd = run_reader_from_position p 8 (u64_from_le_bytes count)"
    using run by (auto simp: run_reader_open_def act_ok dest!: perform_files)
  have c: "view (w_files w) p = Some (run_image X (of_nat (length rows)) rows)"
    and len: "length rows < 2 ^ 64"
    using at by (simp_all add: holds_run_def)
  have s1: "view s1 = view (w_files w)" "hpath h1 = p" "hpos h1 = 0"
    using law_open [OF L] 1 by auto
  have "count = u64_to_le_bytes (of_nat (length rows))"
    using law_read(2) [OF L 2, of "run_image X (of_nat (length rows)) rows"] s1 c
    by (simp add: run_image_def)
  then have "rd = run_reader_from_position p 8 (of_nat (length rows))"
    using rd by simp
  moreover have "view (w_files w') = view (w_files w)"
    using law_read(1) [OF L 2] s1 by simp
  moreover have "unat (of_nat (length rows) :: u64) = length rows"
    using len by (simp add: unat_of_nat)
  moreover have "drop 8 (run_image X (of_nat (length rows)) rows) = frames_of X rows"
    by (simp add: run_image_def)
  ultimately show ?thesis
    using at c by (auto simp: reading_run_def run_reader_from_position_def holds_run_def)
qed

lemma read_frame_files:
  assumes L: "ext_laws X view hpath hpos" and run: "read_frame X p offset w = (Inr fr, w')"
    and c: "view (w_files w) p = Some c" "drop (unat offset) c = frame_of X r @ rest"
    and good: "good_row X r"
  shows "view (w_files w') = view (w_files w) \<and> fr_bytes fr = encoded X (payload r)
    \<and> fr_retained fr = row_retained r"
proof -
  let ?e = "encoded X (payload r)"
  obtain h1 s1 h2 s2 lb h3 s3 wb h4 s4 bytes h5 where
    1: "fs_open X p (w_files w) = (Inr h1, s1)"
    and 2: "fs_seek X h1 offset s1 = (Inr h2, s2)"
    and 3: "fs_read_exact X h2 4 s2 = (Inr (lb, h3), s3)"
    and 4: "fs_read_exact X h3 8 s3 = (Inr (wb, h4), s4)"
    and 5: "fs_read_exact X h4 (unat (ucast (u32_from_le_bytes lb) :: usize)) s4
      = (Inr (bytes, h5), w_files w')"
    and fr: "fr_bytes fr = bytes" "fr_retained fr = u64_from_le_bytes wb"
    using run
    by (auto simp: read_frame_def Let_def act_ok dest!: files_reserve files_reserve_frame)
  have v: "view s1 = view (w_files w)" "view s2 = view (w_files w)" "view s3 = view (w_files w)"
    "view s4 = view (w_files w)" "view (w_files w') = view (w_files w)"
    using law_open(1) [OF L 1] law_seek(1) [OF L 2] law_read(1) [OF L 3] law_read(1) [OF L 4]
      law_read(1) [OF L 5] by simp_all
  have a2: "hpath h2 = p" "hpos h2 = unat offset"
    using law_open(2) [OF L 1] law_seek(2) [OF L 2] by auto
  have a3: "hpath h3 = p" "hpos h3 = unat offset + 4" "lb = u32_to_le_bytes (of_nat (length ?e))"
    using law_read(2) [OF L 3, of c] v a2 c by (simp_all add: frame_of_def)
  have "drop (unat offset + 4) c = u64_to_le_bytes (row_retained r) @ ?e @ rest"
    using arg_cong [OF c(2), of "drop 4"] by (simp add: frame_of_def add.commute)
  then have a4: "hpath h4 = p" "hpos h4 = unat offset + 12" "wb = u64_to_le_bytes (row_retained r)"
    using law_read(2) [OF L 4, of c] v a3 c by simp_all
  have "unat (of_nat (length ?e) :: u32) = length ?e"
    using good by (simp add: good_row_def unat_of_nat)
  then have len: "unat (ucast (u32_from_le_bytes lb) :: usize) = length ?e"
    by (simp add: a3)
  have "drop (unat offset + 12) c = ?e @ rest"
    using arg_cong [OF c(2), of "drop 12"] by (simp add: frame_of_def add.commute)
  then have "bytes = ?e"
    using law_read(2) [OF L 5, of c] v a4 c len by simp
  then show ?thesis
    using v fr a4 by simp
qed


lemma run_reader_next_row_None:
  "rd_remaining rd = 0 \<Longrightarrow> run_reader_next_row X rd w = (Inr (None, rd), w)"
  by (simp add: run_reader_next_row_def ret_def)

lemma run_reader_next_row_Some:
  assumes L: "ext_laws X view hpath hpos" and run: "run_reader_next_row X rd w = (Inr (o', rd'), w')"
    and at: "reading_run X (view (w_files w)) rd (r # rows)"
  shows "(\<exists>row. o' = Some row \<and> stored row = r \<and> row_charge row \<noteq> None)
    \<and> reading_run X (view (w_files w')) rd' rows
    \<and> view (w_files w') = view (w_files w) \<and> rd_path rd' = rd_path rd
    \<and> unat (rd_remaining rd') + 1 = unat (rd_remaining rd)
    \<and> unat (rd_offset rd') = unat (rd_offset rd) + length (frame_of X r)"
proof -
  have left: "unat (rd_remaining rd) = Suc (length rows)"
    using at by (simp add: reading_run_def)
  obtain c rest where c: "view (w_files w) (rd_path rd) = Some c"
    "drop (unat (rd_offset rd)) c = frame_of X r @ frames_of X rows @ rest"
    using at by (auto simp: reading_run_def)
  have r: "good_row X r" "row_charge r = None"
    using at by (simp_all add: reading_run_def)
  obtain fr u u' k v n offset where
    op: "read_frame X (rd_path rd) (rd_offset rd) u = (Inr fr, u')"
    and u: "w_files u = w_files w" "w_files w' = w_files u'"
    and de: "from_reader X (fr_bytes fr) = Inr (k, v, n)"
    and off: "checked_add (rd_offset rd) (12 + of_nat (length (fr_bytes fr))) = Some offset"
    and o': "o' = Some \<lparr>row_key = k, row_value = v, row_ordinal = n,
        row_retained = fr_retained fr, row_charge = Some (fr_row_charge fr)\<rparr>"
    and rd': "rd' = rd\<lparr>rd_offset := offset, rd_remaining := rd_remaining rd - 1\<rparr>"
    using run left
    by (auto simp: run_reader_next_row_def act_ok split: if_splits dest!: perform_with_files)
  have fr: "view (w_files u') = view (w_files w)" "fr_bytes fr = encoded X (payload r)"
    "fr_retained fr = row_retained r"
    using read_frame_files [OF L op _ _ r(1), of c "frames_of X rows @ rest"] c u by simp_all
  have "(k, v, n) = payload r"
    using de law_codec [OF L, of "payload r"] r(1) fr(2) by (simp add: good_row_def)
  then have row: "\<exists>row. o' = Some row \<and> stored row = r \<and> row_charge row \<noteq> None"
    using o' fr(3) r(2) by (simp add: stored_def payload_def)
  have "unat (of_nat (length (fr_bytes fr)) :: u64) = length (fr_bytes fr)"
    "length (fr_bytes fr) < 2 ^ 32"
    using r(1) fr(2) by (simp_all add: good_row_def unat_of_nat)
  then have "unat (12 + of_nat (length (fr_bytes fr)) :: u64) = 12 + length (fr_bytes fr)"
    by (simp add: unat_word_ariths)
  then have next_offset: "unat offset = unat (rd_offset rd) + length (frame_of X r)"
    using off fr(2) by (simp add: word_facts frame_of_def)
  then have "drop (unat offset) c = frames_of X rows @ rest"
    using arg_cong [OF c(2), of "drop (length (frame_of X r))"] by (simp add: add.commute)
  moreover have "unat (rd_remaining rd - 1) = length rows"
  proof -
    have "rd_remaining rd \<noteq> 0" using left by auto
    then show ?thesis using left by (simp add: unat_minus_one)
  qed
  ultimately show ?thesis
    using row rd' fr(1) u c(1) at left next_offset by (auto simp: reading_run_def)
qed

text \<open>Reading the rest of a run, row by row.\<close>

fun read_rows ::
    "('fs, 'h, 'k, 'v) ext \<Rightarrow> nat \<Rightarrow> run_reader \<Rightarrow> ('fs world, ('k, 'v) run_row list) act" where
  "read_rows X 0 rd = ret []"
| "read_rows X (Suc n) rd =
     and_then (run_reader_next_row X rd) (\<lambda>(r, rd).
       case r of None \<Rightarrow> ret []
       | Some row \<Rightarrow> and_then (read_rows X n rd) (\<lambda>rows. ret (row # rows)))"

lemma read_rows_spec:
  assumes L: "ext_laws X view hpath hpos"
  shows "read_rows X n rd w = (Inr out, w') \<Longrightarrow> reading_run X (view (w_files w)) rd rows \<Longrightarrow>
    map stored out = take n rows"
proof (induction n arbitrary: rd w rows out)
  case 0
  then show ?case by (simp add: act_ok)
next
  case (Suc n)
  show ?case
  proof (cases rows)
    case Nil
    then have "rd_remaining rd = 0"
      using Suc.prems(2) by (simp add: reading_run_def unat_eq_zero)
    then show ?thesis
      using Suc.prems(1) Nil by (simp add: act_ok run_reader_next_row_None)
  next
    case (Cons r rows')
    from Suc.prems(1) obtain o' rd1 w1 where next1: "run_reader_next_row X rd w = (Inr (o', rd1), w1)"
      and rest: "(case o' of None \<Rightarrow> ret []
        | Some row \<Rightarrow> and_then (read_rows X n rd1) (\<lambda>rows. ret (row # rows))) w1 = (Inr out, w')"
      by (auto simp: act_ok)
    note step = run_reader_next_row_Some [OF L next1 Suc.prems(2) [unfolded Cons]]
    then obtain row out' where out: "stored row = r" "out = row # out'"
      and more: "read_rows X n rd1 w1 = (Inr out', w')"
      using rest by (auto simp: act_ok)
    have "map stored out' = take n rows'"
      by (rule Suc.IH [OF more]) (use step in blast)
    then show ?thesis
      using out Cons by simp
  qed
qed

text \<open>C37. Round trip of a spilled run: rows written to a new run file and read back through
  a fresh reader come out complete and in order, with key, value, ordinal and declared
  weight unchanged.\<close>

theorem run_round_trip:
  assumes "ext_laws X view hpath hpos"
    and "run_writer_create X p w0 = (Inr wr0, w1)"
    and "write_rows X wr0 rows w1 = (Inr wr, w2)"
    and "run_writer_finish X wr w2 = (Inr q, w3)"
    and "run_reader_open X p w3 = (Inr rd, w4)"
    and "read_rows X (length rows) rd w4 = (Inr out, w5)"
  shows "map stored out = map stored rows"
proof -
  note L = assms(1)
  have created: "writing_run X (view (w_files w1)) wr0 []" "rw_path wr0 = p"
    using writing_create [OF L assms(2)] by simp_all
  have written: "writing_run X (view (w_files w2)) wr (map stored rows)" "rw_path wr = p"
    using writing_rows [OF L assms(3) created(1)] created(2) by simp_all
  have finished: "holds_run X (view (w_files w3)) p (map stored rows)"
    using writing_finish [OF L assms(4) written(1)] written(2) by auto
  have "reading_run X (view (w_files w4)) rd (map stored rows)"
    using run_reader_open_spec [OF L assms(5) finished] by auto
  then show ?thesis
    using read_rows_spec [OF L assms(6)] by simp
qed

end
