(* ===== verification/StableSort.thy ===== *)
theory StableSort
  imports Prelude
begin

text \<open>
  The specification side of the engine: stable sorting by key, what one step of a stable
  k-way merge does to it, and collapsing equal keys to their first row. Nothing here is
  code; the merge and the session are proved against these functions.
\<close>

section \<open>Stable sorting\<close>

text \<open>A list sorted by the pair of key and ordinal is sorted stably by key.\<close>

lemma filter_sort_key: "filter (\<lambda>y. f y = k) (sort_key f xs) = filter (\<lambda>y. f y = k) xs"
  by (rule sort_key_stable)

lemma sort_key_unique:
  assumes "mset ys = mset xs" and "sorted (map f ys)"
    and "\<And>k. filter (\<lambda>x. f x = k) ys = filter (\<lambda>x. f x = k) xs"
  shows "ys = sort_key f xs"
proof (rule properties_for_sort_key [symmetric])
  show "filter (\<lambda>x. f k = f x) ys = filter (\<lambda>x. f k = f x) xs" for k
    using assms(3) [of "f k"] by (simp add: eq_commute)
qed (use assms in auto)

lemma sort_key_Nil_iff [simp]: "sort_key f xs = [] \<longleftrightarrow> xs = []" "[] = sort_key f xs \<longleftrightarrow> xs = []"
  by (metis length_0_conv length_sort)+

lemma sort_key_sorted: "sorted (map f xs) \<Longrightarrow> sort_key f xs = xs"
  by (rule sort_key_unique [symmetric]) simp_all

lemma filter_concat: "filter P (concat xss) = concat (map (filter P) xss)"
  by (induction xss) simp_all

lemma sort_key_concat:
  "sort_key f (concat (map (sort_key f) xss)) = sort_key f (concat xss)"
proof (rule sort_key_unique)
  show "mset (sort_key f (concat (map (sort_key f) xss))) = mset (concat xss)"
    by (induction xss) simp_all
qed (simp_all add: filter_sort_key filter_concat comp_def)

lemma sort_key_append:
  "sort_key f (sort_key f xs @ sort_key f ys) = sort_key f (xs @ ys)"
  using sort_key_concat [of f "[xs, ys]"] by simp

lemma sort_key_append_left: "sort_key f (sort_key f xs @ ys) = sort_key f (xs @ ys)"
  by (metis sort_key_append sorted_sort_key sort_key_sorted)

lemma sort_key_pull:
  assumes "\<forall>a \<in> set as. f x < f a" and "\<forall>c \<in> set cs. f x \<le> f c"
  shows "sort_key f (as @ x # cs) = x # sort_key f (as @ cs)"
proof (rule sort_key_unique [symmetric])
  show "sorted (map f (x # sort_key f (as @ cs)))"
    using assms by (auto intro: less_imp_le)
  show "filter (\<lambda>y. f y = k) (x # sort_key f (as @ cs)) = filter (\<lambda>y. f y = k) (as @ x # cs)" for k
  proof (cases "f x = k")
    case True
    then have "filter (\<lambda>y. f y = k) as = []"
      using assms(1) by (auto simp: filter_empty_conv)
    with True show ?thesis by (simp add: filter_sort_key)
  qed (simp add: filter_sort_key)
qed simp

text \<open>One step of a merge: the least head, the earliest list among equal heads.\<close>

lemma merge_step:
  assumes sorted: "\<forall>xs \<in> set xss. sorted (map f xs)"
    and i: "i < length xss" "xss ! i = x # xs"
    and least: "\<forall>j < length xss. xss ! j \<noteq> [] \<longrightarrow> (f x, i) \<le> (f (hd (xss ! j)), j)"
  shows "sort_key f (concat xss) = x # sort_key f (concat (xss[i := xs]))"
proof -
  have heads: "f (hd (xss ! j)) \<le> f y" if "j < length xss" "y \<in> set (xss ! j)" for j y
  proof -
    have "sorted (map f (xss ! j))" using sorted that(1) by simp
    then show ?thesis using that(2) by (cases "xss ! j") auto
  qed
  have before: "f x < f a" if a: "a \<in> set (concat (take i xss))" for a
  proof -
    obtain ys where "ys \<in> set (take i xss)" "a \<in> set ys" using a by auto
    then obtain j where j: "j < i" "a \<in> set (xss ! j)"
      using i(1) by (auto simp: in_set_conv_nth [of ys])
    then have "xss ! j \<noteq> []" "j < length xss" using i(1) by auto
    then have "f x < f (hd (xss ! j))"
      using least j(1) by (fastforce simp: less_eq_prod_def)
    then show ?thesis using heads j i(1) by (fastforce intro: less_le_trans)
  qed
  have after: "f x \<le> f c" if c: "c \<in> set (xs @ concat (drop (Suc i) xss))" for c
  proof (cases "c \<in> set xs")
    case True
    then show ?thesis using heads [of i c] i by simp
  next
    case False
    then obtain ys where "ys \<in> set (drop (Suc i) xss)" "c \<in> set ys" using c by auto
    then obtain n where "n < length xss - Suc i" "c \<in> set (xss ! (Suc i + n))"
      by (auto simp: in_set_conv_nth [of ys])
    then obtain j where j: "i < j" "j < length xss" "c \<in> set (xss ! j)"
      using less_diff_conv2 [of "Suc i"] by (metis add.commute less_add_Suc1 less_diff_conv add_Suc)
    then have "xss ! j \<noteq> []" by auto
    then have "f x \<le> f (hd (xss ! j))"
      using least j(2) by (auto simp: less_eq_prod_def)
    then show ?thesis using heads j by (fastforce intro: order_trans)
  qed
  have split: "xss = take i xss @ (x # xs) # drop (Suc i) xss"
    using i by (simp add: id_take_nth_drop [symmetric] flip: i(2))
  have "sort_key f (concat xss) =
      sort_key f (concat (take i xss) @ x # (xs @ concat (drop (Suc i) xss)))"
    by (subst split) simp
  also have "\<dots> = x # sort_key f (concat (take i xss) @ xs @ concat (drop (Suc i) xss))"
    using before after by (intro sort_key_pull) auto
  also have "concat (take i xss) @ xs @ concat (drop (Suc i) xss) = concat (xss[i := xs])"
    using i(1) by (simp add: upd_conv_take_nth_drop)
  finally show ?thesis .
qed

text \<open>Breaking ties by increasing ordinals is breaking them by position.\<close>

lemma sort_key_with_ordinal:
  assumes "sorted_wrt (<) (map g xs)"
  shows "sort_key (\<lambda>x. (f x, g x)) xs = sort_key f xs"
proof (rule sort_key_unique)
  let ?ys = "sort_key (\<lambda>x. (f x, g x)) xs"
  have pairs: "sorted (map (\<lambda>x. (f x, g x)) ?ys)" by simp
  then show "sorted (map f ?ys)"
    by (auto simp: sorted_iff_nth_mono less_eq_prod_def intro: less_imp_le)
  show "filter (\<lambda>x. f x = k) ?ys = filter (\<lambda>x. f x = k) xs" for k
  proof (rule map_sorted_distinct_set_unique [of g])
    show "inj_on g (set (filter (\<lambda>x. f x = k) ?ys) \<union> set (filter (\<lambda>x. f x = k) xs))"
      using assms by (auto intro: inj_on_subset [of _ "set xs"]
          simp: distinct_map strict_sorted_iff)
    have "sorted (map g (filter (\<lambda>x. f x = k) ys))"
      if "sorted (map (\<lambda>x. (f x, g x)) ys)" for ys
      using that by (induction ys) (auto simp: less_eq_prod_def)
    then show "sorted (map g (filter (\<lambda>x. f x = k) ?ys))" using pairs by blast
    show "sorted (map g (filter (\<lambda>x. f x = k) xs))"
      using assms by (auto intro: sorted_filter simp: strict_sorted_iff)
    have "distinct (map g ?ys)"
      using assms by (simp add: strict_sorted_iff distinct_map)
    then show "distinct (map g (filter (\<lambda>x. f x = k) ?ys))"
      by (auto simp: distinct_map intro: inj_on_subset)
    show "distinct (map g (filter (\<lambda>x. f x = k) xs))"
      using assms by (auto simp: strict_sorted_iff distinct_map intro: inj_on_subset)
  qed simp
qed simp

lemma map_insort_key: "map g (insort_key (\<lambda>x. f (g x)) x xs) = insort_key f (g x) (map g xs)"
  by (induction xs) simp_all

lemma map_sort_key: "map g (sort_key (\<lambda>x. f (g x)) xs) = sort_key f (map g xs)"
  by (induction xs) (simp_all add: map_insort_key)

section \<open>Collapsing equal keys\<close>

text \<open>Skip each row whose key is that of the last row kept.\<close>

fun dedup_from :: "('a \<Rightarrow> 'k) \<Rightarrow> 'k option \<Rightarrow> 'a list \<Rightarrow> 'a list" where
  "dedup_from f prev [] = []"
| "dedup_from f prev (x # xs) =
     (if prev = Some (f x) then dedup_from f prev xs else x # dedup_from f (Some (f x)) xs)"

text \<open>What a sort is to emit: the rows in stable key order, or the first of each key.\<close>

definition sorted_rows :: "bool \<Rightarrow> ('a \<Rightarrow> 'k::linorder) \<Rightarrow> 'a list \<Rightarrow> 'a list" where
  "sorted_rows dedup f xs = (if dedup then dedup_from f None (sort_key f xs) else sort_key f xs)"

lemma dedup_from_keys:
  "sorted (map f xs) \<Longrightarrow> (\<forall>k. prev = Some k \<longrightarrow> (\<forall>x \<in> set xs. k \<le> f x)) \<Longrightarrow>
    sorted_wrt (<) (map f (dedup_from f prev xs))
    \<and> (\<forall>k. prev = Some k \<longrightarrow> (\<forall>x \<in> set (dedup_from f prev xs). k < f x))"
proof (induction xs arbitrary: prev)
  case Nil
  then show ?case by simp
next
  case (Cons x xs)
  show ?case
  proof (cases "prev = Some (f x)")
    case True
    moreover have "\<forall>k. prev = Some k \<longrightarrow> (\<forall>y \<in> set xs. k \<le> f y)"
      using Cons.prems(2) by simp
    ultimately show ?thesis
      using Cons.IH [of prev] Cons.prems(1) by simp
  next
    case False
    have ih: "sorted_wrt (<) (map f (dedup_from f (Some (f x)) xs))"
      "\<forall>y \<in> set (dedup_from f (Some (f x)) xs). f x < f y"
      using Cons.IH [of "Some (f x)"] Cons.prems(1) by auto
    moreover have "k < f x" if "prev = Some k" for k
      using Cons.prems(2) False that by (auto simp: order_less_le)
    ultimately show ?thesis
      using False by (auto intro: less_trans)
  qed
qed

lemma dedup_from_first:
  "sorted (map f xs) \<Longrightarrow> (\<forall>k. prev = Some k \<longrightarrow> (\<forall>x \<in> set xs. k \<le> f x)) \<Longrightarrow>
    y \<in> set (dedup_from f prev xs) \<Longrightarrow> hd (filter (\<lambda>x. f x = f y) xs) = y"
proof (induction xs arbitrary: prev)
  case Nil
  then show ?case by simp
next
  case (Cons x xs)
  have tail: "sorted (map f xs)" "\<forall>z \<in> set xs. f x \<le> f z"
    using Cons.prems(1) by simp_all
  show ?case
  proof (cases "prev = Some (f x) \<or> y \<noteq> x")
    case True
    then have y: "y \<in> set (dedup_from f (Some (f x)) xs)"
      using Cons.prems(3) by (auto split: if_splits)
    then have "f x < f y"
      using dedup_from_keys [of f xs "Some (f x)"] tail by auto
    moreover have "hd (filter (\<lambda>x. f x = f y) xs) = y"
      by (rule Cons.IH [OF tail(1) _ y]) (use tail in simp)
    ultimately show ?thesis by auto
  next
    case False
    then show ?thesis by simp
  qed
qed

lemma dedup_from_image:
  "f ` set (dedup_from f prev xs) \<union> set_option prev = f ` set xs \<union> set_option prev"
  by (induction f prev xs rule: dedup_from.induct) auto

text \<open>With collapsing, each key occurs once, in order, with its first row in input order.\<close>

lemma sorted_rows_dedup:
  "sorted_rows True f xs = map (\<lambda>k. hd (filter (\<lambda>x. f x = k) xs)) (sorted_list_of_set (f ` set xs))"
proof -
  let ?out = "dedup_from f None (sort_key f xs)"
  have sorted: "sorted (map f (sort_key f xs))" by simp
  have strict: "sorted_wrt (<) (map f ?out)"
    using dedup_from_keys [OF sorted, of None] by simp
  have "set (map f ?out) = f ` set xs"
    using dedup_from_image [of f None "sort_key f xs"] by simp
  then have keys: "sorted_list_of_set (f ` set xs) = map f ?out"
    using strict by (metis sorted_list_of_set.idem_if_sorted_distinct strict_sorted_iff)
  have first: "hd (filter (\<lambda>x. f x = f y) xs) = y" if "y \<in> set ?out" for y
    using dedup_from_first [OF sorted _ that] by (simp add: filter_sort_key)
  show ?thesis
    unfolding keys by (simp add: sorted_rows_def comp_def first cong: map_cong)
qed

end
