(* ===== verification/Heap.thy ===== *)
theory Heap
  imports Prelude
begin

text \<open>
  The merge frontier: heap entries with their derived order (src/engine/merge.rs,
  \<open>HeapEntry\<close>) and the standard library's \<open>BinaryHeap<Reverse<_>>\<close>, modelled by its
  documented contract as the entries in ascending order. The interface the merge uses is a
  locale; its one client fact is what popping yields.
\<close>

datatype 'k heap_entry = HeapEntry (he_key: 'k) (he_idx: nat)

instantiation heap_entry :: (linorder) linorder
begin

definition less_eq_heap_entry :: "'a heap_entry \<Rightarrow> 'a heap_entry \<Rightarrow> bool" where
  "less_eq_heap_entry a b \<longleftrightarrow> (he_key a, he_idx a) \<le> (he_key b, he_idx b)"

definition less_heap_entry :: "'a heap_entry \<Rightarrow> 'a heap_entry \<Rightarrow> bool" where
  "less_heap_entry a b \<longleftrightarrow> (he_key a, he_idx a) < (he_key b, he_idx b)"

instance
proof
  fix a b c :: "'a heap_entry"
  show "a < b \<longleftrightarrow> a \<le> b \<and> \<not> b \<le> a"
    by (simp only: less_heap_entry_def less_eq_heap_entry_def less_le_not_le)
  show "a \<le> a" by (simp add: less_eq_heap_entry_def)
  show "a \<le> b \<Longrightarrow> b \<le> c \<Longrightarrow> a \<le> c"
    unfolding less_eq_heap_entry_def by (rule order_trans)
  show "a \<le> b \<Longrightarrow> b \<le> a \<Longrightarrow> a = b"
    unfolding less_eq_heap_entry_def by (cases a; cases b) (auto dest: antisym)
  show "a \<le> b \<or> b \<le> a"
    unfolding less_eq_heap_entry_def by (rule linear)
qed

end

definition heap_push :: "'e::linorder \<Rightarrow> 'e list \<Rightarrow> 'e list" where
  "heap_push e q = insort e q"

definition heap_pop :: "'e::linorder list \<Rightarrow> ('e \<times> 'e list) option" where
  "heap_pop q = (case q of [] \<Rightarrow> None | e # q' \<Rightarrow> Some (e, q'))"

locale min_queue =
  fixes push :: "'e::linorder \<Rightarrow> 'q \<Rightarrow> 'q"
    and pop :: "'q \<Rightarrow> ('e \<times> 'q) option"
    and entries :: "'q \<Rightarrow> 'e multiset"
    and valid :: "'q \<Rightarrow> bool"
  assumes valid_push: "valid q \<Longrightarrow> valid (push e q)"
    and entries_push: "valid q \<Longrightarrow> entries (push e q) = add_mset e (entries q)"
    and pop_None: "valid q \<Longrightarrow> pop q = None \<longleftrightarrow> entries q = {#}"
    and pop_Some: "valid q \<Longrightarrow> pop q = Some (e, q') \<Longrightarrow>
      valid q' \<and> entries q = add_mset e (entries q') \<and> (\<forall>x \<in># entries q'. e \<le> x)"
begin

lemma pop_least:
  assumes "valid q" and "pop q = Some (e, q')" and "x \<in># entries q"
  shows "e \<le> x"
  using pop_Some [OF assms(1,2)] assms(3) by auto

lemma pop_cases:
  assumes "valid q"
  obtains (empty) "pop q = None" and "entries q = {#}"
  | (least) e q' where "pop q = Some (e, q')" and "valid q'"
    and "entries q = add_mset e (entries q')" and "\<And>x. x \<in># entries q \<Longrightarrow> e \<le> x"
  using assms pop_None pop_Some pop_least by (metis surj_pair option.exhaust)

text \<open>Popping and pushing a larger entry back keeps the least one in front of the rest.\<close>

lemma pop_push_entries:
  assumes "valid q" and "pop q = Some (e, q')"
  shows "entries (push x q') = add_mset x (entries q - {#e#}) \<and> valid (push x q')"
  using pop_Some [OF assms] by (simp add: entries_push valid_push)

end

interpretation heap: min_queue heap_push heap_pop mset "sorted :: 'e::linorder list \<Rightarrow> bool"
  by unfold_locales
    (auto simp: heap_push_def heap_pop_def sorted_insort split: list.splits)

end
