(* ===== verification/Merge.thy ===== *)
theory Merge
  imports RunStore StableSort Heap
begin

text \<open>
  The bounded k-way merge over spilled runs (src/engine/merge.rs): sources that buffer one
  head row, the heap of head keys, the loop that emits the next row, merging a group of
  runs into a new run, and the cascade of passes until few enough runs are left.
\<close>

section \<open>Sources\<close>

record ('k, 'v) merge_source =
  src_head :: "('k, 'v) run_row option"
  src_reader :: run_reader
  src_key_charge :: "memory_charge option"

definition source_drop :: "('k, 'v) merge_source \<Rightarrow> 'fs world \<Rightarrow> 'fs world" where
  "source_drop s w =
     release_opt (src_key_charge s) (case src_head s of None \<Rightarrow> w | Some r \<Rightarrow> row_drop r w)"

definition merge_source_open ::
    "('fs, 'h, 'k, 'v) ext \<Rightarrow> path \<Rightarrow> ('fs world, ('k, 'v) merge_source option) act" where
  "merge_source_open X p =
     and_then (run_reader_open X p) (\<lambda>reader.
     and_then (run_reader_next_row X reader) (\<lambda>(r, reader).
       case r of
         Some head \<Rightarrow> ret (Some \<lparr>src_head = Some head, src_reader = reader, src_key_charge = None\<rparr>)
       | None \<Rightarrow> ret None))"

definition source_key :: "('k, 'v) merge_source \<Rightarrow> 'k option" where
  "source_key s = map_option row_key (src_head s)"

section \<open>The state of a merge\<close>

record ('k, 'v) merge_state =
  ms_sources :: "('k, 'v) merge_source list"
  ms_heap :: "'k heap_entry list"
  ms_dedup :: bool
  ms_last :: "('k \<times> memory_charge) option"
  ms_arrays :: memory_charge

definition sources_drop :: "('k, 'v) merge_source list \<Rightarrow> 'fs world \<Rightarrow> 'fs world" where
  "sources_drop ss = fold source_drop ss"

definition merge_state_drop :: "('k, 'v) merge_state \<Rightarrow> 'fs world \<Rightarrow> 'fs world" where
  "merge_state_drop st w =
     release (ms_arrays st) (release_opt (map_option snd (ms_last st))
       (sources_drop (ms_sources st) w))"

definition merge_state_new ::
    "('fs, 'h, 'k, 'v) ext \<Rightarrow> usize \<Rightarrow> bool \<Rightarrow> ('fs world, ('k, 'v) merge_state) act" where
  "merge_state_new X capacity dedup =
     and_then (ok_or (Raise RunLimit) (checked_mul capacity (size_of_source X))) (\<lambda>source_bytes.
     and_then (ok_or (Raise RunLimit) (checked_mul capacity (size_of_heap_entry X))) (\<lambda>heap_bytes.
     and_then (ok_or (Raise RunLimit) (checked_add source_bytes heap_bytes)) (\<lambda>bytes.
     and_then (reserve bytes) (\<lambda>arrays.
     if vec_capacity X capacity \<noteq> capacity
     then bail (release arrays) (Panic ''exact source capacity reservation'')
     else ret \<lparr>ms_sources = [], ms_heap = [], ms_dedup = dedup, ms_last = None,
               ms_arrays = arrays\<rparr>))))"

text \<open>The loop over the paths: a run without rows contributes no source.\<close>

fun merge_open_paths ::
    "('fs, 'h, 'k::linorder, 'v) ext \<Rightarrow> path list \<Rightarrow> ('k, 'v) merge_state
      \<Rightarrow> ('fs world, ('k, 'v) merge_state) act" where
  "merge_open_paths X [] st = ret st"
| "merge_open_paths X (p # ps) st =
     attempt (merge_state_drop st) (merge_source_open X p) (\<lambda>src.
       case src of
         None \<Rightarrow> merge_open_paths X ps st
       | Some source \<Rightarrow>
           let idx = length (ms_sources st)
           in case src_head source of
                Some head \<Rightarrow>
                  attempt (\<lambda>w. merge_state_drop st (source_drop source w))
                    (reserve (row_retained head)) (\<lambda>charge.
                  merge_open_paths X ps
                    (st\<lparr>ms_sources := ms_sources st @ [source\<lparr>src_key_charge := Some charge\<rparr>],
                        ms_heap := heap_push (HeapEntry (row_key head) idx) (ms_heap st)\<rparr>))
              | None \<Rightarrow> merge_open_paths X ps (st\<lparr>ms_sources := ms_sources st @ [source]\<rparr>))"

definition merge_state_open ::
    "('fs, 'h, 'k::linorder, 'v) ext \<Rightarrow> path list \<Rightarrow> bool
      \<Rightarrow> ('fs world, ('k, 'v) merge_state) act" where
  "merge_state_open X paths dedup =
     and_then (merge_state_new X (of_nat (length paths)) dedup) (merge_open_paths X paths)"

section \<open>The next row\<close>

text \<open>
  The state is borrowed mutably, so it is threaded through faults as well: a caller that
  gives up still owns, and drops, what is left in it. One pass of the loop ends with a
  row, with the end of the merge, or with \<open>continue\<close> after a collapsed row.
\<close>

datatype 'r turn = Return 'r | Continue

definition take_head ::
    "('fs, 'h, 'k, 'v) ext \<Rightarrow> nat
      \<Rightarrow> (('k, 'v) merge_state \<times> 'fs world, ('k, 'v) run_row) act" where
  "take_head X idx = (\<lambda>(st, w).
     let source = ms_sources st ! idx
     in case src_head source of
          None \<Rightarrow> (Inl (Panic ''take_head on exhausted source''), (st, w))
        | Some row \<Rightarrow>
            (case run_reader_next_row X (src_reader source) w of
               (Inl e, w1) \<Rightarrow>
                 (Inl e, (st\<lparr>ms_sources := (ms_sources st)[idx := source\<lparr>src_head := None\<rparr>]\<rparr>,
                          row_drop row w1))
             | (Inr (head, reader), w1) \<Rightarrow>
                 (Inr row, (st\<lparr>ms_sources := (ms_sources st)
                     [idx := source\<lparr>src_head := head, src_reader := reader\<rparr>]\<rparr>, w1))))"

text \<open>Charge the refilled head's key and put it back on the heap.\<close>

definition charge_key ::
    "nat \<Rightarrow> ('k, 'v) run_row \<Rightarrow> (('k::linorder, 'v) merge_state \<times> 'fs world, unit) act" where
  "charge_key idx row = (\<lambda>(st, w).
     let source = ms_sources st ! idx
     in case src_head source of
          None \<Rightarrow> (Inr (), (st, w))
        | Some head \<Rightarrow>
            (case reserve (row_retained head) w of
               (Inl e, w1) \<Rightarrow> (Inl e, (st, row_drop row w1))
             | (Inr charge, w1) \<Rightarrow>
                 (Inr (), (st\<lparr>ms_sources := (ms_sources st)
                       [idx := source\<lparr>src_key_charge := Some charge\<rparr>],
                     ms_heap := heap_push (HeapEntry (row_key head) idx) (ms_heap st)\<rparr>, w1))))"

text \<open>Skip a row with the key emitted last, or remember its key.\<close>

definition emit_or_skip ::
    "('k, 'v) run_row \<Rightarrow> (('k, 'v) merge_state \<times> 'fs world, ('k, 'v) run_row option turn) act" where
  "emit_or_skip row = (\<lambda>(st, w).
     if ms_dedup st
     then if map_option fst (ms_last st) = Some (row_key row)
          then (Inr Continue, (st, row_drop row w))
          else (case reserve (row_retained row) w of
                  (Inl e, w1) \<Rightarrow> (Inl e, (st, row_drop row w1))
                | (Inr charge, w1) \<Rightarrow>
                    (Inr (Return (Some row)),
                     (st\<lparr>ms_last := Some (row_key row, charge)\<rparr>,
                      release_opt (map_option snd (ms_last st)) w1)))
     else (Inr (Return (Some row)), (st, w)))"

definition merge_turn ::
    "('fs, 'h, 'k::linorder, 'v) ext
      \<Rightarrow> (('k, 'v) merge_state \<times> 'fs world, ('k, 'v) run_row option turn) act" where
  "merge_turn X = (\<lambda>(st, w).
     case heap_pop (ms_heap st) of
       None \<Rightarrow> (Inr (Return None), (st, w))
     | Some (entry, rest) \<Rightarrow>
         let idx = he_idx entry; st1 = st\<lparr>ms_heap := rest\<rparr>
         in if length (ms_sources st) \<le> idx
            then (Inl (Panic ''index out of bounds''), (st1, w))
            else
              let source = ms_sources st ! idx;
                  st2 = st1\<lparr>ms_sources := (ms_sources st)[idx := source\<lparr>src_key_charge := None\<rparr>]\<rparr>
              in and_then (take_head X idx) (\<lambda>row.
                 and_then (charge_key idx row) (\<lambda>_.
                 emit_or_skip row)) (st2, release_opt (src_key_charge source) w))"

text \<open>Rows not yet taken: one per buffered head, and what the readers have left.\<close>

definition rows_left :: "('k, 'v) merge_state \<Rightarrow> nat" where
  "rows_left st =
     sum_list (map (\<lambda>s. unat (rd_remaining (src_reader s)) + (if src_head s = None then 0 else 1))
       (ms_sources st))"


lemma sum_list_map_update:
  fixes f :: "'a \<Rightarrow> 'n::ab_group_add"
  assumes "i < length xs"
  shows "sum_list (map f (xs[i := x])) = sum_list (map f xs) - f (xs ! i) + f x"
  using assms by (induction xs arbitrary: i) (auto split: nat.splits)

lemma sum_list_map_update_nat:
  fixes f :: "'a \<Rightarrow> nat"
  assumes "i < length xs"
  shows "sum_list (map f (xs[i := x])) + f (xs ! i) = sum_list (map f xs) + f x"
  using assms by (induction xs arbitrary: i) (auto split: nat.splits)

lemma next_row_remaining:
  assumes "run_reader_next_row X rd w = (Inr (r, rd'), w')"
  shows "unat (rd_remaining rd') + (if r = None then 0 else 1) = unat (rd_remaining rd)"
proof (cases "rd_remaining rd = 0")
  case True
  then show ?thesis using assms by (simp add: run_reader_next_row_def act_ok)
next
  case False
  then have "unat (rd_remaining rd - 1) + 1 = unat (rd_remaining rd)"
    using unat_gt_0 [of "rd_remaining rd"] by (simp add: unat_minus_one)
  then show ?thesis
    using assms False by (auto simp: run_reader_next_row_def act_ok)
qed

lemma take_head_rows_left:
  assumes "take_head X i (st, w) = (Inr row, (st', w'))" and "i < length (ms_sources st)"
  shows "rows_left st' + 1 = rows_left st \<and> length (ms_sources st') = length (ms_sources st)"
proof -
  obtain head reader where src: "src_head (ms_sources st ! i) = Some row"
    and run: "run_reader_next_row X (src_reader (ms_sources st ! i)) w = (Inr (head, reader), w')"
    and st': "st' = st\<lparr>ms_sources := (ms_sources st)
      [i := (ms_sources st ! i)\<lparr>src_head := head, src_reader := reader\<rparr>]\<rparr>"
    using assms(1) by (auto simp: take_head_def Let_def split: option.splits prod.splits sum.splits)
  show ?thesis
    using next_row_remaining [OF run] src assms(2)
      sum_list_map_update_nat [of i "ms_sources st"
        "\<lambda>s. unat (rd_remaining (src_reader s)) + (if src_head s = None then 0 else 1)"
        "(ms_sources st ! i)\<lparr>src_head := head, src_reader := reader\<rparr>"]
    by (simp add: rows_left_def st' split: if_splits)
qed

lemma same_sources_rows_left:
  assumes "i < length (ms_sources st)"
  shows "rows_left (st\<lparr>ms_sources := (ms_sources st)[i := (ms_sources st ! i)\<lparr>src_key_charge := c\<rparr>]\<rparr>)
    = rows_left st"
  using sum_list_map_update_nat [OF assms, of
      "\<lambda>s. unat (rd_remaining (src_reader s)) + (if src_head s = None then 0 else 1)"
      "(ms_sources st ! i)\<lparr>src_key_charge := c\<rparr>"]
  by (simp add: rows_left_def)

lemma rows_left_simps [simp]:
  "rows_left (st\<lparr>ms_heap := h\<rparr>) = rows_left st" "rows_left (st\<lparr>ms_last := l\<rparr>) = rows_left st"
  by (simp_all add: rows_left_def)

lemma rows_left_heap_first [simp]:
  "rows_left (st\<lparr>ms_heap := h, ms_sources := ss\<rparr>) = rows_left (st\<lparr>ms_sources := ss\<rparr>)"
  "rows_left (st\<lparr>ms_sources := ss, ms_heap := h\<rparr>) = rows_left (st\<lparr>ms_sources := ss\<rparr>)"
  by (simp_all add: rows_left_def)

lemma charge_key_rows_left:
  assumes "charge_key i row (st, w) = (Inr u, (st', w'))" and "i < length (ms_sources st)"
  shows "rows_left st' = rows_left st"
  using assms same_sources_rows_left [OF assms(2)]
  by (auto simp: charge_key_def Let_def split: option.splits prod.splits sum.splits)

lemma emit_or_skip_rows_left:
  "emit_or_skip row (st, w) = (Inr t, (st', w')) \<Longrightarrow> rows_left st' = rows_left st"
  by (auto simp: emit_or_skip_def split: if_splits prod.splits sum.splits)

text \<open>Every pass of the loop that does not find the heap empty takes a row.\<close>

lemma merge_turn_rows_left:
  assumes "merge_turn X (st, w) = (Inr t, (st', w'))" and "t \<noteq> Return None"
  shows "rows_left st' < rows_left st"
proof -
  obtain entry rest where pop: "heap_pop (ms_heap st) = Some (entry, rest)"
    and i: "he_idx entry < length (ms_sources st)"
    using assms by (auto simp: merge_turn_def Let_def split: option.splits if_splits)
  define st2 where "st2 = st\<lparr>ms_heap := rest, ms_sources := (ms_sources st)
    [he_idx entry := (ms_sources st ! he_idx entry)\<lparr>src_key_charge := None\<rparr>]\<rparr>"
  obtain row st3 w3 st4 w4 where
    1: "take_head X (he_idx entry)
      (st2, release_opt (src_key_charge (ms_sources st ! he_idx entry)) w) = (Inr row, (st3, w3))"
    and 2: "charge_key (he_idx entry) row (st3, w3) = (Inr (), (st4, w4))"
    and 3: "emit_or_skip row (st4, w4) = (Inr t, (st', w'))"
    using assms(1) pop i by (auto simp: merge_turn_def Let_def act_ok st2_def)
  have "rows_left st2 = rows_left st" "he_idx entry < length (ms_sources st2)"
    using i by (simp_all add: st2_def same_sources_rows_left)
  then show ?thesis
    using take_head_rows_left [OF 1] charge_key_rows_left [OF 2] emit_or_skip_rows_left [OF 3] by simp
qed

function merge_next ::
    "('fs, 'h, 'k::linorder, 'v) ext \<Rightarrow> ('k, 'v) merge_state \<times> 'fs world
      \<Rightarrow> (fault + ('k, 'v) run_row option) \<times> ('k, 'v) merge_state \<times> 'fs world" where
  "merge_next X s =
     (case merge_turn X s of
        (Inl e, s') \<Rightarrow> (Inl e, s')
      | (Inr t, s') \<Rightarrow> (case t of Return r \<Rightarrow> (Inr r, s') | Continue \<Rightarrow> merge_next X s'))"
  by pat_completeness auto

termination
  by (relation "measure (\<lambda>(X, s). rows_left (fst s))")
    (auto dest!: sym [of "(Inr Continue, _)"] dest: merge_turn_rows_left [OF _ turn.distinct(2)])

declare merge_next.simps [simp del]

lemma merge_next_rows_left:
  "merge_next X s = (Inr (Some row), s') \<Longrightarrow> rows_left (fst s') < rows_left (fst s)"
proof (induction X s rule: merge_next.induct)
  case (1 X s)
  obtain st w where s: "s = (st, w)" by fastforce
  obtain st' w' where s': "s' = (st', w')" by fastforce
  obtain t st1 w1 where turn: "merge_turn X s = (Inr t, (st1, w1))"
    and rest: "(case t of Return r \<Rightarrow> (Inr r, (st1, w1)) | Continue \<Rightarrow> merge_next X (st1, w1))
      = (Inr (Some row), s')"
    using 1(2) by (subst (asm) merge_next.simps) (auto split: prod.splits sum.splits)
  have less: "rows_left st1 < rows_left st"
    using merge_turn_rows_left [of X st w t st1 w1] turn s rest by (cases t) auto
  show ?case
  proof (cases t)
    case (Return r)
    then show ?thesis using rest less s by auto
  next
    case Continue
    then show ?thesis
      using rest less s 1(1) [OF turn [symmetric] refl Continue] by simp
  qed
qed

section \<open>Merging a group into a file\<close>

function copy_rows ::
    "('fs, 'h, 'k::linorder, 'v) ext \<Rightarrow> run_writer \<Rightarrow> ('k, 'v) merge_state \<times> 'fs world
      \<Rightarrow> (fault + run_writer) \<times> ('k, 'v) merge_state \<times> 'fs world" where
  "copy_rows X wr s =
     (case merge_next X s of
        (Inl e, s') \<Rightarrow> (Inl e, s')
      | (Inr r, (st, w)) \<Rightarrow>
          (case r of
             None \<Rightarrow> (Inr wr, (st, w))
           | Some row \<Rightarrow>
               (case run_writer_write_row X wr row w of
                  (Inl e, w') \<Rightarrow> (Inl e, (st, row_drop row w'))
                | (Inr wr', w') \<Rightarrow> copy_rows X wr' (st, row_drop row w'))))"
  by pat_completeness auto

termination
proof (relation "measure (\<lambda>(X, wr, s). rows_left (fst s))", goal_cases)
  case 1
  show ?case by simp
next
  case (2 X wr s q r x st w row y wr' w')
  then have "merge_next X s = (Inr (Some row), (st, w))" by (metis prod.collapse)
  then show ?case using merge_next_rows_left by fastforce
qed

declare copy_rows.simps [simp del]

text \<open>A block that owns a merge state: what it leaves of it is dropped when it faults.\<close>

definition owning ::
    "('st \<Rightarrow> 'w \<Rightarrow> 'w) \<Rightarrow> 'st \<Rightarrow> ('st \<times> 'w, 'a) act \<Rightarrow> ('w, 'a \<times> 'st) act" where
  "owning d st m w =
     (case m (st, w) of
        (Inl e, (st', w')) \<Rightarrow> (Inl e, d st' w')
      | (Inr x, (st', w')) \<Rightarrow> (Inr (x, st'), w'))"

fun remove_all :: "('fs, 'h, 'k, 'v) ext \<Rightarrow> path list \<Rightarrow> ('fs world, unit) act" where
  "remove_all X [] = ret ()"
| "remove_all X (p # ps) = and_then (awaited (io (fs_remove_if_exists X p))) (\<lambda>_. remove_all X ps)"

definition merge_group_to_file ::
    "('fs, 'h, 'k::linorder, 'v) ext \<Rightarrow> path list \<Rightarrow> path \<Rightarrow> bool \<Rightarrow> ('fs world, path) act" where
  "merge_group_to_file X paths out dedup =
     and_then (merge_state_open X paths dedup) (\<lambda>st.
     attempt (merge_state_drop st) (run_writer_create X out) (\<lambda>wr.
     and_then (owning merge_state_drop st (copy_rows X wr)) (\<lambda>(wr, st).
     attempt (merge_state_drop st) (run_writer_finish X wr) (\<lambda>merged.
     and_then (modify (merge_state_drop st)) (\<lambda>_.
     and_then (remove_all X paths) (\<lambda>_.
     ret merged))))))"

section \<open>The cascade\<close>

function chunks :: "nat \<Rightarrow> 'a list \<Rightarrow> 'a list list" where
  "chunks n xs = (if xs = [] \<or> n = 0 then [] else take n xs # chunks n (drop n xs))"
  by pat_completeness auto
termination by (relation "measure (\<lambda>(n, xs). length xs)") auto

declare chunks.simps [simp del]

fun merge_groups ::
    "('fs, 'h, 'k::linorder, 'v) ext \<Rightarrow> path \<Rightarrow> u32 \<Rightarrow> nat \<Rightarrow> path list list
      \<Rightarrow> ('fs world, path list) act" where
  "merge_groups X dir pass group_idx [] = ret []"
| "merge_groups X dir pass group_idx (g # gs) =
     and_then
       (if length g = 1 then ret (hd g)
        else merge_group_to_file X g (join dir (merge_name (unat pass) group_idx)) False) (\<lambda>p.
     and_then (merge_groups X dir pass (Suc group_idx) gs) (\<lambda>next_runs.
     ret (p # next_runs)))"

lemma merge_groups_length:
  "merge_groups X dir pass i groups w = (Inr ps, w') \<Longrightarrow> length ps = length groups"
  by (induction groups arbitrary: i w ps) (auto simp: act_ok)

lemma chunks_length: "1 < n \<Longrightarrow> length (chunks n xs) \<le> (length xs + 1) div 2"
proof (induction n xs rule: chunks.induct)
  case (1 n xs)
  show ?case
  proof (cases "xs = []")
    case True
    then show ?thesis by (subst chunks.simps) simp
  next
    case False
    then have "length (chunks n xs) = Suc (length (chunks n (drop n xs)))"
      using 1(2) by (subst chunks.simps) simp
    also have "\<dots> \<le> Suc ((length xs - n + 1) div 2)"
      using 1 False by simp
    also have "\<dots> \<le> (length xs + 1) div 2"
    proof (cases "n \<le> length xs")
      case True
      then have "length xs - n + 1 + 2 \<le> length xs + 1" using 1(2) by linarith
      then show ?thesis by linarith
    next
      case False
      moreover have "1 \<le> length xs" using \<open>xs \<noteq> []\<close> by (simp add: Suc_le_eq)
      ultimately have "length xs - n + 1 = 1" "2 \<le> length xs + 1" by linarith+
      then have "(length xs - n + 1) div 2 = 0" "1 \<le> (length xs + 1) div 2" by simp_all
      then show ?thesis by linarith
    qed
    finally show ?thesis .
  qed
qed

lemma merge_groups_shrink:
  assumes "merge_groups X dir pass i (chunks (max fan_in 2) runs) w = (Inr next_runs, w')"
    and "\<not> length runs \<le> max fan_in 2"
  shows "length next_runs < length runs"
proof -
  have "length next_runs \<le> (length runs + 1) div 2"
    using merge_groups_length [OF assms(1)] chunks_length [of "max fan_in 2" runs] by simp
  moreover have "2 < length runs" using assms(2) by simp
  ultimately show ?thesis by linarith
qed

text \<open>
  The passes of \<open>cascade_and_stream\<close>. Its one caller passes \<open>fan_in.max(2)\<close>; the bound is
  repeated here, where the loop needs it to end.
\<close>

function cascade ::
    "('fs, 'h, 'k::linorder, 'v) ext \<Rightarrow> nat \<Rightarrow> path \<Rightarrow> u32 \<Rightarrow> path list \<Rightarrow> 'fs world
      \<Rightarrow> (fault + path list) \<times> 'fs world" where
  "cascade X fan_in dir pass runs w =
     (if length runs \<le> max fan_in 2 then (Inr runs, w)
      else case merge_groups X dir pass 0 (chunks (max fan_in 2) runs) w of
             (Inl e, w') \<Rightarrow> (Inl e, w')
           | (Inr next_runs, w') \<Rightarrow> cascade X fan_in dir (pass + 1) next_runs w')"
  by pat_completeness auto

termination
  by (relation "measure (\<lambda>(X, fan_in, dir, pass, runs, w). length runs)")
    (auto dest!: sym [of "(Inr _, _)"] dest: merge_groups_shrink)

declare cascade.simps [simp del]

end
