(* ===== verification/MergeSpec.thy ===== *)
theory MergeSpec
  imports Merge
begin

text \<open>
  What the merge of src/engine/merge.rs yields. The sources of a merge state stand for the
  lists of rows they have left; each row the merge emits is the next of their stable merge,
  so a merged file holds the stable sort of its inputs, earlier inputs first, and the
  cascade keeps the stable sort of all runs in order.
\<close>

section \<open>Sources and the rows they have left\<close>

fun source_at ::
    "('fs, 'h, 'k, 'v) ext \<Rightarrow> (path \<Rightarrow> u8 list option) \<Rightarrow> ('k, 'v) merge_source
      \<Rightarrow> ('k, 'v) run_row list \<Rightarrow> bool" where
  "source_at X files s [] \<longleftrightarrow> src_head s = None \<and> reading_run X files (src_reader s) []"
| "source_at X files s (r # rs) \<longleftrightarrow>
     (\<exists>row. src_head s = Some row \<and> stored row = r \<and> row_charge row \<noteq> None)
     \<and> reading_run X files (src_reader s) rs"

definition front :: "('k, 'v) run_row list list \<Rightarrow> nat \<Rightarrow> 'k heap_entry" where
  "front ls i = HeapEntry (row_key (hd (ls ! i))) i"

definition busy :: "'a list list \<Rightarrow> nat set" where
  "busy ls = {i. i < length ls \<and> ls ! i \<noteq> []}"

text \<open>The state of a merge over the runs at \<open>P\<close> whose sources have the rows \<open>ls\<close> left.\<close>

definition merge_at ::
    "('fs, 'h, 'k::linorder, 'v) ext \<Rightarrow> (path \<Rightarrow> u8 list option) \<Rightarrow> path set
      \<Rightarrow> ('k, 'v) merge_state \<Rightarrow> ('k, 'v) run_row list list \<Rightarrow> bool" where
  "merge_at X files P st ls \<longleftrightarrow>
     length (ms_sources st) = length ls
     \<and> (\<forall>i < length ls. source_at X files (ms_sources st ! i) (ls ! i)
          \<and> rd_path (src_reader (ms_sources st ! i)) \<in> P)
     \<and> sorted (ms_heap st) \<and> mset (ms_heap st) = image_mset (front ls) (mset_set (busy ls))
     \<and> (\<forall>l \<in> set ls. sorted (map row_key l))"

definition pending :: "('k::linorder, 'v) merge_state \<Rightarrow> ('k, 'v) run_row list list \<Rightarrow> ('k, 'v) run_row list" where
  "pending st ls =
     (if ms_dedup st then dedup_from row_key (map_option fst (ms_last st)) else (\<lambda>rs. rs))
       (sort_key row_key (concat ls))"

lemma finite_busy [simp]: "finite (busy ls)"
  by (simp add: busy_def)

lemma reading_run_elsewhere:
  "reading_run X files rd rows \<Longrightarrow> files' (rd_path rd) = files (rd_path rd) \<Longrightarrow> reading_run X files' rd rows"
  by (simp add: reading_run_def)

lemma source_at_elsewhere:
  "source_at X files s l \<Longrightarrow> files' (rd_path (src_reader s)) = files (rd_path (src_reader s)) \<Longrightarrow>
    source_at X files' s l"
  by (cases l) (auto intro: reading_run_elsewhere)

lemma merge_at_elsewhere:
  "merge_at X files P st ls \<Longrightarrow> (\<And>p. p \<in> P \<Longrightarrow> files' p = files p) \<Longrightarrow> merge_at X files' P st ls"
  by (auto simp: merge_at_def intro: source_at_elsewhere)

lemma source_at_charge [simp]:
  "source_at X files (s\<lparr>src_key_charge := c\<rparr>) l = source_at X files s l"
  by (cases l) simp_all

lemma source_head: "source_at X files s l \<Longrightarrow> src_head s = None \<longleftrightarrow> l = []"
  by (cases l) auto

section \<open>Taking a row\<close>

lemma busy_update:
  assumes "i < length ls"
  shows "busy (ls[i := l]) = (if l = [] then busy ls - {i} else insert i (busy ls))"
  using assms by (auto simp: busy_def nth_list_update split: if_splits)

lemma front_elsewhere: "j \<noteq> i \<Longrightarrow> front (ls[i := l]) j = front ls j"
  by (simp add: front_def)

lemma entries_without:
  assumes "i \<in> busy ls" and "mset q = image_mset (front ls) (mset_set (busy ls))"
    and "mset q = add_mset (front ls i) (mset q')"
  shows "mset q' = image_mset (front (ls[i := l])) (mset_set (busy ls - {i}))"
proof -
  have "mset_set (busy ls) = add_mset i (mset_set (busy ls - {i}))"
    using assms(1) by (simp add: mset_set.remove)
  then have "mset q' = image_mset (front ls) (mset_set (busy ls - {i}))"
    using assms(2,3) by simp
  also have "\<dots> = image_mset (front (ls[i := l])) (mset_set (busy ls - {i}))"
    by (rule image_mset_cong) (auto simp: front_elsewhere)
  finally show ?thesis .
qed

text \<open>The entry on top of the heap names the source the stable merge takes from.\<close>

lemma pop_front:
  assumes at: "merge_at X files P st ls" and pop: "heap_pop (ms_heap st) = Some (e, q)"
  obtains i r rs where "e = front ls i" "he_idx e = i" "i < length ls" "ls ! i = r # rs" "i \<in> busy ls"
    and "sort_key row_key (concat ls) = r # sort_key row_key (concat (ls[i := rs]))"
    and "sorted q" and "\<And>l. mset q = image_mset (front (ls[i := l])) (mset_set (busy ls - {i}))"
proof -
  have sorted: "sorted (ms_heap st)"
    and entries: "mset (ms_heap st) = image_mset (front ls) (mset_set (busy ls))"
    using at by (simp_all add: merge_at_def)
  have popped: "sorted q" "mset (ms_heap st) = add_mset e (mset q)"
    using heap.pop_Some [OF sorted pop] by simp_all
  then have "e \<in> front ls ` busy ls"
    using entries by (metis finite_set_mset_mset_set set_image_mset finite_busy union_single_eq_member)
  then obtain i where i: "i \<in> busy ls" "e = front ls i" by blast
  then obtain r rs where l: "i < length ls" "ls ! i = r # rs"
    by (auto simp: busy_def neq_Nil_conv)
  have least: "(row_key r, i) \<le> (row_key (hd (ls ! j)), j)" if "j < length ls" "ls ! j \<noteq> []" for j
  proof -
    have "front ls j \<in> set_mset (mset (ms_heap st))"
      using entries that by (simp add: busy_def)
    then have "e \<le> front ls j" by (rule heap.pop_least [OF sorted pop])
    then show ?thesis by (simp add: i(2) front_def less_eq_heap_entry_def l(2))
  qed
  have "sort_key row_key (concat ls) = r # sort_key row_key (concat (ls[i := rs]))"
    using at l least by (intro merge_step) (auto simp: merge_at_def)
  moreover have "mset q = image_mset (front (ls[i := l])) (mset_set (busy ls - {i}))" for l
    using i(1) entries popped(2)[unfolded i(2)] by (rule entries_without)
  ultimately show ?thesis
    using that [of i r rs] i l popped(1) by (simp add: front_def)
qed


text \<open>A state whose heap lacks the entry of source \<open>i\<close>.\<close>

definition merge_without ::
    "('fs, 'h, 'k::linorder, 'v) ext \<Rightarrow> (path \<Rightarrow> u8 list option) \<Rightarrow> path set \<Rightarrow> nat
      \<Rightarrow> ('k, 'v) merge_state \<Rightarrow> ('k, 'v) run_row list list \<Rightarrow> bool" where
  "merge_without X files P i st ls \<longleftrightarrow>
     i < length ls \<and> length (ms_sources st) = length ls
     \<and> (\<forall>j < length ls. source_at X files (ms_sources st ! j) (ls ! j)
          \<and> rd_path (src_reader (ms_sources st ! j)) \<in> P)
     \<and> sorted (ms_heap st)
     \<and> (\<forall>l. mset (ms_heap st) = image_mset (front (ls[i := l])) (mset_set (busy ls - {i})))
     \<and> (\<forall>l \<in> set ls. sorted (map row_key l))"

lemma take_head_spec:
  assumes L: "ext_laws X view hpath hpos" and run: "take_head X i (st, w) = (Inr row, (st', w'))"
    and at: "merge_without X (view (w_files w)) P i st ls" and l: "ls ! i = r # rs"
  shows "merge_without X (view (w_files w')) P i st' (ls[i := rs]) \<and> stored row = r
    \<and> row_charge row \<noteq> None \<and> view (w_files w') = view (w_files w)
    \<and> ms_dedup st' = ms_dedup st \<and> ms_last st' = ms_last st"
proof -
  let ?s = "ms_sources st ! i"
  have i: "i < length ls" "length (ms_sources st) = length ls"
    and src: "src_head ?s = Some row \<and> stored row = r \<and> row_charge row \<noteq> None"
      "reading_run X (view (w_files w)) (src_reader ?s) rs" "rd_path (src_reader ?s) \<in> P"
    using at l run by (auto simp: merge_without_def take_head_def Let_def
        split: option.splits prod.splits sum.splits)
  obtain head reader where
    read: "run_reader_next_row X (src_reader ?s) w = (Inr (head, reader), w')"
    and st': "st' = st\<lparr>ms_sources := (ms_sources st)[i := ?s\<lparr>src_head := head, src_reader := reader\<rparr>]\<rparr>"
    using run src by (auto simp: take_head_def Let_def split: prod.splits sum.splits)
  have step: "source_at X (view (w_files w')) (?s\<lparr>src_head := head, src_reader := reader\<rparr>) rs
    \<and> view (w_files w') = view (w_files w) \<and> rd_path reader \<in> P"
  proof (cases rs)
    case Nil
    then have "rd_remaining (src_reader ?s) = 0"
      using src(2) by (simp add: reading_run_def unat_eq_zero)
    then show ?thesis
      using read Nil src by (simp add: run_reader_next_row_None)
  next
    case (Cons r' rs')
    then show ?thesis
      using run_reader_next_row_Some [OF L read, of r' rs'] src(2,3) by auto
  qed
  have "sorted (map row_key (ls ! i))"
    using at i(1) by (simp add: merge_without_def)
  then have "sorted (map row_key rs)" by (simp add: l)
  moreover have "mset (ms_heap st) = image_mset (front (ls[i := k])) (mset_set (busy ls - {i}))" for k
    using at by (simp add: merge_without_def)
  ultimately show ?thesis
    using at i src(1) step
    by (auto simp: merge_without_def st' nth_list_update busy_update Diff_idemp
        dest!: set_update_subset_insert [THEN subsetD])
qed

lemma charge_key_spec:
  assumes run: "charge_key i row (st, w) = (Inr u, (st', w'))"
    and at: "merge_without X (view (w_files w)) P i st ls"
  shows "merge_at X (view (w_files w')) P st' ls \<and> view (w_files w') = view (w_files w)
    \<and> ms_dedup st' = ms_dedup st \<and> ms_last st' = ms_last st"
proof -
  let ?s = "ms_sources st ! i"
  have i: "i < length ls" "length (ms_sources st) = length ls"
    and src: "source_at X (view (w_files w)) ?s (ls ! i)"
    and entries: "mset (ms_heap st) = image_mset (front ls) (mset_set (busy ls - {i}))"
    using at spec [of "\<lambda>l. mset (ms_heap st) = image_mset (front (ls[i := l])) (mset_set (busy ls - {i}))" "ls ! i"]
    by (simp_all add: merge_without_def)
  show ?thesis
  proof (cases "src_head ?s")
    case None
    then have "busy ls - {i} = busy ls"
      using source_head [OF src] by (auto simp: busy_def)
    then show ?thesis
      using run None at entries by (simp add: charge_key_def Let_def merge_at_def merge_without_def)
  next
    case (Some head)
    then obtain rs where l: "ls ! i = stored head # rs"
      using src by (cases "ls ! i") auto
    then have "i \<in> busy ls" by (simp add: busy_def i)
    then have "mset_set (busy ls) = add_mset i (mset_set (busy ls - {i}))"
      by (simp add: mset_set.remove)
    then have all: "add_mset (HeapEntry (row_key head) i) (mset (ms_heap st))
        = image_mset (front ls) (mset_set (busy ls))"
      using entries by (simp add: front_def l)
    obtain charge where res: "reserve (row_retained head) w = (Inr charge, w')"
      and st': "st' = st\<lparr>ms_sources := (ms_sources st)[i := ?s\<lparr>src_key_charge := Some charge\<rparr>],
        ms_heap := heap_push (HeapEntry (row_key head) i) (ms_heap st)\<rparr>"
      using run Some by (auto simp: charge_key_def Let_def split: prod.splits sum.splits)
    have "sorted (ms_heap st')" "mset (ms_heap st') = image_mset (front ls) (mset_set (busy ls))"
      using at all by (simp_all add: st' merge_without_def heap.valid_push heap.entries_push)
    then show ?thesis
      using at files_reserve [OF res]
      by (auto simp: merge_at_def merge_without_def st' nth_list_update)
  qed
qed


lemma emit_or_skip_spec:
  assumes "emit_or_skip row (st, w) = (Inr t, (st', w'))"
  shows "ms_sources st' = ms_sources st \<and> ms_heap st' = ms_heap st \<and> w_files w' = w_files w
    \<and> ms_dedup st' = ms_dedup st
    \<and> (if ms_dedup st \<and> map_option fst (ms_last st) = Some (row_key row)
       then t = Continue \<and> ms_last st' = ms_last st
       else t = Return (Some row)
         \<and> map_option fst (ms_last st') =
           (if ms_dedup st then Some (row_key row) else map_option fst (ms_last st)))"
  using assms
  by (auto simp: emit_or_skip_def files_reserve split: if_splits prod.splits sum.splits)

lemma merge_turn_spec:
  assumes L: "ext_laws X view hpath hpos" and run: "merge_turn X (st, w) = (Inr t, (st', w'))"
    and at: "merge_at X (view (w_files w)) P st ls"
  shows "\<exists>ls'. merge_at X (view (w_files w')) P st' ls' \<and> view (w_files w') = view (w_files w) \<and>
    (case t of
       Return None \<Rightarrow> pending st ls = [] \<and> ls' = ls \<and> st' = st
     | Return (Some row) \<Rightarrow> pending st ls = stored row # pending st' ls' \<and> row_charge row \<noteq> None
     | Continue \<Rightarrow> pending st ls = pending st' ls')"
proof (cases "heap_pop (ms_heap st)")
  case None
  have "sorted (ms_heap st)" and entries: "mset (ms_heap st) = image_mset (front ls) (mset_set (busy ls))"
    using at by (simp_all add: merge_at_def)
  then have "busy ls = {}"
    using heap.pop_None [of "ms_heap st"] None by (simp add: mset_set_empty_iff)
  then have none: "concat ls = []"
    by (auto simp: busy_def in_set_conv_nth)
  show ?thesis
    using run None at by (auto simp: merge_turn_def pending_def none simp del: concat_eq_Nil_conv)
next
  case (Some eq)
  obtain e q where pop: "heap_pop (ms_heap st) = Some (e, q)"
    using Some by (cases eq) auto
  obtain i r rs where e: "he_idx e = i" "i < length ls" "ls ! i = r # rs"
    and next_row: "sort_key row_key (concat ls) = r # sort_key row_key (concat (ls[i := rs]))"
    and q: "sorted q" "\<And>l. mset q = image_mset (front (ls[i := l])) (mset_set (busy ls - {i}))"
    using pop_front [OF at pop] by metis
  let ?s = "ms_sources st ! i"
  define st2 where
    "st2 = st\<lparr>ms_heap := q, ms_sources := (ms_sources st)[i := ?s\<lparr>src_key_charge := None\<rparr>]\<rparr>"
  obtain row st3 w3 st4 w4 where
    1: "take_head X i (st2, release_opt (src_key_charge ?s) w) = (Inr row, (st3, w3))"
    and 2: "charge_key i row (st3, w3) = (Inr (), (st4, w4))"
    and 3: "emit_or_skip row (st4, w4) = (Inr t, (st', w'))"
    using run pop e(1,2) at
    by (auto simp: merge_turn_def Let_def act_ok st2_def merge_at_def)
  have "merge_without X (view (w_files w)) P i st2 ls"
    using at e q by (auto simp: merge_without_def merge_at_def st2_def nth_list_update)
  then have 4: "merge_without X (view (w_files w3)) P i st3 (ls[i := rs])" "stored row = r"
    "row_charge row \<noteq> None" "view (w_files w3) = view (w_files w)"
    "ms_dedup st3 = ms_dedup st" "ms_last st3 = ms_last st"
    using take_head_spec [OF L 1, of P ls r rs] e(3) by (auto simp: st2_def)
  have 5: "merge_at X (view (w_files w4)) P st4 (ls[i := rs])" "view (w_files w4) = view (w_files w)"
    "ms_dedup st4 = ms_dedup st" "ms_last st4 = ms_last st"
    using charge_key_spec [OF 2, of X view P "ls[i := rs]"] 4 by auto
  note 6 = emit_or_skip_spec [OF 3]
  have "merge_at X (view (w_files w')) P st' (ls[i := rs])"
    using 5(1) 6 by (simp add: merge_at_def)
  moreover have "row_key row = row_key r" using 4(2) by auto
  ultimately show ?thesis
    using 4(2,3) 5 6 next_row
    by (intro exI [of _ "ls[i := rs]"]) (auto simp: pending_def split: if_splits)
qed

text \<open>One call of \<open>next_row\<close>: the next of the rows due, or the end when none is due.\<close>

lemma merge_next_spec:
  "ext_laws X view hpath hpos \<Longrightarrow> merge_next X s = (Inr out, s') \<Longrightarrow> merge_at X (view (w_files (snd s))) P (fst s) ls \<Longrightarrow>
    \<exists>ls'. merge_at X (view (w_files (snd s'))) P (fst s') ls'
      \<and> view (w_files (snd s')) = view (w_files (snd s)) \<and>
      (case out of
         None \<Rightarrow> pending (fst s) ls = []
       | Some row \<Rightarrow> pending (fst s) ls = stored row # pending (fst s') ls' \<and> row_charge row \<noteq> None)"
proof (induction X s arbitrary: ls rule: merge_next.induct)
  case (1 X s)
  note L = 1(2)
  obtain st w where s: "s = (st, w)" by fastforce
  obtain t st1 w1 where turn: "merge_turn X (st, w) = (Inr t, (st1, w1))"
    and rest: "(case t of Return r \<Rightarrow> (Inr r, (st1, w1)) | Continue \<Rightarrow> merge_next X (st1, w1))
      = (Inr out, s')"
    using 1(3) s by (subst (asm) merge_next.simps) (auto split: prod.splits sum.splits)
  obtain ls1 where step: "merge_at X (view (w_files w1)) P st1 ls1"
    "view (w_files w1) = view (w_files w)"
    "(case t of
       Return None \<Rightarrow> pending st ls = [] \<and> ls1 = ls \<and> st1 = st
     | Return (Some row) \<Rightarrow> pending st ls = stored row # pending st1 ls1 \<and> row_charge row \<noteq> None
     | Continue \<Rightarrow> pending st ls = pending st1 ls1)"
    using merge_turn_spec [OF L turn, of P ls] 1(4) s by atomize_elim auto
  show ?case
  proof (cases t)
    case (Return r)
    then show ?thesis
      using rest step s by (intro exI [of _ ls1]) (auto split: option.splits)
  next
    case Continue
    then show ?thesis
      using 1(1) [OF turn [symmetric, folded s] refl Continue L, of ls1] rest step s
      by (auto split: option.splits)
  qed
qed

section \<open>Opening\<close>

text \<open>Complete runs at the paths, each sorted by key.\<close>

definition holds_runs ::
    "('fs, 'h, 'k::linorder, 'v) ext \<Rightarrow> (path \<Rightarrow> u8 list option) \<Rightarrow> path list
      \<Rightarrow> ('k, 'v) run_row list list \<Rightarrow> bool" where
  "holds_runs X files =
     list_all2 (\<lambda>p l. holds_run X files p l \<and> sorted (map row_key l))"

lemma holds_runs_simps [simp]:
  "holds_runs X files [] ls \<longleftrightarrow> ls = []"
  "holds_runs X files (p # ps) ls \<longleftrightarrow>
     (\<exists>l ls'. ls = l # ls' \<and> holds_run X files p l \<and> sorted (map row_key l) \<and> holds_runs X files ps ls')"
  by (auto simp: holds_runs_def list_all2_Cons1)

lemma holds_runs_append:
  "holds_runs X files (ps @ qs) ls \<longleftrightarrow>
     (\<exists>l m. ls = l @ m \<and> holds_runs X files ps l \<and> holds_runs X files qs m)"
proof (induction ps arbitrary: ls)
  case Nil
  then show ?case by auto
next
  case (Cons p ps)
  then show ?case by (cases ls) (auto simp: Cons_eq_append_conv)
qed

lemma holds_runs_elsewhere:
  "holds_runs X files ps ls \<Longrightarrow> (\<And>p. p \<in> set ps \<Longrightarrow> files' p = files p) \<Longrightarrow> holds_runs X files' ps ls"
  by (auto simp: holds_runs_def holds_run_def list_all2_conv_all_nth)

lemma merge_source_open_spec:
  assumes L: "ext_laws X view hpath hpos" and run: "merge_source_open X p w = (Inr out, w')"
    and at: "holds_run X (view (w_files w)) p l"
  shows "view (w_files w') = view (w_files w) \<and>
    (case out of None \<Rightarrow> l = []
     | Some s \<Rightarrow> l \<noteq> [] \<and> source_at X (view (w_files w)) s l \<and> rd_path (src_reader s) = p
         \<and> src_key_charge s = None)"
proof -
  obtain rd w1 r rd' where 1: "run_reader_open X p w = (Inr rd, w1)"
    and 2: "run_reader_next_row X rd w1 = (Inr (r, rd'), w')"
    and out: "out = (case r of None \<Rightarrow> None
      | Some head \<Rightarrow> Some \<lparr>src_head = Some head, src_reader = rd', src_key_charge = None\<rparr>)"
    using run by (auto simp: merge_source_open_def act_ok split: option.splits)
  note opened = run_reader_open_spec [OF L 1 at]
  show ?thesis
  proof (cases l)
    case Nil
    then have "rd_remaining rd = 0"
      using opened by (auto simp: reading_run_def unat_eq_zero)
    then show ?thesis
      using 2 out opened Nil by (simp add: run_reader_next_row_None)
  next
    case (Cons r' rs)
    then show ?thesis
      using run_reader_next_row_Some [OF L 2, of r' rs] opened out by auto
  qed
qed

lemma busy_snoc: "busy (ls @ [l]) = (if l = [] then busy ls else insert (length ls) (busy ls))"
  by (auto simp: busy_def nth_append less_Suc_eq split: if_splits)

lemma front_snoc: "i < length ls \<Longrightarrow> front (ls @ [l]) i = front ls i"
  by (simp add: front_def nth_append)

lemma merge_at_snoc:
  assumes at: "merge_at X files P st ls" and src: "source_at X files s (r # rs)"
    and path: "rd_path (src_reader s) \<in> P" and sorted: "sorted (map row_key (r # rs))"
  shows "merge_at X files P
    (st\<lparr>ms_sources := ms_sources st @ [s\<lparr>src_key_charge := c\<rparr>],
        ms_heap := heap_push (HeapEntry (row_key r) (length ls)) (ms_heap st)\<rparr>) (ls @ [r # rs])"
proof -
  let ?m = "ls @ [r # rs]"
  have "length ls \<notin> busy ls" by (simp add: busy_def)
  then have "image_mset (front ?m) (mset_set (busy ?m))
      = add_mset (front ?m (length ls)) (image_mset (front ?m) (mset_set (busy ls)))"
    by (simp add: busy_snoc)
  also have "image_mset (front ?m) (mset_set (busy ls)) = image_mset (front ls) (mset_set (busy ls))"
    by (rule image_mset_cong) (simp add: front_snoc busy_def)
  finally have "image_mset (front ?m) (mset_set (busy ?m))
      = add_mset (front ?m (length ls)) (mset (ms_heap st))"
    using at by (simp add: merge_at_def)
  moreover have "front ?m (length ls) = HeapEntry (row_key r) (length ls)"
    by (simp add: front_def)
  ultimately have "image_mset (front ?m) (mset_set (busy ?m))
      = add_mset (HeapEntry (row_key r) (length ls)) (mset (ms_heap st))"
    by simp
  then show ?thesis
    using at src path sorted
    by (auto simp: merge_at_def heap.valid_push heap.entries_push nth_append less_Suc_eq)
qed

lemma merge_open_paths_spec:
  assumes L: "ext_laws X view hpath hpos"
  shows "merge_open_paths X ps st w = (Inr st', w') \<Longrightarrow> merge_at X (view (w_files w)) P st ls \<Longrightarrow>
    holds_runs X (view (w_files w)) ps ms \<Longrightarrow> set ps \<subseteq> P \<Longrightarrow>
    merge_at X (view (w_files w')) P st' (ls @ filter (\<lambda>l. l \<noteq> []) ms)
    \<and> view (w_files w') = view (w_files w) \<and> ms_dedup st' = ms_dedup st \<and> ms_last st' = ms_last st"
proof (induction ps arbitrary: st w ls ms)
  case Nil
  then show ?case by (simp add: act_ok)
next
  case (Cons p ps)
  obtain l ms' where ms: "ms = l # ms'" "holds_run X (view (w_files w)) p l" "sorted (map row_key l)"
    "holds_runs X (view (w_files w)) ps ms'"
    using Cons.prems(3) by auto
  obtain src w1 where src: "merge_source_open X p w = (Inr src, w1)"
    and rest: "(case src of
       None \<Rightarrow> merge_open_paths X ps st
     | Some source \<Rightarrow>
           let idx = length (ms_sources st)
           in case src_head source of
                Some head \<Rightarrow>
                  attempt (\<lambda>w. merge_state_drop st (source_drop source w))
                    (reserve (row_retained head)) (\<lambda>charge.
                  merge_open_paths X ps
                    (st\<lparr>ms_sources := ms_sources st @ [source\<lparr>src_key_charge := Some charge\<rparr>],
                        ms_heap := heap_push (HeapEntry (row_key head) idx) (ms_heap st)\<rparr>))
              | None \<Rightarrow> merge_open_paths X ps (st\<lparr>ms_sources := ms_sources st @ [source]\<rparr>)) w1
      = (Inr st', w')"
    using Cons.prems(1) unfolding merge_open_paths.simps attempt_ok by blast
  note opened = merge_source_open_spec [OF L src ms(2)]
  show ?case
  proof (cases src)
    case None
    then show ?thesis
      using rest Cons.IH [of st w1 ls ms'] opened ms Cons.prems by auto
  next
    case (Some s)
    then obtain r rs head where l: "l = r # rs" "src_head s = Some head" "stored head = r"
      and s: "source_at X (view (w_files w)) s (r # rs)" "rd_path (src_reader s) = p"
      using opened by (cases l) auto
    have idx: "length (ms_sources st) = length ls"
      using Cons.prems(2) by (simp add: merge_at_def)
    have key: "row_key head = row_key r" using l(3) by auto
    obtain charge w2 where res: "reserve (row_retained head) w1 = (Inr charge, w2)"
      and more: "merge_open_paths X ps
        (st\<lparr>ms_sources := ms_sources st @ [s\<lparr>src_key_charge := Some charge\<rparr>],
            ms_heap := heap_push (HeapEntry (row_key r) (length ls)) (ms_heap st)\<rparr>) w2 = (Inr st', w')"
      using rest Some l by (auto simp: act_ok Let_def idx key)
    have v: "view (w_files w2) = view (w_files w)"
      using opened files_reserve [OF res] by simp
    have "merge_at X (view (w_files w2)) P
        (st\<lparr>ms_sources := ms_sources st @ [s\<lparr>src_key_charge := Some charge\<rparr>],
            ms_heap := heap_push (HeapEntry (row_key r) (length ls)) (ms_heap st)\<rparr>) (ls @ [r # rs])"
      unfolding v using Cons.prems(2,4) s ms(3) l(1) by (intro merge_at_snoc) auto
    then show ?thesis
      using Cons.IH [OF more _ _ _, of "ls @ [r # rs]" ms'] ms l Cons.prems v by auto
  qed
qed

lemma merge_state_open_spec:
  assumes L: "ext_laws X view hpath hpos" and run: "merge_state_open X ps dedup w = (Inr st, w')"
    and at: "holds_runs X (view (w_files w)) ps ms"
  shows "\<exists>ls. merge_at X (view (w_files w')) (set ps) st ls \<and> view (w_files w') = view (w_files w)
    \<and> pending st ls = sorted_rows dedup row_key (concat ms)"
proof -
  obtain st0 w1 where new: "merge_state_new X (of_nat (length ps)) dedup w = (Inr st0, w1)"
    and paths: "merge_open_paths X ps st0 w1 = (Inr st, w')"
    using run by (auto simp: merge_state_open_def act_ok)
  have st0: "ms_sources st0 = []" "ms_heap st0 = []" "ms_dedup st0 = dedup" "ms_last st0 = None"
    and w1: "w_files w1 = w_files w"
    using new by (auto simp: merge_state_new_def act_ok files_reserve split: if_splits)
  have "merge_at X (view (w_files w1)) (set ps) st0 []"
    by (simp add: merge_at_def st0 busy_def)
  then have "merge_at X (view (w_files w')) (set ps) st (filter (\<lambda>l. l \<noteq> []) ms)
    \<and> view (w_files w') = view (w_files w) \<and> ms_dedup st = dedup \<and> ms_last st = None"
    using merge_open_paths_spec [OF L paths, of "set ps" "[]" ms] at w1 st0 by auto
  moreover have "concat (filter (\<lambda>l. l \<noteq> []) ms) = concat ms"
    by (induction ms) auto
  ultimately show ?thesis
    by (intro exI [of _ "filter (\<lambda>l. l \<noteq> []) ms"]) (auto simp: pending_def sorted_rows_def)
qed

section \<open>Merging a group\<close>

lemma copy_rows_spec:
  "ext_laws X view hpath hpos \<Longrightarrow> copy_rows X wr s = (Inr wr', s') \<Longrightarrow>
    merge_at X (view (w_files (snd s))) P (fst s) ls \<Longrightarrow>
    writing_run X (view (w_files (snd s))) wr rows \<Longrightarrow> rw_path wr \<notin> P \<Longrightarrow>
    writing_run X (view (w_files (snd s'))) wr' (rows @ pending (fst s) ls) \<and> rw_path wr' = rw_path wr
    \<and> only_at (rw_path wr) (view (w_files (snd s))) (view (w_files (snd s')))"
proof (induction X wr s arbitrary: ls rows rule: copy_rows.induct)
  case (1 X wr s)
  note L = 1(2) and at = 1(4) and writing = 1(5) and apart = 1(6)
  obtain out st w where row: "merge_next X s = (Inr out, (st, w))"
    and rest: "(case out of
             None \<Rightarrow> (Inr wr, (st, w))
           | Some row \<Rightarrow>
               (case run_writer_write_row X wr row w of
                  (Inl e, w') \<Rightarrow> (Inl e, (st, row_drop row w'))
                | (Inr wr', w') \<Rightarrow> copy_rows X wr' (st, row_drop row w'))) = (Inr wr', s')"
    using 1(3) by (subst (asm) copy_rows.simps) (auto split: prod.splits sum.splits)
  obtain ls' where step: "merge_at X (view (w_files w)) P st ls'"
    "view (w_files w) = view (w_files (snd s))"
    "case out of None \<Rightarrow> pending (fst s) ls = []
      | Some row \<Rightarrow> pending (fst s) ls = stored row # pending st ls' \<and> row_charge row \<noteq> None"
    using merge_next_spec [OF L row at] unfolding fst_conv snd_conv by blast
  show ?case
  proof (cases out)
    case None
    then show ?thesis using rest step writing by (auto simp: only_at_def)
  next
    case (Some r)
    then obtain wr1 w1 where put: "run_writer_write_row X wr r w = (Inr wr1, w1)"
      and more: "copy_rows X wr1 (st, row_drop r w1) = (Inr wr', s')"
      using rest by (auto split: prod.splits sum.splits)
    have put': "writing_run X (view (w_files w1)) wr1 (rows @ [stored r]) \<and> rw_path wr1 = rw_path wr
        \<and> only_at (rw_path wr) (view (w_files w)) (view (w_files w1))"
      using writing_row [OF L put] writing step(2) by simp
    have "merge_at X (view (w_files w1)) P st ls'"
      by (rule merge_at_elsewhere [OF step(1)]) (use put' apart in \<open>metis only_at_def\<close>)
    then show ?thesis
      using 1(1) [OF row [symmetric] refl refl Some put [symmetric] refl L more, of ls' "rows @ [stored r]"]
        put' apart step Some
      by (auto intro: only_at_trans)
  qed
qed

lemma remove_all_spec:
  assumes L: "ext_laws X view hpath hpos"
  shows "remove_all X ps w = (Inr u, w') \<Longrightarrow>
    \<forall>q. view (w_files w') q = (if q \<in> set ps then None else view (w_files w) q)"
proof (induction ps arbitrary: w)
  case Nil
  then show ?case by (simp add: act_ok)
next
  case (Cons p ps)
  then obtain v where rm: "fs_remove_if_exists X p (w_files w) = (Inr (), w_files v)"
    and rest: "remove_all X ps v = (Inr u, w')"
    by (auto simp: act_ok dest!: awaited_ok)
  have "view (w_files v) = (view (w_files w))(p := None)"
    using L rm by (simp add: ext_laws_def dir_laws_def)
  then show ?case
    using Cons.IH [OF rest] by simp
qed

lemma files_source_drop [simp]: "w_files (source_drop s w) = w_files w"
  by (simp add: source_drop_def split: option.splits)

lemma files_sources_drop [simp]: "w_files (sources_drop ss w) = w_files w"
  unfolding sources_drop_def by (induction ss arbitrary: w) simp_all

lemma files_merge_drop [simp]: "w_files (merge_state_drop st w) = w_files w"
  by (simp add: merge_state_drop_def)

lemma owning_ok [act_ok]:
  "owning d st m w = (Inr y, w') \<longleftrightarrow> m (st, w) = (Inr (fst y), (snd y, w'))"
  by (cases y) (auto simp: owning_def split: prod.splits sum.splits)

lemma merge_group_spec:
  assumes L: "ext_laws X view hpath hpos"
    and run: "merge_group_to_file X ps out dedup w = (Inr q, w')"
    and at: "holds_runs X (view (w_files w)) ps ms" and apart: "out \<notin> set ps"
  shows "q = out \<and> holds_run X (view (w_files w')) out (sorted_rows dedup row_key (concat ms))
    \<and> (\<forall>p. p \<notin> insert out (set ps) \<longrightarrow> view (w_files w') p = view (w_files w) p)
    \<and> (\<forall>p \<in> set ps. view (w_files w') p = None)"
proof -
  obtain st w1 wr w2 wr' st' w3 w4 where
    1: "merge_state_open X ps dedup w = (Inr st, w1)"
    and 2: "run_writer_create X out w1 = (Inr wr, w2)"
    and 3: "copy_rows X wr (st, w2) = (Inr wr', (st', w3))"
    and 4: "run_writer_finish X wr' w3 = (Inr q, w4)"
    and 5: "remove_all X ps (merge_state_drop st' w4) = (Inr (), w')"
    using run
    by (auto simp: merge_group_to_file_def act_ok)
  obtain ls where st: "merge_at X (view (w_files w1)) (set ps) st ls"
    "view (w_files w1) = view (w_files w)" "pending st ls = sorted_rows dedup row_key (concat ms)"
    using merge_state_open_spec [OF L 1 at] by blast
  have wr: "writing_run X (view (w_files w2)) wr []" "rw_path wr = out"
    "only_at out (view (w_files w1)) (view (w_files w2))"
    using writing_create [OF L 2] by simp_all
  have "merge_at X (view (w_files w2)) (set ps) st ls"
    using st(1) wr(3) apart by (auto simp: only_at_def intro: merge_at_elsewhere)
  then have copied: "writing_run X (view (w_files w3)) wr' (sorted_rows dedup row_key (concat ms))"
    "rw_path wr' = out" "only_at out (view (w_files w2)) (view (w_files w3))"
    using copy_rows_spec [OF L 3, of "set ps" ls "[]"] wr st(3) apart by auto
  have finished: "holds_run X (view (w_files w4)) out (sorted_rows dedup row_key (concat ms))" "q = out"
    "only_at out (view (w_files w3)) (view (w_files w4))"
    using writing_finish [OF L 4 copied(1)] copied(2) by auto
  have removed: "view (w_files w') p = (if p \<in> set ps then None else view (w_files w4) p)" for p
    using remove_all_spec [OF L 5] by simp
  have "holds_run X (view (w_files w')) out (sorted_rows dedup row_key (concat ms))"
    using finished(1) apart by (simp add: holds_run_def removed)
  then show ?thesis
    using finished(2,3) copied(3) wr(3) st(2) removed by (auto simp: only_at_def)
qed

section \<open>The cascade\<close>

definition merge_names :: "path \<Rightarrow> nat \<Rightarrow> nat \<Rightarrow> path set" where
  "merge_names dir pass i = (\<lambda>j. join dir (merge_name pass j)) ` {i..}"

lemma merge_names_Suc:
  "merge_names dir pass i = insert (join dir (merge_name pass i)) (merge_names dir pass (Suc i))"
  by (auto simp: merge_names_def atLeast_Suc)

lemma merge_names_fresh: "join dir (merge_name pass i) \<notin> merge_names dir pass (Suc i)"
  by (auto simp: merge_names_def)

text \<open>One group: a single run is kept, more are merged into a file of their own.\<close>

lemma merge_one_spec:
  assumes L: "ext_laws X view hpath hpos"
    and run: "(if length g = 1 then ret (hd g) else merge_group_to_file X g out False) w = (Inr q, w')"
    and at: "holds_runs X (view (w_files w)) g ls" and apart: "out \<notin> set g"
  shows "\<exists>l. holds_runs X (view (w_files w')) [q] [l] \<and> sort_key row_key l = sort_key row_key (concat ls)
    \<and> q \<in> insert out (set g)
    \<and> (\<forall>p. p \<notin> insert out (set g) \<longrightarrow> view (w_files w') p = view (w_files w) p)"
proof (cases "length g = 1")
  case True
  then obtain p where "g = [p]" by (auto simp: length_Suc_conv)
  then show ?thesis using run at by (auto simp: act_ok)
next
  case False
  then show ?thesis
    using merge_group_spec [OF L _ at apart, of False] run
    by (intro exI [of _ "sort_key row_key (concat ls)"]) (auto simp: sorted_rows_def sort_key_sorted)
qed

lemma sort_key_append_cong:
  assumes "sort_key f xs = sort_key f xs'" and "sort_key f ys = sort_key f ys'"
  shows "sort_key f (xs @ ys) = sort_key f (xs' @ ys')"
  using assms by (metis sort_key_append)

lemma merge_groups_spec:
  assumes L: "ext_laws X view hpath hpos"
  shows "merge_groups X dir pass i gs w = (Inr ps, w') \<Longrightarrow>
    holds_runs X (view (w_files w)) (concat gs) ls \<Longrightarrow> distinct (concat gs) \<Longrightarrow>
    merge_names dir (unat pass) i \<inter> set (concat gs) = {} \<Longrightarrow>
    \<exists>ls'. holds_runs X (view (w_files w')) ps ls'
      \<and> sort_key row_key (concat ls') = sort_key row_key (concat ls)
      \<and> distinct ps \<and> set ps \<subseteq> set (concat gs) \<union> merge_names dir (unat pass) i
      \<and> (\<forall>p. p \<notin> set (concat gs) \<union> merge_names dir (unat pass) i \<longrightarrow>
           view (w_files w') p = view (w_files w) p)"
proof (induction gs arbitrary: i w ps ls)
  case Nil
  then show ?case by (auto simp: act_ok)
next
  case (Cons g gs)
  let ?out = "join dir (merge_name (unat pass) i)"
  obtain l m where ls: "ls = l @ m" "holds_runs X (view (w_files w)) g l"
    "holds_runs X (view (w_files w)) (concat gs) m"
    using Cons.prems(2) by (auto simp: holds_runs_append)
  obtain q w1 qs where one: "(if length g = 1 then ret (hd g) else merge_group_to_file X g ?out False) w
      = (Inr q, w1)"
    and rest: "merge_groups X dir pass (Suc i) gs w1 = (Inr qs, w')" and ps: "ps = q # qs"
    using Cons.prems(1) by (auto simp: act_ok)
  have fresh: "?out \<notin> set g" "?out \<notin> set (concat gs)"
    "merge_names dir (unat pass) (Suc i) \<inter> set (concat gs) = {}"
    "merge_names dir (unat pass) (Suc i) \<inter> set g = {}"
    using Cons.prems(4) by (auto simp: merge_names_Suc [of dir "unat pass" i])
  obtain l1 where q: "holds_runs X (view (w_files w1)) [q] [l1]"
    "sort_key row_key l1 = sort_key row_key (concat l)" "q \<in> insert ?out (set g)"
    "\<And>p. p \<notin> insert ?out (set g) \<Longrightarrow> view (w_files w1) p = view (w_files w) p"
    using merge_one_spec [OF L one ls(2) fresh(1)] by blast
  have held: "holds_runs X (view (w_files w1)) (concat gs) m"
    using ls(3) by (rule holds_runs_elsewhere) (use Cons.prems(3) fresh in \<open>auto intro!: q(4)\<close>)
  have "distinct (concat gs)" using Cons.prems(3) by simp
  then obtain m' where qs: "holds_runs X (view (w_files w')) qs m'"
    "sort_key row_key (concat m') = sort_key row_key (concat m)" "distinct qs"
    "set qs \<subseteq> set (concat gs) \<union> merge_names dir (unat pass) (Suc i)"
    "\<And>p. p \<notin> set (concat gs) \<union> merge_names dir (unat pass) (Suc i) \<Longrightarrow>
       view (w_files w') p = view (w_files w1) p"
    using Cons.IH [OF rest held _ fresh(3)] by blast
  have q_out: "q \<notin> set (concat gs) \<union> merge_names dir (unat pass) (Suc i)"
    using q(3) fresh Cons.prems(3) merge_names_fresh [of dir "unat pass" i] by auto
  then have "holds_runs X (view (w_files w')) [q] [l1]"
    using qs(5) [of q] by (intro holds_runs_elsewhere [OF q(1)]) simp
  then have "holds_runs X (view (w_files w')) ps (l1 # m')"
    using qs(1) ps by simp
  moreover have "sort_key row_key (concat (l1 # m')) = sort_key row_key (concat ls)"
    using sort_key_append_cong [OF q(2) qs(2)] ls(1) by simp
  moreover have "distinct ps" "set ps \<subseteq> set (concat (g # gs)) \<union> merge_names dir (unat pass) i"
    using q_out qs(3,4) q(3) ps by (auto simp: merge_names_Suc [of dir "unat pass" i])
  moreover have "view (w_files w') p = view (w_files w) p"
    if "p \<notin> set (concat (g # gs)) \<union> merge_names dir (unat pass) i" for p
    using that qs(5) [of p] q(4) [of p] by (auto simp: merge_names_Suc [of dir "unat pass" i])
  ultimately show ?case by blast
qed

lemma concat_chunks: "0 < n \<Longrightarrow> concat (chunks n xs) = xs"
  by (induction n xs rule: chunks.induct) (subst chunks.simps, auto)

lemma cascade_spec:
  assumes L: "ext_laws X view hpath hpos"
  shows "cascade X fan_in dir pass runs w = (Inr out, w') \<Longrightarrow>
    holds_runs X (view (w_files w)) runs ls \<Longrightarrow> distinct runs \<Longrightarrow>
    (\<And>n. unat pass \<le> n \<Longrightarrow> merge_names dir n 0 \<inter> set runs = {}) \<Longrightarrow>
    unat pass + length runs < 2 ^ 32 \<Longrightarrow>
    \<exists>ls'. holds_runs X (view (w_files w')) out ls'
      \<and> sort_key row_key (concat ls') = sort_key row_key (concat ls) \<and> length out \<le> max fan_in 2"
proof (induction "length runs" arbitrary: pass runs w ls rule: less_induct)
  case less
  show ?case
  proof (cases "length runs \<le> max fan_in 2")
    case True
    then show ?thesis
      using less.prems(1,2) by (subst (asm) cascade.simps) auto
  next
    case False
    let ?c = "chunks (max fan_in 2) runs"
    obtain next_runs w1 where groups: "merge_groups X dir pass 0 ?c w = (Inr next_runs, w1)"
      and rest: "cascade X fan_in dir (pass + 1) next_runs w1 = (Inr out, w')"
      using less.prems(1) False by (subst (asm) cascade.simps) (auto split: prod.splits sum.splits)
    have chunks: "concat ?c = runs" by (rule concat_chunks) simp
    obtain ls1 where ls1: "holds_runs X (view (w_files w1)) next_runs ls1"
      "sort_key row_key (concat ls1) = sort_key row_key (concat ls)" "distinct next_runs"
      "set next_runs \<subseteq> set runs \<union> merge_names dir (unat pass) 0"
      using merge_groups_spec [OF L groups, of ls] less.prems(2,3,4) unfolding chunks by blast
    have shorter: "length next_runs < length runs"
      by (rule merge_groups_shrink [OF groups False])
    have pass: "unat (pass + 1) = Suc (unat pass)"
      using less.prems(5) False by (simp add: unat_word_ariths)
    have "merge_names dir n 0 \<inter> set next_runs = {}" if "unat (pass + 1) \<le> n" for n
    proof -
      have "merge_names dir n 0 \<inter> merge_names dir (unat pass) 0 = {}"
        using that pass by (auto simp: merge_names_def)
      moreover have "merge_names dir n 0 \<inter> set runs = {}"
        using less.prems(4) that pass by simp
      ultimately show ?thesis using ls1(4) by blast
    qed
    then show ?thesis
      using less.hyps [OF shorter rest ls1(1,3)] ls1(2) shorter pass less.prems(5) by auto
  qed
qed

text \<open>After the cascade the last merge emits the stable order of all runs, collapsed on demand.\<close>

lemma cascade_merge_spec:
  assumes L: "ext_laws X view hpath hpos"
    and cascade: "cascade X fan_in dir 0 runs w = (Inr out, w1)"
    and opened: "merge_state_open X out dedup w1 = (Inr st, w2)"
    and at: "holds_runs X (view (w_files w)) runs ls" "distinct runs" "length runs < 2 ^ 32"
    and fresh: "\<And>n i. join dir (merge_name n i) \<notin> set runs"
  shows "\<exists>ls'. merge_at X (view (w_files w2)) (set out) st ls'
    \<and> pending st ls' = sorted_rows dedup row_key (concat ls)"
proof -
  have "merge_names dir n 0 \<inter> set runs = {}" for n
    using fresh by (auto simp: merge_names_def)
  then obtain ls1 where ls1: "holds_runs X (view (w_files w1)) out ls1"
    "sort_key row_key (concat ls1) = sort_key row_key (concat ls)"
    using cascade_spec [OF L cascade at(1,2)] at(3) by auto
  obtain ls2 where "merge_at X (view (w_files w2)) (set out) st ls2"
    "pending st ls2 = sorted_rows dedup row_key (concat ls1)"
    using merge_state_open_spec [OF L opened ls1(1)] by blast
  then show ?thesis
    using ls1(2) by (intro exI [of _ ls2]) (simp add: sorted_rows_def)
qed

end
