(* ===== verification/MergeSafety.thy ===== *)
theory MergeSafety
  imports Merge
begin

text \<open>
  The merge's accounts and its panics (src/engine/merge.rs). Every byte a merge state
  charges is in one of its sources, its last key or its arrays, and leaves the budget when
  the state is dropped, on faults too; permits and the pending count are as before; and the
  indexing, \<open>expect\<close> and capacity assertions of the loop never fire.
\<close>

section \<open>Charges held in a merge state\<close>

definition src_bytes :: "('k, 'v) merge_source \<Rightarrow> u64" where
  "src_bytes s = row_bytes (src_head s) + charge_bytes (src_key_charge s)"

definition state_bytes :: "('k, 'v) merge_state \<Rightarrow> u64" where
  "state_bytes st =
     sum_list (map src_bytes (ms_sources st)) + charge_bytes (map_option snd (ms_last st)) + ms_arrays st"

text \<open>The account of a merge and its world: what is held outside the merge state.\<close>

definition outside :: "('k, 'v) merge_state \<times> 'fs world \<Rightarrow> u64" where
  "outside s = held_bytes (snd s) - state_bytes (fst s)"

definition value_bytes :: "('a \<Rightarrow> u64) \<Rightarrow> fault + 'a \<Rightarrow> u64" where
  "value_bytes b r = (case r of Inl _ \<Rightarrow> 0 | Inr x \<Rightarrow> b x)"

lemma value_bytes_simps [simp]: "value_bytes b (Inl e) = 0" "value_bytes b (Inr x) = b x"
  by (simp_all add: value_bytes_def)

lemma conserves_iff: "conserves \<mu> 0 m b \<longleftrightarrow> (\<forall>s. \<mu> (snd (m s)) = \<mu> s + value_bytes b (fst (m s)))"
  by (simp add: conserves_def value_bytes_def)

lemma conserves_run: "conserves \<mu> 0 m b \<Longrightarrow> m s = (r, t) \<Longrightarrow> \<mu> t = \<mu> s + value_bytes b r"
  by (metis conserves_iff fst_conv snd_conv)

lemma held_source_drop: "held_bytes (source_drop s w) = held_bytes w - src_bytes s"
  by (auto simp: source_drop_def src_bytes_def held_release_opt held_drops charge_bytes_def
      split: option.splits)

lemma held_sources_drop:
  "held_bytes (sources_drop ss w) = held_bytes w - sum_list (map src_bytes ss)"
  unfolding sources_drop_def
  by (induction ss arbitrary: w) (simp_all add: held_source_drop algebra_simps)

lemma held_merge_state_drop: "held_bytes (merge_state_drop st w) = held_bytes w - state_bytes st"
  by (simp add: merge_state_drop_def state_bytes_def held_release held_release_opt
      held_sources_drop charge_bytes_def algebra_simps split: option.splits)

lemma state_bytes_source:
  assumes "i < length (ms_sources st)"
  shows "state_bytes (st\<lparr>ms_sources := (ms_sources st)[i := s]\<rparr>)
    = state_bytes st - src_bytes (ms_sources st ! i) + src_bytes s"
  using sum_list_map_update [OF assms, of src_bytes s] by (simp add: state_bytes_def)

lemma state_bytes_heap [simp]: "state_bytes (st\<lparr>ms_heap := h\<rparr>) = state_bytes st"
  by (simp add: state_bytes_def)

section \<open>Opening\<close>

lemma merge_source_open_conserves:
  "conserves held_bytes 0 (merge_source_open X p) (\<lambda>s. case s of None \<Rightarrow> 0 | Some s \<Rightarrow> src_bytes s)"
  unfolding merge_source_open_def
  by (intro conserves_and_then [OF run_reader_open_conserves]
      conserves_and_then [OF run_reader_next_row_conserves])
    (auto simp: src_bytes_def intro!: conserves_ret split: option.splits)

lemma merge_state_new_conserves:
  "conserves held_bytes 0 (merge_state_new X n dedup) state_bytes"
  unfolding merge_state_new_def
  by (intro conserves_and_then [OF conserves_ok_or] conserves_and_then [OF reserve_conserves])
    (auto simp: held_release state_bytes_def intro: conserves_bail conserves_ret)

lemma state_bytes_add:
  "state_bytes (st\<lparr>ms_sources := ms_sources st @ [s], ms_heap := h\<rparr>) = state_bytes st + src_bytes s"
  "state_bytes (st\<lparr>ms_sources := ms_sources st @ [s]\<rparr>) = state_bytes st + src_bytes s"
  by (simp_all add: state_bytes_def algebra_simps)

lemma merge_open_paths_conserves:
  "conserves held_bytes (state_bytes st) (merge_open_paths X ps st) state_bytes"
proof (induction ps arbitrary: st)
  case Nil
  then show ?case by (simp add: conserves_ret)
next
  case (Cons p ps)
  have some: "conserves held_bytes (src_bytes s + state_bytes st)
      (case src_head s of
         Some head \<Rightarrow>
           attempt (\<lambda>w. merge_state_drop st (source_drop s w)) (reserve (row_retained head)) (\<lambda>charge.
           merge_open_paths X ps
             (st\<lparr>ms_sources := ms_sources st @ [s\<lparr>src_key_charge := Some charge\<rparr>],
                 ms_heap := heap_push (HeapEntry (row_key head) (length (ms_sources st))) (ms_heap st)\<rparr>))
       | None \<Rightarrow> merge_open_paths X ps (st\<lparr>ms_sources := ms_sources st @ [s]\<rparr>)) state_bytes"
    if "src_key_charge s = None" for s
  proof (cases "src_head s")
    case None
    then show ?thesis
      using Cons.IH [of "st\<lparr>ms_sources := ms_sources st @ [s]\<rparr>"]
      by (simp add: state_bytes_add algebra_simps)
  next
    case (Some head)
    have "conserves held_bytes (c + (src_bytes s + state_bytes st))
        (merge_open_paths X ps
             (st\<lparr>ms_sources := ms_sources st @ [s\<lparr>src_key_charge := Some c\<rparr>], ms_heap := h\<rparr>)) state_bytes"
      for c h
      using Cons.IH [of "st\<lparr>ms_sources := ms_sources st @ [s\<lparr>src_key_charge := Some c\<rparr>], ms_heap := h\<rparr>"] that
      by (simp add: state_bytes_add src_bytes_def algebra_simps)
    then show ?thesis
      unfolding Some option.case
      by (intro conserves_attempt_gain [OF reserve_conserves])
        (simp_all add: held_merge_state_drop held_source_drop)
  qed
  show ?case
    unfolding merge_open_paths.simps Let_def
  proof (rule conserves_attempt_when [where a = 0, simplified, OF merge_source_open_conserves])
    fix w :: "'a world" and x w'
    assume "merge_source_open X p w = (Inr x, w')"
    then have "\<forall>s. x = Some s \<longrightarrow> src_key_charge s = None"
      by (auto simp: merge_source_open_def act_ok split: option.splits)
    then show "conserves held_bytes ((case x of None \<Rightarrow> 0 | Some s \<Rightarrow> src_bytes s) + state_bytes st)
      (case x of None \<Rightarrow> merge_open_paths X ps st
       | Some s \<Rightarrow> (case src_head s of
           None \<Rightarrow> merge_open_paths X ps (st\<lparr>ms_sources := ms_sources st @ [s]\<rparr>)
         | Some head \<Rightarrow>
             attempt (\<lambda>w. merge_state_drop st (source_drop s w)) (reserve (row_retained head)) (\<lambda>charge.
             merge_open_paths X ps
               (st\<lparr>ms_sources := ms_sources st @ [s\<lparr>src_key_charge := Some charge\<rparr>],
                   ms_heap := heap_push (HeapEntry (row_key head) (length (ms_sources st))) (ms_heap st)\<rparr>))))
      state_bytes"
      using Cons.IH [of st] some by (cases x) auto
  qed (simp add: held_merge_state_drop)
qed


lemma merge_state_open_conserves:
  "conserves held_bytes 0 (merge_state_open X ps dedup) state_bytes"
  unfolding merge_state_open_def
  by (rule conserves_and_then [OF merge_state_new_conserves merge_open_paths_conserves])

section \<open>The loop\<close>

definition turn_bytes :: "('k, 'v) run_row option turn \<Rightarrow> u64" where
  "turn_bytes t = (case t of Return r \<Rightarrow> row_bytes r | Continue \<Rightarrow> 0)"

definition idle_source :: "nat \<Rightarrow> ('k, 'v) merge_state \<Rightarrow> bool" where
  "idle_source i st \<longleftrightarrow> i < length (ms_sources st) \<and> src_key_charge (ms_sources st ! i) = None"

lemma take_head_balance:
  assumes run: "take_head X i (st, w) = (r, st', w')" and i: "idle_source i st"
  shows "outside (st', w') = outside (st, w) + value_bytes (\<lambda>row. charge_bytes (row_charge row)) r
    \<and> idle_source i st'"
proof (cases "src_head (ms_sources st ! i)")
  case None
  then show ?thesis using run i by (auto simp: take_head_def)
next
  case (Some row)
  obtain q w1 where read: "run_reader_next_row X (src_reader (ms_sources st ! i)) w = (q, w1)"
    by fastforce
  show ?thesis
  proof (cases q)
    case (Inl e)
    then show ?thesis
      using run read Some i conserves_run [OF run_reader_next_row_conserves read]
      by (auto simp: take_head_def outside_def state_bytes_source src_bytes_def idle_source_def
          held_drops algebra_simps)
  next
    case (Inr x)
    obtain head reader where x: "x = (head, reader)" by fastforce
    have "idle_source i st'" "r = Inr row" "w' = w1"
      using run read Some i Inr x by (auto simp: take_head_def idle_source_def)
    moreover have "state_bytes st' = state_bytes st - charge_bytes (row_charge row) + row_bytes head"
      using run read Some i Inr x
      by (auto simp: take_head_def state_bytes_source src_bytes_def idle_source_def)
    ultimately show ?thesis
      using conserves_run [OF run_reader_next_row_conserves read] Inr x
      by (simp add: outside_def)
  qed
qed

lemma charge_key_balance:
  assumes run: "charge_key i row (st, w) = (r, st', w')" and i: "idle_source i st"
  shows "outside (st', w') = outside (st, w)
    - (case r of Inl _ \<Rightarrow> charge_bytes (row_charge row) | Inr _ \<Rightarrow> 0)"
proof (cases "src_head (ms_sources st ! i)")
  case None
  then show ?thesis using run by (auto simp: charge_key_def)
next
  case (Some head)
  obtain q w1 where res: "reserve (row_retained head) w = (q, w1)" by fastforce
  show ?thesis
    using run Some res i conserves_run [OF reserve_conserves res]
    by (auto simp: charge_key_def outside_def held_drops state_bytes_source src_bytes_def
        idle_source_def algebra_simps split: sum.splits)
qed

lemma emit_or_skip_balance:
  assumes "emit_or_skip row (st, w) = (r, st', w')"
  shows "outside (st', w') = outside (st, w) - charge_bytes (row_charge row) + value_bytes turn_bytes r"
  using assms
  by (auto simp: emit_or_skip_def outside_def state_bytes_def held_drops held_release_opt turn_bytes_def
      algebra_simps split: if_splits prod.splits sum.splits option.splits
      dest!: conserves_run [OF reserve_conserves])

lemma merge_turn_conserves: "conserves outside 0 (merge_turn X) turn_bytes"
  unfolding conserves_iff
proof
  fix s :: "('a, 'b) merge_state \<times> 'c world"
  obtain st w where s: "s = (st, w)" by fastforce
  show "outside (snd (merge_turn X s)) = outside s + value_bytes turn_bytes (fst (merge_turn X s))"
  proof (cases "heap_pop (ms_heap st)")
    case None
    then show ?thesis by (simp add: s merge_turn_def turn_bytes_def)
  next
    case (Some eq)
    obtain e q where pop: "heap_pop (ms_heap st) = Some (e, q)" using Some by (cases eq) auto
    let ?i = "he_idx e"
    show ?thesis
    proof (cases "length (ms_sources st) \<le> ?i")
      case True
      then show ?thesis using pop by (simp add: s merge_turn_def outside_def)
    next
      case False
      let ?s = "ms_sources st ! ?i"
      define st2 where
        "st2 = st\<lparr>ms_heap := q, ms_sources := (ms_sources st)[?i := ?s\<lparr>src_key_charge := None\<rparr>]\<rparr>"
      define w2 where "w2 = release_opt (src_key_charge ?s) w"
      have idle: "idle_source ?i st2" using False by (simp add: idle_source_def st2_def)
      have "state_bytes st2 = state_bytes st - charge_bytes (src_key_charge ?s)"
        using state_bytes_source [of ?i "st\<lparr>ms_heap := q\<rparr>"] False
        by (simp add: st2_def src_bytes_def)
      then have start: "outside (st2, w2) = outside (st, w)"
        by (simp add: outside_def w2_def held_release_opt charge_bytes_def split: option.splits)
      have turn: "merge_turn X s = and_then (take_head X ?i) (\<lambda>row.
          and_then (charge_key ?i row) (\<lambda>_. emit_or_skip row)) (st2, w2)"
        using pop False by (simp add: s merge_turn_def Let_def st2_def w2_def)
      obtain r1 st3 w3 where 1: "take_head X ?i (st2, w2) = (r1, st3, w3)" by (metis surj_pair)
      note b1 = take_head_balance [OF 1 idle]
      show ?thesis
      proof (cases r1)
        case (Inl e)
        then show ?thesis using turn 1 b1 start by (simp add: attempt_def s)
      next
        case (Inr row)
        obtain r2 st4 w4 where 2: "charge_key ?i row (st3, w3) = (r2, st4, w4)" by (metis surj_pair)
        note b2 = charge_key_balance [OF 2]
        obtain r3 st5 w5 where 3: "emit_or_skip row (st4, w4) = (r3, st5, w5)" by (metis surj_pair)
        note b3 = emit_or_skip_balance [OF 3]
        show ?thesis
          using turn 1 b1 start Inr 2 b2 3 b3 by (cases r2) (simp_all add: attempt_def s)
      qed
    qed
  qed
qed

lemma merge_next_conserves: "conserves outside 0 (merge_next X) row_bytes"
proof -
  have "outside (snd (merge_next X s)) = outside s + value_bytes row_bytes (fst (merge_next X s))"
    for s :: "('a::linorder, 'b) merge_state \<times> 'c world"
  proof (induction X s rule: merge_next.induct)
    case (1 X s)
    obtain r s' where turn: "merge_turn X s = (r, s')" by (metis surj_pair)
    note b = conserves_run [OF merge_turn_conserves turn]
    show ?case
    proof (cases r)
      case (Inl e)
      then show ?thesis using turn b by (subst (1 2) merge_next.simps) simp
    next
      case (Inr t)
      then show ?thesis
        using turn b 1 [OF turn [symmetric] Inr]
        by (subst (1 2) merge_next.simps) (cases t; simp add: turn_bytes_def)
    qed
  qed
  then show ?thesis unfolding conserves_iff by blast
qed

lemma copy_rows_conserves: "conserves outside 0 (copy_rows X wr) (\<lambda>_. 0)"
proof -
  have "outside (snd (copy_rows X wr s)) = outside s"
    for s :: "('a::linorder, 'b) merge_state \<times> 'c world"
  proof (induction X wr s rule: copy_rows.induct)
    case (1 X wr s)
    obtain r st w where row: "merge_next X s = (r, st, w)" by (metis surj_pair)
    note b = conserves_run [OF merge_next_conserves row]
    show ?case
    proof (cases r)
      case (Inl e)
      then show ?thesis using row b by (subst copy_rows.simps) simp
    next
      case (Inr x)
      show ?thesis
      proof (cases x)
        case None
        then show ?thesis using row b Inr by (subst copy_rows.simps) simp
      next
        case (Some y)
        obtain q w1 where put: "run_writer_write_row X wr y w = (q, w1)" by fastforce
        have "held_bytes w1 = held_bytes w"
          using conserves_run [OF run_writer_write_row_conserves put] by (cases q) simp_all
        then have "outside (st, row_drop y w1) = outside (st, w) - charge_bytes (row_charge y)"
          by (simp add: outside_def held_drops)
        then have dropped: "outside (st, row_drop y w1) = outside s"
          using b Inr Some by simp
        show ?thesis
        proof (cases q)
          case (Inl e)
          then show ?thesis using row put Inr Some dropped by (subst copy_rows.simps) simp
        next
          case (Inr wr')
          then show ?thesis
            using row put \<open>r = Inr x\<close> Some dropped
              1 [OF row [symmetric] _ refl Some put [symmetric] Inr]
            by (subst copy_rows.simps) simp
        qed
      qed
    qed
  qed
  then show ?thesis by (simp add: conserves_iff value_bytes_def split: sum.splits)
qed

lemma owning_conserves:
  assumes "conserves outside 0 m b"
  shows "conserves held_bytes (state_bytes st) (owning merge_state_drop st m)
    (\<lambda>(x, st'). b x + state_bytes st')"
  using conserves_run [OF assms]
  by (auto simp: conserves_def owning_def outside_def held_merge_state_drop algebra_simps
      split: prod.splits sum.splits)

lemma remove_all_conserves: "conserves held_bytes 0 (remove_all X ps) (\<lambda>_. 0)"
  by (induction ps) (auto intro!: conserves_ret conserves_and_then [OF awaited_conserves [OF io_conserves]])

lemma merge_group_conserves: "conserves held_bytes 0 (merge_group_to_file X ps out dedup) (\<lambda>_. 0)"
  unfolding merge_group_to_file_def
  by (intro conserves_and_then [OF merge_state_open_conserves]
      conserves_attempt_neutral [OF run_writer_create_conserves]
      conserves_and_then [OF owning_conserves [OF copy_rows_conserves]])
    (auto simp: held_merge_state_drop
      intro!: conserves_attempt_neutral [OF run_writer_finish_conserves]
        conserves_and_then [OF conserves_modify] conserves_and_then [OF remove_all_conserves]
        conserves_ret)

lemma merge_groups_conserves: "conserves held_bytes 0 (merge_groups X dir pass i gs) (\<lambda>_. 0)"
proof (induction gs arbitrary: i)
  case Nil
  then show ?case by (simp add: conserves_ret)
next
  case (Cons g gs)
  have "conserves held_bytes 0
      (if length g = 1 then ret (hd g)
       else merge_group_to_file X g (join dir (merge_name (unat pass) i)) False) (\<lambda>_. 0)"
    by (simp add: conserves_ret merge_group_conserves)
  then show ?case
    unfolding merge_groups.simps
    by (intro conserves_and_then [where b = "\<lambda>_. 0"] Cons.IH conserves_ret) simp_all
qed

lemma cascade_conserves: "conserves held_bytes 0 (cascade X fan_in dir pass runs) (\<lambda>_. 0)"
proof -
  have "held_bytes (snd (cascade X fan_in dir pass runs w)) = held_bytes w" for w :: "'a world"
  proof (induction X fan_in dir pass runs w rule: cascade.induct)
    case (1 X fan_in dir pass runs w)
    obtain r w1 where groups: "merge_groups X dir pass 0 (chunks (max fan_in 2) runs) w = (r, w1)"
      by fastforce
    note b = conserves_run [OF merge_groups_conserves groups]
    show ?case
      by (subst cascade.simps) (use 1 groups b in \<open>auto split: sum.splits\<close>)
  qed
  then show ?thesis by (simp add: conserves_iff value_bytes_def split: sum.splits)
qed

section \<open>Frames\<close>

text \<open>What a writer, a merge and a pass return: the paths they were given to write.\<close>

lemma writer_paths:
  "run_writer_create X p w = (Inr wr, w') \<Longrightarrow> rw_path wr = p"
  "run_writer_write_row X wr row w = (Inr wr', w') \<Longrightarrow> rw_path wr' = rw_path wr"
  "run_writer_finish X wr w = (Inr q, w') \<Longrightarrow> q = rw_path wr"
  by (auto simp: run_writer_create_def run_writer_write_row_def run_writer_finish_def act_ok)

lemma copy_rows_path: "copy_rows X wr s = (Inr wr', s') \<Longrightarrow> rw_path wr' = rw_path wr"
proof (induction X wr s rule: copy_rows.induct)
  case (1 X wr s)
  obtain r st w where row: "merge_next X s = (r, st, w)" by (metis surj_pair)
  then obtain o' where r: "r = Inr o'"
    using 1(2) by (subst (asm) copy_rows.simps) (auto split: sum.splits)
  show ?case
  proof (cases o')
    case None
    then show ?thesis using 1(2) row r by (subst (asm) copy_rows.simps) simp
  next
    case (Some y)
    then obtain wr1 w1 where put: "run_writer_write_row X wr y w = (Inr wr1, w1)"
      and more: "copy_rows X wr1 (st, row_drop y w1) = (Inr wr', s')"
      using 1(2) row r by (subst (asm) copy_rows.simps) (auto split: prod.splits sum.splits)
    then show ?thesis
      using 1(1) [OF row [symmetric] r HOL.refl Some put [symmetric] HOL.refl more] writer_paths(2) [OF put] by simp
  qed
qed

lemma merge_group_path:
  assumes "merge_group_to_file X ps out dedup w = (Inr q, w')"
  shows "q = out"
proof -
  obtain wr st u u' wr' st' v v' where "run_writer_create X out u = (Inr wr, u')"
    and "owning merge_state_drop st (copy_rows X wr) u' = (Inr (wr', st'), v)"
    and "run_writer_finish X wr' v = (Inr q, v')"
    using assms by (auto simp: merge_group_to_file_def act_ok)
  then show ?thesis
    using copy_rows_path [of X wr "(st, u')" wr'] by (auto simp: owning_def dest: writer_paths split: prod.splits sum.splits)
qed

lemma merge_groups_paths:
  "merge_groups X dir pass i gs w = (Inr ps, w') \<Longrightarrow> (\<And>g p. g \<in> set gs \<Longrightarrow> p \<in> set g \<Longrightarrow> may p) \<Longrightarrow>
     [] \<notin> set gs \<Longrightarrow> (\<And>name. may (join dir name)) \<Longrightarrow> p \<in> set ps \<Longrightarrow> may p"
proof (induction gs arbitrary: i w ps)
  case (Cons g gs)
  obtain q w1 ps' where q: "(if length g = 1 then ret (hd g)
        else merge_group_to_file X g (join dir (merge_name (unat pass) i)) False) w = (Inr q, w1)"
    and more: "merge_groups X dir pass (Suc i) gs w1 = (Inr ps', w')" "ps = q # ps'"
    using Cons.prems(1) by (auto simp: act_ok)
  have "g \<noteq> []" using Cons.prems(3) by auto
  then have "may q"
    using q Cons.prems(2) [of g q] Cons.prems(4)
    by (auto simp: act_ok dest!: merge_group_path split: if_splits)
  then show ?case
    using Cons.IH [OF more(1)] Cons.prems more(2) by auto
qed (simp add: act_ok)

lemma chunks_within: "g \<in> set (chunks n xs) \<Longrightarrow> g \<noteq> [] \<and> set g \<subseteq> set xs"
proof (induction n xs rule: chunks.induct)
  case (1 n xs)
  show ?case
  proof (cases "xs = [] \<or> n = 0")
    case True
    then show ?thesis using 1(2) by (subst (asm) chunks.simps) simp
  next
    case False
    then have "g = take n xs \<or> g \<in> set (chunks n (drop n xs))"
      using 1(2) by (subst (asm) chunks.simps) simp
    then show ?thesis
      using 1(1) False by (auto dest: in_set_takeD in_set_dropD)
  qed
qed

lemma cascade_paths:
  "cascade X fan_in dir pass runs w = (Inr out, w') \<Longrightarrow> (\<And>p. p \<in> set runs \<Longrightarrow> may p) \<Longrightarrow>
     (\<And>name. may (join dir name)) \<Longrightarrow> p \<in> set out \<Longrightarrow> may p"
proof (induction "length runs" arbitrary: pass runs w rule: less_induct)
  case less
  show ?case
  proof (cases "length runs \<le> max fan_in 2")
    case True
    then show ?thesis using less.prems by (subst (asm) cascade.simps) simp
  next
    case False
    then obtain runs' w1 where groups: "merge_groups X dir pass 0 (chunks (max fan_in 2) runs) w = (Inr runs', w1)"
      and more: "cascade X fan_in dir (pass + 1) runs' w1 = (Inr out, w')"
      using less.prems(1) by (subst (asm) cascade.simps) (auto split: prod.splits sum.splits)
    have "may q" if "q \<in> set runs'" for q
      using merge_groups_paths [where may = may, OF groups _ _ less.prems(3) that] less.prems(2) chunks_within by blast
    then show ?thesis
      using less.hyps [OF merge_groups_shrink [OF groups False] more _ less.prems(3,4)] by blast
  qed
qed

text \<open>
  The contract of a relation that the primitive steps of the engine keep: reservations and
  their release, reading run files, and writing or removing one at a path that may be
  touched. The merge keeps it too.
\<close>

locale engine_frame = frame R for R :: "'fs world \<Rightarrow> 'fs world \<Rightarrow> bool" +
  fixes X :: "('fs, 'h, 'k::linorder, 'v) ext" and may :: "path \<Rightarrow> bool"
  assumes step_reserve: "keeps R (reserve n)"
    and step_release: "R w (release c w)"
    and step_open: "keeps R (run_reader_open X p)"
    and step_next: "keeps R (run_reader_next_row X rd)"
    and step_create: "may p \<Longrightarrow> keeps R (run_writer_create X p)"
    and step_write: "may (rw_path wr) \<Longrightarrow> keeps R (run_writer_write_row X wr row)"
    and step_finish: "may (rw_path wr) \<Longrightarrow> keeps R (run_writer_finish X wr)"
    and step_remove: "may p \<Longrightarrow> keeps R (awaited (io (fs_remove_if_exists X p)))"
begin

lemma step_release_opt: "R w (release_opt c w)"
  by (simp add: release_opt_def step_release refl split: option.splits)

lemma step_row_drop: "R w (row_drop r w)"
  by (simp add: row_drop_def step_release_opt)

lemma step_source_drop: "R w (source_drop s w)"
  by (auto simp: source_drop_def intro: step_release_opt trans [OF step_row_drop step_release_opt]
      split: option.splits)

lemma step_sources_drop: "R w (sources_drop ss w)"
  unfolding sources_drop_def
  by (induction ss arbitrary: w) (auto simp: refl intro: trans [OF step_source_drop])

lemma step_merge_drop: "R w (merge_state_drop st w)"
  unfolding merge_state_drop_def
  by (rule trans [OF trans [OF step_sources_drop step_release_opt] step_release])

lemmas steps =
  keeps_intros step_reserve step_release step_open step_next step_create step_write step_finish
  step_remove step_release_opt step_row_drop step_source_drop step_merge_drop

lemma step_source_open: "keeps R (merge_source_open X p)"
  unfolding merge_source_open_def by (auto intro!: steps split: option.splits)

lemma step_paths: "keeps R (merge_open_paths X ps st)"
proof (induction ps arbitrary: st)
  case Nil
  then show ?case by (simp add: keeps_ret)
next
  case (Cons p ps)
  have drop2: "R w (merge_state_drop st (source_drop s w))" for w s
    by (rule trans [OF step_source_drop step_merge_drop])
  show ?case
    unfolding merge_open_paths.simps Let_def
  proof (rule keeps_attempt [OF step_source_open])
    show "keeps R (case x of None \<Rightarrow> merge_open_paths X ps st
       | Some s \<Rightarrow> (case src_head s of
           None \<Rightarrow> merge_open_paths X ps (st\<lparr>ms_sources := ms_sources st @ [s]\<rparr>)
         | Some head \<Rightarrow>
             attempt (\<lambda>w. merge_state_drop st (source_drop s w)) (reserve (row_retained head)) (\<lambda>charge.
             merge_open_paths X ps
               (st\<lparr>ms_sources := ms_sources st @ [s\<lparr>src_key_charge := Some charge\<rparr>],
                   ms_heap := heap_push (HeapEntry (row_key head) (length (ms_sources st))) (ms_heap st)\<rparr>))))" for x
      by (auto intro!: keeps_attempt step_reserve Cons.IH drop2 split: option.splits)
  qed (rule step_merge_drop)
qed

lemma step_state_open: "keeps R (merge_state_open X ps dedup)"
  unfolding merge_state_open_def merge_state_new_def
  by (auto intro!: steps step_paths)

lemma step_turn: "merge_turn X (st, w) = (r, st', w') \<Longrightarrow> R w w'"
proof -
  assume turn: "merge_turn X (st, w) = (r, st', w')"
  have 1: "R u u'" if "take_head X i (s, u) = (q, s', u')" for i s u q s' u'
    using that by (auto simp: take_head_def Let_def refl split: option.splits prod.splits sum.splits
        dest!: keepsD [OF step_next] intro: trans [OF _ step_row_drop])
  have 2: "R u u'" if "charge_key i row (s, u) = (q, s', u')"
    for i u q u' and s s' :: "('k, 'v) merge_state" and row :: "('k, 'v) run_row"
    using that by (auto simp: charge_key_def Let_def refl split: option.splits prod.splits sum.splits
        dest!: keepsD [OF step_reserve] intro: trans [OF _ step_row_drop])
  have 3: "R u u'" if "emit_or_skip row (s, u) = (q, s', u')"
    for u q u' and s s' :: "('k, 'v) merge_state" and row :: "('k, 'v) run_row"
    using that by (auto simp: emit_or_skip_def refl step_row_drop split: if_splits prod.splits sum.splits
        dest!: keepsD [OF step_reserve] intro: trans [OF _ step_row_drop] trans [OF _ step_release_opt])
  show ?thesis
    using turn
    by (auto simp: merge_turn_def Let_def attempt_def refl step_release_opt
        split: option.splits prod.splits sum.splits if_splits
        dest!: 1 2 3) (blast intro: trans step_release_opt)+
qed

lemma step_merge_next: "R (snd s) (snd (snd (merge_next X s)))"
proof -
  have "Y = X \<longrightarrow> R (snd s) (snd (snd (merge_next Y s)))" for Y
  proof (induction Y s rule: merge_next.induct)
    case (1 Y s)
    obtain st w where s: "s = (st, w)" by fastforce
    obtain r st' w' where turn: "merge_turn Y (st, w) = (r, st', w')" by (metis surj_pair)
    show ?case
    proof
      assume Y: "Y = X"
      note b = step_turn [OF turn [unfolded Y]]
      show "R (snd s) (snd (snd (merge_next Y s)))"
      proof (cases r)
        case (Inl e)
        then show ?thesis using turn b s by (subst merge_next.simps) simp
      next
        case (Inr t)
        then show ?thesis
          using turn b s Y 1 [OF turn [symmetric, folded s] Inr]
          by (subst merge_next.simps) (auto split: turn.splits intro: trans)
      qed
    qed
  qed
  then show ?thesis by blast
qed

lemma step_copy_rows: "may (rw_path wr) \<Longrightarrow> R (snd s) (snd (snd (copy_rows X wr s)))"
proof -
  have "Y = X \<longrightarrow> may (rw_path wr) \<longrightarrow> R (snd s) (snd (snd (copy_rows Y wr s)))" for Y
  proof (induction Y wr s rule: copy_rows.induct)
    case (1 Y wr s)
    obtain r st w where row: "merge_next Y s = (r, st, w)" by (metis surj_pair)
    show ?case
    proof (intro impI)
      assume Y: "Y = X" and may: "may (rw_path wr)"
      have b: "R (snd s) w" using step_merge_next [of s] row Y by simp
      show "R (snd s) (snd (snd (copy_rows Y wr s)))"
      proof (cases "\<exists>y. r = Inr (Some y)")
        case False
        then show ?thesis
          using row b by (subst copy_rows.simps) (auto split: sum.splits option.splits)
      next
        case True
        then obtain y where y: "r = Inr (Some y)" by blast
        obtain q w1 where put: "run_writer_write_row Y wr y w = (q, w1)" by (metis surj_pair)
        have c: "R (snd s) (row_drop y w1)"
          using b keepsD [OF step_write [OF may] put [unfolded Y]] step_row_drop by (blast intro: trans)
        show ?thesis
        proof (cases q)
          case (Inl e)
          then show ?thesis using row put y c by (subst copy_rows.simps) simp
        next
          case (Inr wr')
          then have "may (rw_path wr')" using may writer_paths(2) [OF put [unfolded Inr]] by simp
          then show ?thesis
            using row put y c Inr Y trans [OF c] 1 [OF row [symmetric] y HOL.refl HOL.refl put [symmetric] Inr]
            by (subst copy_rows.simps) simp
        qed
      qed
    qed
  qed
  then show "may (rw_path wr) \<Longrightarrow> R (snd s) (snd (snd (copy_rows X wr s)))" by blast
qed

lemma step_owning:
  assumes "may (rw_path wr)"
  shows "keeps R (owning merge_state_drop st (copy_rows X wr))"
  unfolding keeps_def
proof
  fix w
  show "R w (snd (owning merge_state_drop st (copy_rows X wr) w))"
    using step_copy_rows [OF assms, of "(st, w)"]
    by (auto simp: owning_def split: prod.splits sum.splits intro: trans [OF _ step_merge_drop])
qed

lemma step_remove_all: "(\<And>p. p \<in> set ps \<Longrightarrow> may p) \<Longrightarrow> keeps R (remove_all X ps)"
  by (induction ps) (auto intro!: steps)

lemma owning_path:
  "owning merge_state_drop st (copy_rows X wr) w = (Inr (wr', st'), w') \<Longrightarrow> rw_path wr' = rw_path wr"
  by (auto simp: owning_def dest: copy_rows_path split: prod.splits sum.splits)

lemma step_merge_group:
  assumes "may out" and "\<And>p. p \<in> set ps \<Longrightarrow> may p"
  shows "keeps R (merge_group_to_file X ps out dedup)"
proof -
  have last: "keeps R (attempt (merge_state_drop st) (run_writer_finish X wr) (\<lambda>merged.
      and_then (modify (merge_state_drop st)) (\<lambda>_. and_then (remove_all X ps) (\<lambda>_. ret merged))))"
    if "may (rw_path wr)" for st wr
    using that assms(2) by (auto intro!: steps step_remove_all)
  have copied: "keeps R (and_then (owning merge_state_drop st (copy_rows X wr)) (\<lambda>(wr, st).
      attempt (merge_state_drop st) (run_writer_finish X wr) (\<lambda>merged.
      and_then (modify (merge_state_drop st)) (\<lambda>_. and_then (remove_all X ps) (\<lambda>_. ret merged)))))"
    if "may (rw_path wr)" for st wr
    by (rule keeps_attempt_value [OF step_owning [OF that]])
      (use that in \<open>auto simp: refl split: prod.splits intro!: last dest: owning_path\<close>)
  show ?thesis
    unfolding merge_group_to_file_def
    by (rule keeps_attempt [OF step_state_open keeps_attempt_value [OF step_create [OF assms(1)] copied step_merge_drop] refl])
      (use assms(1) in \<open>auto dest: writer_paths(1)\<close>)
qed

lemma step_merge_groups:
  assumes "\<And>g p. g \<in> set gs \<Longrightarrow> p \<in> set g \<Longrightarrow> may p" and "\<And>name. may (join dir name)"
  shows "keeps R (merge_groups X dir pass i gs)"
  using assms(1)
  by (induction gs arbitrary: i) (auto intro!: keeps_intros step_merge_group assms(2))

lemma step_cascade:
  assumes runs: "\<And>p. p \<in> set runs \<Longrightarrow> may p" and dir: "\<And>name. may (join dir name)"
  shows "keeps R (cascade X fan_in dir pass runs)"
  unfolding keeps_def
proof
  fix w
  show "R w (snd (cascade X fan_in dir pass runs w))"
    using runs
  proof (induction "length runs" arbitrary: pass runs w rule: less_induct)
    case less
    obtain r w1 where groups: "merge_groups X dir pass 0 (chunks (max fan_in 2) runs) w = (r, w1)"
      by (metis surj_pair)
    have chunked: "may p" if "g \<in> set (chunks (max fan_in 2) runs)" "p \<in> set g" for g p
      using that chunks_within less.prems by blast
    note b = keepsD [OF step_merge_groups [OF chunked dir] groups]
    show ?case
    proof (cases r)
      case (Inl e)
      then show ?thesis using groups b by (subst cascade.simps) (simp add: refl)
    next
      case (Inr runs')
      have "may p" if "p \<in> set runs'" for p
        by (rule merge_groups_paths [where may = may, OF groups [unfolded Inr] _ _ dir that])
          (use chunked chunks_within in blast)+
      then show ?thesis
        using groups b Inr
        by (subst cascade.simps)
          (auto simp: refl intro: trans [OF b less.hyps [OF merge_groups_shrink [OF groups [unfolded Inr]]]])
    qed
  qed
qed

end

interpretation cap_engine: engine_frame within_cap X "\<lambda>_. True" for X :: "('fs, 'h, 'k::linorder, 'v) ext"
  by unfold_locales (auto intro: cap.trans capped.keeps_awaited cap_rules run_reader_frames run_writer_frames)

interpretation permit_engine: engine_frame same_permits X "\<lambda>_. True" for X :: "('fs, 'h, 'k::linorder, 'v) ext"
  by unfold_locales (auto intro: permits.trans awaited_same_permits permit_rules run_reader_frames run_writer_frames)

section \<open>No panics\<close>

lemma calm_reserve: "calm (reserve n)"
  by (auto simp: calm_def reserve_def split: prod.splits sum.splits)

lemma calm_limit_now: "calm limit_now"
  by (simp add: calm_def limit_now_eq)

lemma calm_reserve_frame: "calm (reserve_frame n)"
  unfolding reserve_frame_def by (intro calm_intros calm_reserve)

lemma calm_or_raise: "calm (or_raise g r)"
  by (simp add: or_raise_def calm_intros split: sum.splits)

lemma calm_io: "calm (io f)"
  by (auto simp: calm_def io_def split: prod.splits sum.splits)

text \<open>A spawned operation that panics is a worker error to its caller.\<close>

lemma calm_perform_reserved_with: "calm (perform_reserved_with lost captured operation)"
  unfolding calm_def
proof (intro allI notI)
  fix s p
  assume panic: "fst (perform_reserved_with lost captured operation s) = Inl (Panic p)"
  obtain t where "perform_reserved_with lost captured operation s = (Inl (Panic p), t)"
    using panic by (metis prod.collapse)
  then show False
    by (cases rule: perform_reserved_cases) (auto simp: join_error_def split: sum.splits fault.splits)
qed

lemma calm_perform_with: "calm (perform_with lost captured fsize pbytes operation)"
  unfolding perform_with_def by (intro calm_intros calm_reserve calm_perform_reserved_with)

lemmas calm_perform_reserved = calm_perform_reserved_with [where lost = "\<lambda>_ w. w", folded perform_reserved_def]
lemmas calm_perform = calm_perform_with [where lost = "\<lambda>_ w. w", folded perform_def]

lemma calm_awaited: "calm m \<Longrightarrow> calm (awaited m)"
proof -
  have "calm caller_stays" by (auto simp: calm_def caller_stays_def split: list.splits)
  then show "calm m \<Longrightarrow> calm (awaited m)" unfolding awaited_def by (intro calm_intros)
qed

lemmas calm_rules =
  calm_intros calm_reserve calm_limit_now calm_reserve_frame calm_or_raise calm_io calm_perform
  calm_perform_with calm_awaited

lemma calm_encode: "calm (encode X value)"
  unfolding encode_def by (auto intro!: calm_rules)

lemma calm_runs:
  "calm (run_writer_create X p)" "calm (run_writer_write_row X wr row)" "calm (run_writer_finish X wr)"
  "calm (run_reader_open X p)" "calm (run_reader_next_row X rd)"
  unfolding run_writer_create_def run_writer_write_row_def run_writer_finish_def run_reader_open_def
    run_reader_next_row_def
  by (auto intro!: calm_rules calm_encode)

lemma calm_source_open: "calm (merge_source_open X p)"
  unfolding merge_source_open_def by (auto intro!: calm_rules calm_runs split: option.splits)

text \<open>Every heap entry names a source with a buffered head, and no source is named twice.\<close>

definition heap_ok :: "('k, 'v) merge_state \<Rightarrow> bool" where
  "heap_ok st \<longleftrightarrow> distinct (map he_idx (ms_heap st)) \<and>
     (\<forall>e \<in> set (ms_heap st). he_idx e < length (ms_sources st)
        \<and> src_head (ms_sources st ! he_idx e) \<noteq> None)"

lemma heap_push_perm: "mset (heap_push e q) = add_mset e (mset q)"
  by (simp add: heap_push_def)

lemma heap_push_set [simp]: "set (heap_push e q) = insert e (set q)"
  by (simp add: heap_push_def set_insort_key)

lemma heap_push_distinct [simp]:
  "distinct (map he_idx (heap_push e q)) \<longleftrightarrow> he_idx e \<notin> he_idx ` set q \<and> distinct (map he_idx q)"
proof -
  have "mset (map he_idx (heap_push e q)) = mset (he_idx e # map he_idx q)"
    by (simp add: heap_push_perm)
  then have "distinct (map he_idx (heap_push e q)) \<longleftrightarrow> distinct (he_idx e # map he_idx q)"
    by (rule mset_eq_imp_distinct_iff)
  then show ?thesis by simp
qed

lemma merge_open_paths_calm:
  "heap_ok st \<Longrightarrow> merge_open_paths X ps st w = (r, w') \<Longrightarrow>
    (\<forall>p. r \<noteq> Inl (Panic p)) \<and> (\<forall>st'. r = Inr st' \<longrightarrow> heap_ok st')"
proof (induction ps arbitrary: st w)
  case Nil
  then show ?case by (auto simp: ret_def)
next
  case (Cons p ps)
  obtain q w1 where src: "merge_source_open X p w = (q, w1)" by (metis surj_pair)
  show ?case
  proof (cases "\<exists>s. q = Inr (Some s)")
    case False
    then show ?thesis
      using Cons src
      by (auto simp: attempt_def split: sum.splits option.splits dest: calm_panic [OF calm_source_open])
  next
    case True
    then obtain s where s: "q = Inr (Some s)" by blast
    then obtain head where head: "src_head s = Some head"
      using src by (auto simp: merge_source_open_def act_ok split: option.splits)
    obtain c w2 where res: "reserve (row_retained head) w1 = (c, w2)" by (metis surj_pair)
    let ?st = "\<lambda>c. st\<lparr>ms_sources := ms_sources st @ [s\<lparr>src_key_charge := Some c\<rparr>],
      ms_heap := heap_push (HeapEntry (row_key head) (length (ms_sources st))) (ms_heap st)\<rparr>"
    have ok: "heap_ok (?st c)" for c
      using Cons.prems(1) head by (auto simp: heap_ok_def nth_append)
    show ?thesis
    proof (cases c)
      case (Inl e)
      then show ?thesis
        using Cons.prems src s head res calmD [OF calm_reserve res [unfolded Inl]]
        by (auto simp: attempt_def)
    next
      case (Inr x)
      then show ?thesis
        using Cons.prems src s head res Cons.IH [OF ok] by (auto simp: attempt_def)
    qed
  qed
qed

lemma merge_state_open_calm:
  assumes "\<And>n. vec_capacity X n = n" and "merge_state_open X ps dedup w = (r, w')"
  shows "(\<forall>p. r \<noteq> Inl (Panic p)) \<and> (\<forall>st. r = Inr st \<longrightarrow> heap_ok st)"
proof -
  obtain q w1 where new: "merge_state_new X (of_nat (length ps)) dedup w = (q, w1)"
    by (metis surj_pair)
  have "calm (merge_state_new X (of_nat (length ps)) dedup)"
    unfolding merge_state_new_def by (auto simp: assms(1) intro!: calm_rules)
  moreover have "heap_ok st" if "q = Inr st" for st
    using new that by (auto simp: merge_state_new_def act_ok assms(1) heap_ok_def)
  ultimately show ?thesis
    using assms(2) new
    by (cases q) (auto simp: merge_state_open_def attempt_def dest: calm_panic merge_open_paths_calm)
qed

lemma merge_turn_calm:
  assumes ok: "heap_ok st" and turn: "merge_turn X (st, w) = (r, st', w')"
  shows "(\<forall>p. r \<noteq> Inl (Panic p)) \<and> (\<forall>t. r = Inr t \<longrightarrow> heap_ok st')"
proof (cases "heap_pop (ms_heap st)")
  case None
  then show ?thesis using turn ok by (auto simp: merge_turn_def)
next
  case (Some eq)
  obtain e q where heap: "ms_heap st = e # q"
    using Some by (auto simp: heap_pop_def split: list.splits)
  let ?i = "he_idx e"
  let ?s = "ms_sources st ! ?i"
  obtain row where i: "?i < length (ms_sources st)" and row: "src_head ?s = Some row"
    using ok heap by (auto simp: heap_ok_def)
  have rest: "?i \<notin> he_idx ` set q" "distinct (map he_idx q)"
    "\<And>e. e \<in> set q \<Longrightarrow> he_idx e < length (ms_sources st) \<and> src_head (ms_sources st ! he_idx e) \<noteq> None"
    using ok heap by (auto simp: heap_ok_def)
  define w2 where "w2 = release_opt (src_key_charge ?s) w"
  obtain a w3 where read: "run_reader_next_row X (src_reader ?s) w2 = (a, w3)" by (metis surj_pair)
  have calm_row: "a \<noteq> Inl (Panic p)" for p
    using calmD [OF calm_runs(5)] read by blast
  have emit: "(\<forall>p. x \<noteq> Inl (Panic p)) \<and> (\<forall>t. x = Inr t \<longrightarrow> heap_ok u')"
    if "emit_or_skip row (u, v) = (x, u', v')" "heap_ok u"
    for x u v u' v' and row :: "('a, 'b) run_row"
    using that
    by (auto simp: emit_or_skip_def heap_ok_def split: if_splits prod.splits sum.splits
        dest: calm_panic [OF calm_reserve])
  show ?thesis
  proof (cases a)
    case (Inl err)
    then show ?thesis
      using turn heap i row read calm_row
      by (auto simp: merge_turn_def heap_pop_def Let_def attempt_def take_head_def w2_def)
  next
    case (Inr hr)
    obtain head reader where hr: "hr = (head, reader)" by fastforce
    define st3 where "st3 = st\<lparr>ms_heap := q, ms_sources := (ms_sources st)
      [?i := ?s\<lparr>src_key_charge := None, src_head := head, src_reader := reader\<rparr>]\<rparr>"
    have turn3: "and_then (charge_key ?i row) (\<lambda>_. emit_or_skip row) (st3, w3) = (r, st', w')"
      using turn heap i row read Inr hr
      by (simp add: merge_turn_def heap_pop_def Let_def attempt_def take_head_def w2_def st3_def)
    show ?thesis
    proof (cases head)
      case None
      have "heap_ok st3"
        using rest i by (force simp: heap_ok_def st3_def nth_list_update)
      then show ?thesis
        using turn3 emit [of row st3 w3 r st' w'] None i
        by (simp add: attempt_def charge_key_def st3_def)
    next
      case (Some h)
      obtain c w4 where res: "reserve (row_retained h) w3 = (c, w4)" by (metis surj_pair)
      define st4 where "st4 = (\<lambda>c. st3\<lparr>ms_sources := (ms_sources st3)
          [?i := (ms_sources st3 ! ?i)\<lparr>src_key_charge := Some c\<rparr>],
        ms_heap := heap_push (HeapEntry (row_key h) ?i) q\<rparr>)"
      have ok4: "heap_ok (st4 c)" for c
        using rest i Some by (force simp: heap_ok_def st4_def st3_def nth_list_update)
      show ?thesis
      proof (cases c)
        case (Inl e)
        then show ?thesis
          using turn3 res Some i calmD [OF calm_reserve res [unfolded Inl]]
          by (auto simp: attempt_def charge_key_def st3_def)
      next
        case (Inr x)
        then have "emit_or_skip row (st4 x, w4) = (r, st', w')"
          using turn3 res Some i by (simp add: attempt_def charge_key_def st3_def st4_def)
        then show ?thesis using emit ok4 by blast
      qed
    qed
  qed
qed

lemma merge_next_calm:
  "merge_next X s = (r, s') \<Longrightarrow> heap_ok (fst s) \<Longrightarrow>
    (\<forall>p. r \<noteq> Inl (Panic p)) \<and> (\<forall>t. r = Inr t \<longrightarrow> heap_ok (fst s'))"
proof (induction X s rule: merge_next.induct)
  case (1 X s)
  obtain st w where s: "s = (st, w)" by fastforce
  obtain q st1 w1 where turn: "merge_turn X (st, w) = (q, st1, w1)" by (metis surj_pair)
  note b = merge_turn_calm [OF 1(3) [unfolded s fst_conv] turn]
  show ?case
  proof (cases "q = Inr Continue")
    case True
    then show ?thesis
      using 1(1) [OF turn [symmetric, folded s] True HOL.refl] 1(2) turn b s
      by (subst (asm) (2) merge_next.simps) simp
  next
    case False
    then show ?thesis
      using 1(2) turn b s
      by (subst (asm) merge_next.simps) (auto split: sum.splits turn.splits)
  qed
qed

lemma copy_rows_calm:
  "copy_rows X wr s = (r, s') \<Longrightarrow> heap_ok (fst s) \<Longrightarrow> r \<noteq> Inl (Panic p)"
proof (induction X wr s rule: copy_rows.induct)
  case (1 X wr s)
  obtain q st w where row: "merge_next X s = (q, st, w)" by (metis surj_pair)
  note b = merge_next_calm [OF row 1(3)]
  show ?case
  proof (cases "\<exists>y. q = Inr (Some y)")
    case False
    then show ?thesis
      using 1(2) row b by (subst (asm) copy_rows.simps) (auto split: sum.splits option.splits)
  next
    case True
    then obtain y where y: "q = Inr (Some y)" by blast
    obtain x w1 where put: "run_writer_write_row X wr y w = (x, w1)" by (metis surj_pair)
    show ?thesis
    proof (cases x)
      case (Inl e)
      then show ?thesis
        using 1(2) row y put calmD [OF calm_runs(2) put [unfolded Inl]]
        by (subst (asm) copy_rows.simps) auto
    next
      case (Inr wr')
      have "copy_rows X wr' (st, row_drop y w1) = (r, s')"
        using 1(2) row y put Inr by (subst (asm) copy_rows.simps) simp
      then show ?thesis
        using 1(1) [OF row [symmetric] y HOL.refl HOL.refl put [symmetric] Inr] b y by simp
    qed
  qed
qed

lemma calm_remove_all: "calm (remove_all X ps)"
  by (induction ps) (auto intro!: calm_rules)

lemma calm_merge_group:
  assumes "\<And>n. vec_capacity X n = n"
  shows "calm (merge_group_to_file X ps out dedup)"
  unfolding calm_def
proof (intro allI notI)
  fix w p
  assume panic: "fst (merge_group_to_file X ps out dedup w) = Inl (Panic p)"
  obtain q w1 where open1: "merge_state_open X ps dedup w = (q, w1)" by (metis surj_pair)
  note opened = merge_state_open_calm [OF assms open1]
  show False
  proof (cases q)
    case (Inl e)
    then show False using panic open1 opened by (simp add: merge_group_to_file_def attempt_cases)
  next
    case (Inr st)
    then have ok: "heap_ok st" using opened by blast
    have "calm (owning merge_state_drop st (copy_rows X wr))" for wr
      unfolding calm_def
    proof (intro allI notI)
      fix v m
      assume eq: "fst (owning merge_state_drop st (copy_rows X wr) v) = Inl (Panic m)"
      obtain r s' where run: "copy_rows X wr (st, v) = (r, s')" by (metis surj_pair)
      then show False
        using eq copy_rows_calm [OF run] ok
        by (auto simp: owning_def split: prod.splits sum.splits)
    qed
    then have "calm (attempt (merge_state_drop st) (run_writer_create X out) (\<lambda>wr.
     and_then (owning merge_state_drop st (copy_rows X wr)) (\<lambda>(wr, st).
     attempt (merge_state_drop st) (run_writer_finish X wr) (\<lambda>merged.
     and_then (modify (merge_state_drop st)) (\<lambda>_.
     and_then (remove_all X ps) (\<lambda>_. ret merged))))))"
      by (auto intro!: calm_rules calm_runs calm_remove_all)
    then show False
      using panic open1 Inr by (simp add: merge_group_to_file_def attempt_cases calm_def)
  qed
qed

lemma calm_merge_groups:
  "(\<And>n. vec_capacity X n = n) \<Longrightarrow> calm (merge_groups X dir pass i gs)"
  by (induction gs arbitrary: i) (auto intro!: calm_rules calm_merge_group)

lemma calm_cascade:
  assumes "\<And>n. vec_capacity X n = n"
  shows "calm (cascade X fan_in dir pass runs)"
  unfolding calm_def
proof (intro allI)
  fix w p
  show "fst (cascade X fan_in dir pass runs w) \<noteq> Inl (Panic p)"
  proof (induction "length runs" arbitrary: pass runs w rule: less_induct)
    case less
    obtain r w1 where groups: "merge_groups X dir pass 0 (chunks (max fan_in 2) runs) w = (r, w1)"
      by (metis surj_pair)
    show ?case
    proof (cases r)
      case (Inl e)
      then show ?thesis
        using groups calmD [OF calm_merge_groups [OF assms] groups [unfolded Inl]]
        by (subst cascade.simps) simp
    next
      case (Inr runs')
      then show ?thesis
        using groups by (subst cascade.simps)
          (auto intro!: less [OF merge_groups_shrink [OF groups [unfolded Inr]]])
    qed
  qed
qed

end
