(* ===== verification/Cleanup.thy ===== *)
theory Cleanup
  imports RunStore
begin

text \<open>
  Scratch-directory removal tied to object lifetime (src/engine/cleanup.rs): the guard, its
  in-band cleanup, and the removal its drop spawns, modelled at the moment that job runs.
\<close>

section \<open>The guard\<close>

record cleanup_guard =
  cg_dir :: "path option"
  cg_reservation :: "memory_charge option"
  cg_fds :: bool

definition guard_disarmed :: cleanup_guard where
  "guard_disarmed = \<lparr>cg_dir = None, cg_reservation = None, cg_fds = False\<rparr>"

definition guard_set_fd_budget :: "cleanup_guard \<Rightarrow> fault + cleanup_guard" where
  "guard_set_fd_budget g =
     (if cg_dir g \<noteq> None then Inl (Panic ''descriptor budget is assigned before scratch creation'')
      else Inr (g\<lparr>cg_fds := True\<rparr>))"

definition guard_retain :: "memory_charge \<Rightarrow> cleanup_guard \<Rightarrow> fault + cleanup_guard" where
  "guard_retain c g =
     (if cg_reservation g \<noteq> None then Inl (Panic ''scratch reservation is assigned once'')
      else Inr (g\<lparr>cg_reservation := Some c\<rparr>))"

definition guard_take_reservation :: "cleanup_guard \<Rightarrow> memory_charge option \<times> cleanup_guard" where
  "guard_take_reservation g = (cg_reservation g, g\<lparr>cg_reservation := None\<rparr>)"

definition guard_arm :: "path \<Rightarrow> cleanup_guard \<Rightarrow> cleanup_guard" where
  "guard_arm dir g = (case cg_dir g of None \<Rightarrow> g\<lparr>cg_dir := Some dir\<rparr> | Some _ \<Rightarrow> g)"

lemma guard_arm_fields [simp]:
  "cg_fds (guard_arm d g) = cg_fds g" "cg_reservation (guard_arm d g) = cg_reservation g"
  by (auto simp: guard_arm_def split: option.splits)

text \<open>Waiting for the operations of the scope that are still running.\<close>

definition scope_idle :: "('fs world, unit) act" where
  "scope_idle w = (if w_pending w = 0 then (Inr (), w) else (Inl Waiting, w))"

text \<open>The guard is borrowed, so it is threaded through faults as well.\<close>

definition guard_cleanup ::
    "('fs, 'h, 'k, 'v) ext \<Rightarrow> (cleanup_guard \<times> 'fs world, unit) act" where
  "guard_cleanup X = (\<lambda>(g, w).
     case cg_dir g of
       None \<Rightarrow> (Inr (), (g, w))
     | Some dir \<Rightarrow>
         (case and_then scope_idle (\<lambda>_.
            if \<not> cg_fds g then fail (Panic ''armed scratch has a descriptor budget'')
            else perform_reserved (\<lambda>w. w) (io (fs_remove_dir_all X dir))) w of
            (Inl e, w') \<Rightarrow> (Inl e, (g, w'))
          | (Inr _, w') \<Rightarrow>
              (Inr (), (g\<lparr>cg_dir := None, cg_reservation := None\<rparr>, release_opt (cg_reservation g) w'))))"

text \<open>
  Dropping an armed guard inside a runtime spawns the removal; its error is only logged, and
  the reservation is released when the job ends. Outside a runtime, and where the code would
  stop at its \<open>expect\<close> of a descriptor budget, nothing is removed.
\<close>

definition guard_drop ::
    "('fs, 'h, 'k, 'v) ext \<Rightarrow> bool \<Rightarrow> cleanup_guard \<Rightarrow> 'fs world \<Rightarrow> 'fs world" where
  "guard_drop X in_runtime g w =
     (case cg_dir g of
        None \<Rightarrow> release_opt (cg_reservation g) w
      | Some dir \<Rightarrow>
          if \<not> in_runtime \<or> \<not> cg_fds g then release_opt (cg_reservation g) w
          else release_opt (cg_reservation g)
                 (snd (detached (and_then scope_idle (\<lambda>_.
                    perform_reserved (\<lambda>w. w) (io (fs_remove_dir_all X dir)))) w)))"

section \<open>Accounts and frames\<close>

lemma scope_idle_conserves: "conserves held_bytes 0 scope_idle (\<lambda>_. 0)"
  by (simp add: conserves_def scope_idle_def)

lemma remove_dir_conserves:
  "conserves held_bytes 0 (perform_reserved (\<lambda>w. w) (io (fs_remove_dir_all X dir))) (\<lambda>_. 0)"
  unfolding perform_reserved_def by (rule perform_reserved_conserves [OF io_conserves]) simp_all

lemma guard_cleanup_held:
  assumes "guard_cleanup X (g, w) = (r, g', w')"
  shows "held_bytes w' - charge_bytes (cg_reservation g')
    = held_bytes w - charge_bytes (cg_reservation g)"
proof (cases "cg_dir g")
  case None
  then show ?thesis using assms by (auto simp: guard_cleanup_def)
next
  case (Some dir)
  let ?m = "and_then scope_idle (\<lambda>_.
      if \<not> cg_fds g then fail (Panic ''armed scratch has a descriptor budget'')
      else perform_reserved (\<lambda>w. w) (io (fs_remove_dir_all X dir)))"
  have m: "conserves held_bytes 0 ?m (\<lambda>_. 0)"
    by (intro conserves_and_then [OF scope_idle_conserves])
      (auto intro: conserves_fail remove_dir_conserves)
  obtain q w1 where run: "?m w = (q, w1)" by (metis surj_pair)
  have "held_bytes w1 = held_bytes w"
    using m run by (cases q) (auto dest: conserves_fault conserves_value)
  then show ?thesis
    using assms Some run
    by (cases q) (auto simp: guard_cleanup_def held_release_opt charge_bytes_def split: option.splits)
qed

lemma held_guard_drop:
  "held_bytes (guard_drop X rt g w) = held_bytes w - charge_bytes (cg_reservation g)"
proof -
  have m: "conserves held_bytes 0
      (and_then scope_idle (\<lambda>_. perform_reserved (\<lambda>w. w) (io (fs_remove_dir_all X dir)))) (\<lambda>_. 0)" for dir
    by (intro conserves_and_then [OF scope_idle_conserves] remove_dir_conserves)
  note detached_conserves [OF m, simp]
  show ?thesis
    by (auto simp: guard_drop_def held_release_opt charge_bytes_def split: option.splits)
qed

lemma scope_idle_frames: "keeps R scope_idle" if "\<And>w. R w w"
  using that by (simp add: keeps_def scope_idle_def)

lemma remove_dir_frames:
  "keeps within_cap (perform_reserved (\<lambda>w. w) (io (fs_remove_dir_all X dir)))"
  "keeps same_permits (perform_reserved (\<lambda>w. w) (io (fs_remove_dir_all X dir)))"
  unfolding perform_reserved_def
  by (auto intro: capped.keeps_perform_reserved io_within_cap perform_reserved_same_permits
      io_same_permits permits.refl cap.refl)

lemma guard_cleanup_frames:
  assumes "guard_cleanup X (g, w) = (r, g', w')"
  shows "within_cap w w' \<and> same_permits w w'"
proof (cases "cg_dir g")
  case None
  then show ?thesis using assms by (auto simp: guard_cleanup_def cap.refl permits.refl)
next
  case (Some dir)
  let ?m = "and_then scope_idle (\<lambda>_.
      if \<not> cg_fds g then fail (Panic ''armed scratch has a descriptor budget'')
      else perform_reserved (\<lambda>w. w) (io (fs_remove_dir_all X dir)))"
  have m: "keeps within_cap ?m" "keeps same_permits ?m"
    by (auto intro!: cap.keeps_intros permits.keeps_intros scope_idle_frames remove_dir_frames)
  obtain q w1 where run: "?m w = (q, w1)" by (metis surj_pair)
  have "w' = w1 \<or> w' = release_opt (cg_reservation g) w1"
    using assms Some run by (cases q) (auto simp: guard_cleanup_def)
  moreover have "within_cap w1 (release_opt (cg_reservation g) w1)"
    "same_permits w1 (release_opt (cg_reservation g) w1)"
    by (auto intro: release_frames same_permitsI)
  ultimately show ?thesis
    using keepsD [OF m(1) run] keepsD [OF m(2) run]
    by (auto intro: cap.trans permits.trans)
qed

lemma guard_drop_frames: "within_cap w (guard_drop X rt g w) \<and> same_permits w (guard_drop X rt g w)"
proof -
  have "keeps within_cap (and_then scope_idle (\<lambda>_. perform_reserved (\<lambda>w. w) (io (fs_remove_dir_all X dir))))"
    "keeps same_permits (and_then scope_idle (\<lambda>_. perform_reserved (\<lambda>w. w) (io (fs_remove_dir_all X dir))))" for dir
    by (auto intro!: cap.keeps_intros permits.keeps_intros scope_idle_frames remove_dir_frames)
  then have m: "keeps within_cap (detached (and_then scope_idle (\<lambda>_. perform_reserved (\<lambda>w. w) (io (fs_remove_dir_all X dir)))))"
    "keeps same_permits (detached (and_then scope_idle (\<lambda>_. perform_reserved (\<lambda>w. w) (io (fs_remove_dir_all X dir)))))" for dir
    by (blast intro: capped.keeps_detached detached_same_permits)+
  have r: "within_cap w (release_opt c w)" "same_permits w (release_opt c w)" for w :: "'a world" and c
    by (auto intro: release_frames same_permitsI)
  show ?thesis
    using m unfolding keeps_def guard_drop_def
    by (auto simp: r intro: cap.trans [OF _ r(1)] permits.trans [OF _ r(2)] split: option.splits)
qed

section \<open>What cleanup removes\<close>

lemma guard_cleanup_ok:
  assumes L: "ext_laws X view hpath hpos" and run: "guard_cleanup X (g, w) = (Inr (), g', w')"
    and armed: "cg_dir g = Some dir"
  shows "(\<forall>name. view (w_files w') (join dir name) = None)
    \<and> (\<forall>q. take (length dir) q \<noteq> dir \<longrightarrow> view (w_files w') q = view (w_files w) q)
    \<and> cg_dir g' = None \<and> cg_reservation g' = None
    \<and> held_bytes w' = held_bytes w - charge_bytes (cg_reservation g)"
proof -
  have g': "g' = g\<lparr>cg_dir := None, cg_reservation := None\<rparr>"
    using run armed by (auto simp: guard_cleanup_def split: prod.splits sum.splits)
  obtain s where s: "fs_remove_dir_all X dir (w_files w) = (Inr (), s)" "w_files w' = s"
    using run armed
    by (auto simp: guard_cleanup_def act_ok scope_idle_def perform_reserved_def perform_reserved_ok
        split: prod.splits sum.splits if_splits dest!: caller_stays_fields)
  have "\<forall>q. view s q = (if take (length dir) q = dir then None else view (w_files w) q)"
    using L s(1) by (simp add: ext_laws_def dir_laws_def)
  then show ?thesis
    using s g' guard_cleanup_held [OF run] by (simp add: join_def)
qed

end
