(* ===== verification/ValueStream.thy ===== *)
theory ValueStream
  imports MergeSpec MergeSafety Cleanup "HOL-Library.Sublist"
begin

text \<open>
  The lazy output of an external sort (src/engine/merge.rs, \<open>cascade_and_stream\<close> and
  \<open>value_stream\<close>): polling the unfolded stream, what it drops when it ends or fails, and
  draining it.
\<close>

section \<open>Polling\<close>

text \<open>The opaque resource of a session, usually the admission lease, by its identity.\<close>

type_synonym resource = nat

record ('k, 'v) value_stream =
  vs_state :: "('k, 'v) merge_state option"
  vs_guard :: cleanup_guard
  vs_hold :: "resource option"
  vs_reported :: bool

datatype ('v, 's) pulled = Ended | Yielded (item: "error + 'v") (rest: 's)

definition stream_drop ::
    "('fs, 'h, 'k, 'v) ext \<Rightarrow> ('k, 'v) value_stream \<Rightarrow> 'fs world \<Rightarrow> 'fs world" where
  "stream_drop X vs w =
     guard_drop X True (vs_guard vs)
       (case vs_state vs of None \<Rightarrow> w | Some st \<Rightarrow> merge_state_drop st w)"

text \<open>The end of the rows: the scratch directory is removed, an error is reported once.\<close>

definition stream_end ::
    "('fs, 'h, 'k, 'v) ext \<Rightarrow> ('k, 'v) value_stream
      \<Rightarrow> ('fs world, ('v, ('k, 'v) value_stream) pulled) act" where
  "stream_end X vs w =
     (case guard_cleanup X (vs_guard vs, w) of
        (Inr _, (g, w')) \<Rightarrow> (Inr Ended, stream_drop X (vs\<lparr>vs_guard := g\<rparr>) w')
      | (Inl e, (g, w')) \<Rightarrow>
          (case e of
             Raise err \<Rightarrow>
               (Inr (Yielded (Inl err) (vs\<lparr>vs_state := None, vs_guard := g, vs_reported := True\<rparr>)),
                case vs_state vs of None \<Rightarrow> w' | Some st \<Rightarrow> merge_state_drop st w')
           | _ \<Rightarrow> (Inl e, stream_drop X (vs\<lparr>vs_guard := g\<rparr>) w')))"

definition value_stream_next ::
    "('fs, 'h, 'k::linorder, 'v) ext \<Rightarrow> ('k, 'v) value_stream
      \<Rightarrow> ('fs world, ('v, ('k, 'v) value_stream) pulled) act" where
  "value_stream_next X vs w =
     (case vs_state vs of
        None \<Rightarrow> if vs_reported vs then (Inr Ended, stream_drop X vs w) else stream_end X vs w
      | Some st \<Rightarrow>
          (case merge_next X (st, w) of
             (Inr r, (st', w')) \<Rightarrow>
               (case r of
                  Some row \<Rightarrow>
                    (Inr (Yielded (Inr (row_value row)) (vs\<lparr>vs_state := Some st', vs_reported := False\<rparr>)),
                     row_drop row w')
                | None \<Rightarrow> stream_end X (vs\<lparr>vs_state := Some st'\<rparr>) w')
           | (Inl e, (st', w')) \<Rightarrow>
               (case e of
                  Raise err \<Rightarrow>
                    (Inr (Yielded (Inl err) (vs\<lparr>vs_state := None, vs_reported := False\<rparr>)),
                     merge_state_drop st' w')
                | _ \<Rightarrow> (Inl e, stream_drop X (vs\<lparr>vs_state := Some st'\<rparr>) w'))))"

text \<open>The passes over the runs and the stream of the last merge.\<close>

definition cascade_and_stream ::
    "('fs, 'h, 'k::linorder, 'v) ext \<Rightarrow> path list \<Rightarrow> nat \<Rightarrow> path \<Rightarrow> cleanup_guard \<Rightarrow> bool
      \<Rightarrow> resource option \<Rightarrow> ('fs world, ('k, 'v) value_stream) act" where
  "cascade_and_stream X runs fan_in dir guard dedup hold =
     attempt (guard_drop X True guard) (cascade X fan_in dir 0 runs) (\<lambda>runs.
     attempt (guard_drop X True guard) (merge_state_open X runs dedup) (\<lambda>state.
     ret \<lparr>vs_state = Some state, vs_guard = guard, vs_hold = hold, vs_reported = False\<rparr>))"

section \<open>Draining\<close>

text \<open>Polls left at most: the rows, the error that ends them, the error of the cleanup.\<close>

definition polls_left :: "('k, 'v) value_stream \<Rightarrow> nat" where
  "polls_left vs =
     (case vs_state vs of Some st \<Rightarrow> rows_left st + 3 | None \<Rightarrow> if vs_reported vs then 1 else 2)"

lemma stream_end_shape:
  assumes "stream_end X vs w = (Inr (Yielded i vs'), w')"
  shows "vs_state vs' = None \<and> vs_reported vs' \<and> (\<exists>e. i = Inl e) \<and> vs_hold vs' = vs_hold vs"
  using assms by (auto simp: stream_end_def split: prod.splits sum.splits fault.splits)

lemma value_stream_next_polls_left:
  assumes "value_stream_next X vs w = (Inr (Yielded i vs'), w')"
  shows "polls_left vs' < polls_left vs"
proof (cases "vs_state vs")
  case None
  then show ?thesis
    using assms stream_end_shape [of X vs w i vs' w']
    by (auto simp: value_stream_next_def polls_left_def split: if_splits)
next
  case (Some st)
  obtain r st' w1 where run: "merge_next X (st, w) = (r, st', w1)" by (metis surj_pair)
  show ?thesis
  proof (cases r)
    case (Inl e)
    then show ?thesis
      using assms Some run
      by (auto simp: value_stream_next_def polls_left_def split: fault.splits)
  next
    case (Inr o')
    show ?thesis
    proof (cases o')
      case None
      then have "vs_state vs' = None \<and> vs_reported vs'"
        using assms Some run Inr stream_end_shape [of X "vs\<lparr>vs_state := Some st'\<rparr>" w1 i vs' w']
        by (simp add: value_stream_next_def)
      then show ?thesis by (simp add: polls_left_def Some)
    next
      case row: (Some row)
      then show ?thesis
        using assms Some run Inr merge_next_rows_left [of X "(st, w)" row "(st', w1)"]
        by (auto simp: value_stream_next_def polls_left_def)
    qed
  qed
qed

text \<open>Pulling until the stream ends: its items, and the fault that stopped it, if one did.\<close>

function drain ::
    "('fs, 'h, 'k::linorder, 'v) ext \<Rightarrow> ('k, 'v) value_stream \<Rightarrow> 'fs world
      \<Rightarrow> ((error + 'v) list \<times> fault option) \<times> 'fs world" where
  "drain X vs w =
     (case value_stream_next X vs w of
        (Inl e, w') \<Rightarrow> (([], Some e), w')
      | (Inr p, w') \<Rightarrow>
          (case p of
             Ended \<Rightarrow> (([], None), w')
           | Yielded i vs' \<Rightarrow> (case drain X vs' w' of ((later, e), w'') \<Rightarrow> ((i # later, e), w''))))"
  by pat_completeness auto

termination
  by (relation "measure (\<lambda>(X, vs, w). polls_left vs)")
    (auto dest!: sym [of "(Inr _, _)"] dest: value_stream_next_polls_left)

declare drain.simps [simp del]

section \<open>What a drained stream yields\<close>

lemma drain_after:
  assumes "vs_state vs = None" and "drain X vs w = ((items, e), w')"
  shows "\<exists>errs. items = map Inl errs \<and> length errs \<le> (if vs_reported vs then 0 else 1)"
proof (cases "vs_reported vs")
  case True
  then show ?thesis
    using assms by (subst (asm) drain.simps) (auto simp: value_stream_next_def)
next
  case False
  obtain r w1 where run: "stream_end X vs w = (r, w1)" by (metis surj_pair)
  show ?thesis
  proof (cases "\<exists>i vs'. r = Inr (Yielded i vs')")
    case False
    then show ?thesis
      using assms run \<open>\<not> vs_reported vs\<close>
      by (subst (asm) drain.simps) (auto simp: value_stream_next_def split: sum.splits pulled.splits)
  next
    case True
    then obtain i vs' where r: "r = Inr (Yielded i vs')" by blast
    note shape = stream_end_shape [OF run [unfolded r]]
    then have "drain X vs' w1 = (([], None), stream_drop X vs' w1)"
      by (subst drain.simps) (simp add: value_stream_next_def)
    then show ?thesis
      using assms run r shape \<open>\<not> vs_reported vs\<close>
      by (subst (asm) drain.simps) (auto simp: value_stream_next_def intro: exI [of _ "[_]"])
  qed
qed

lemma drain_spec:
  "ext_laws X view hpath hpos \<Longrightarrow> drain X vs w = ((items, e), w') \<Longrightarrow> vs_state vs = Some st \<Longrightarrow>
    merge_at X (view (w_files w)) P st ls \<Longrightarrow>
    \<exists>vals errs. items = map Inr vals @ map Inl errs
      \<and> prefix vals (map row_value (pending st ls))
      \<and> (errs = [] \<and> e = None \<longrightarrow> vals = map row_value (pending st ls))"
proof (induction X vs w arbitrary: st ls items rule: drain.induct)
  case (1 X vs w)
  note L = 1(2) and run = 1(3) and vs = 1(4) and at = 1(5)
  obtain r st' w1 where step: "merge_next X (st, w) = (r, st', w1)" by (metis surj_pair)
  show ?case
  proof (cases r)
    case (Inl f)
    show ?thesis
    proof (cases f)
      case (Raise err)
      let ?vs = "vs\<lparr>vs_state := None, vs_reported := False\<rparr>"
      obtain later w2 where after: "drain X ?vs (merge_state_drop st' w1) = ((later, e), w2)"
        "items = Inl err # later"
        using run vs step Inl Raise
        by (subst (asm) drain.simps) (auto simp: value_stream_next_def split: prod.splits)
      then obtain errs where "items = map Inl (err # errs)"
        using drain_after [OF _ after(1)] by auto
      then show ?thesis
        by (intro exI [of _ "[]"] exI [of _ "err # errs"]) simp
    qed (use run vs step Inl in \<open>subst (asm) drain.simps, auto simp: value_stream_next_def\<close>)+
  next
    case (Inr o')
    obtain ls' where next_at: "merge_at X (view (w_files w1)) P st' ls'"
      "case o' of None \<Rightarrow> pending st ls = []
       | Some row \<Rightarrow> pending st ls = stored row # pending st' ls' \<and> row_charge row \<noteq> None"
      using merge_next_spec [OF L step [unfolded Inr], of P ls] at unfolding fst_conv snd_conv by blast
    show ?thesis
    proof (cases o')
      case None
      let ?vs = "vs\<lparr>vs_state := Some st'\<rparr>"
      obtain q w2 where fin: "stream_end X ?vs w1 = (q, w2)" by (metis surj_pair)
      have poll: "value_stream_next X vs w = (q, w2)"
        using vs step Inr None fin by (simp add: value_stream_next_def)
      have "\<exists>errs. items = map Inl errs"
      proof (cases "\<exists>i vs'. q = Inr (Yielded i vs')")
        case False
        then show ?thesis
          using run poll by (subst (asm) drain.simps) (auto split: sum.splits pulled.splits)
      next
        case True
        then obtain i vs' where q: "q = Inr (Yielded i vs')" by blast
        note shape = stream_end_shape [OF fin [unfolded q]]
        obtain later w3 where "drain X vs' w2 = ((later, e), w3)" "items = i # later"
          using run poll q by (subst (asm) drain.simps) (auto split: prod.splits)
        then show ?thesis
          using drain_after [of vs' X w2 later e w3] shape
          by (auto intro: exI [of _ "_ # _"])
      qed
      then show ?thesis
        using next_at(2) None by (auto intro: exI [of _ "[]"])
    next
      case (Some row)
      let ?vs = "vs\<lparr>vs_state := Some st', vs_reported := False\<rparr>"
      have poll: "value_stream_next X vs w = (Inr (Yielded (Inr (row_value row)) ?vs), row_drop row w1)"
        using vs step Inr Some by (simp add: value_stream_next_def)
      obtain later w2 where more: "drain X ?vs (row_drop row w1) = ((later, e), w2)" "w2 = w'"
        "items = Inr (row_value row) # later"
        using run poll by (subst (asm) drain.simps) (auto split: prod.splits)
      obtain vals errs where "later = map Inr vals @ map Inl errs"
        "prefix vals (map row_value (pending st' ls'))"
        "errs = [] \<and> e = None \<longrightarrow> vals = map row_value (pending st' ls')"
        using 1(1) [OF poll [symmetric] HOL.refl HOL.refl L, of later st' ls'] more next_at(1) by auto
      then show ?thesis
        using more(3) next_at(2) Some
        by (intro exI [of _ "row_value row # vals"] exI [of _ errs]) simp
    qed
  qed
qed

end
