(* ===== verification/Session.thy ===== *)
theory Session
  imports ValueStream Planner
begin

text \<open>
  One sort in flight (src/engine/session.rs, src/engine/session/buffer.rs): rows are pushed
  into a charged buffer, full buffers are spilled as runs into a binary-counter frontier of
  64 levels, and \<open>finish\<close> streams the buffer or the cascade over the frontier. Operations
  are actions on the session and its world, so a fault leaves both as they were left.
\<close>

section \<open>State\<close>

record ('k, 'v) session =
  ss_plan :: sort_plan
  ss_buffer_charge :: "memory_charge option"
  ss_metadata_reserved :: bool
  ss_next_row :: u64
  ss_dir :: path
  ss_dedup :: bool
  ss_buffer :: "('k, 'v) run_row list"
  ss_capacity :: usize
  ss_buffer_bytes :: usize
  ss_spills :: "path option list"
  ss_next_run :: u64
  ss_failed :: bool
  ss_hold :: "resource option"
  ss_cleanup :: cleanup_guard

type_synonym ('fs, 'k, 'v, 'a) session_act = "(('k, 'v) session \<times> 'fs world, 'a) act"

text \<open>The semaphore and the budget of a new session, over the files at hand.\<close>

definition session_world :: "sort_plan \<Rightarrow> 'fs \<Rightarrow> 'fs world" where
  "session_world plan files =
     \<lparr>w_budget = budget_new (256 * 1024 * 1024),
      w_permits = (case plan of InMemory \<Rightarrow> 2 | External _ fan \<Rightarrow> unat (max fan 2)),
      w_pending = 0, w_leaves = [], w_files = files\<rparr>"

definition session_new :: "sort_plan \<Rightarrow> path \<Rightarrow> bool \<Rightarrow> fault + ('k, 'v) session" where
  "session_new plan dir dedup =
     (case guard_set_fd_budget guard_disarmed of
        Inl e \<Rightarrow> Inl e
      | Inr g \<Rightarrow>
          Inr \<lparr>ss_plan = plan, ss_buffer_charge = None, ss_metadata_reserved = False,
               ss_next_row = 0, ss_dir = dir, ss_dedup = dedup, ss_buffer = [], ss_capacity = 0,
               ss_buffer_bytes = 0, ss_spills = replicate 64 None, ss_next_run = 0,
               ss_failed = False, ss_hold = None, ss_cleanup = g\<rparr>)"

text \<open>The fresh identifier of the directory is drawn outside the code.\<close>

definition session_with_temp_dir ::
    "string \<Rightarrow> sort_plan \<Rightarrow> path \<Rightarrow> bool \<Rightarrow> fault + ('k, 'v) session" where
  "session_with_temp_dir uuid plan root dedup = session_new plan (join root (''sort-'' @ uuid)) dedup"

definition hold_resource :: "resource \<Rightarrow> ('k, 'v) session \<Rightarrow> ('k, 'v) session" where
  "hold_resource r ss = ss\<lparr>ss_hold := Some r\<rparr>"

definition with_fd_budget :: "nat \<Rightarrow> ('fs, 'k, 'v, unit) session_act" where
  "with_fd_budget fds = (\<lambda>(ss, w).
     case guard_set_fd_budget (ss_cleanup ss) of
       Inl e \<Rightarrow> (Inl e, (ss, w))
     | Inr g \<Rightarrow> (Inr (), (ss\<lparr>ss_cleanup := g\<rparr>, w\<lparr>w_permits := fds\<rparr>)))"

definition with_memory_budget :: "budget \<Rightarrow> ('fs, 'k, 'v, unit) session_act" where
  "with_memory_budget b = (\<lambda>(ss, w). (Inr (), (ss, w\<lparr>w_budget := b\<rparr>)))"

definition with_memory_limit_bytes :: "u64 \<Rightarrow> ('fs, 'k, 'v, unit) session_act" where
  "with_memory_limit_bytes bytes = (\<lambda>(ss, w).
     if is_governed (w_budget w)
     then (Inl (Panic ''cannot replace the process-governed memory budget''), (ss, w))
     else if \<not> (ss_next_row ss = 0 \<and> \<not> ss_metadata_reserved ss)
     then (Inl (Panic ''memory cap is configured before ingestion''), (ss, w))
     else (Inr (), (ss, w\<lparr>w_budget := budget_new bytes\<rparr>)))"

section \<open>Steps on a session\<close>

definition on_world :: "('w, 'a) act \<Rightarrow> ('s \<times> 'w, 'a) act" where
  "on_world m = (\<lambda>(s, w). case m w of (r, w') \<Rightarrow> (r, (s, w')))"

definition reading :: "('s \<Rightarrow> ('s \<times> 'w, 'a) act) \<Rightarrow> ('s \<times> 'w, 'a) act" where
  "reading f = (\<lambda>(s, w). f s (s, w))"

definition updating :: "('s \<Rightarrow> 's) \<Rightarrow> ('s \<times> 'w, unit) act" where
  "updating g = modify (\<lambda>(s, w). (g s, w))"

definition drop_charge :: "memory_charge \<Rightarrow> 's \<times> 'fs world \<Rightarrow> 's \<times> 'fs world" where
  "drop_charge c = (\<lambda>(s, w). (s, release c w))"

lemma on_world_ok [act_ok]:
  "on_world m s = (Inr x, s') \<longleftrightarrow> m (snd s) = (Inr x, snd s') \<and> fst s' = fst s"
  by (cases s; cases s') (auto simp: on_world_def split: prod.splits)

lemma reading_eq [simp]: "reading f s = f (fst s) s"
  by (cases s) (simp add: reading_def)

lemma updating_ok [act_ok]:
  "updating g s = (Inr x, s') \<longleftrightarrow> s' = (g (fst s), snd s)"
  by (cases s) (auto simp: updating_def modify_def)

lemma updating_fault [act_fault]: "updating g s = (Inl e, t) \<longleftrightarrow> False"
  by (simp add: updating_def modify_def)

lemma on_world_fault [act_fault]:
  "on_world m s = (Inl e, s') \<longleftrightarrow> m (snd s) = (Inl e, snd s') \<and> fst s' = fst s"
  by (cases s; cases s') (auto simp: on_world_def split: prod.splits)

lemma conserves_reading: "(\<And>ss. conserves \<mu> a (f ss) b) \<Longrightarrow> conserves \<mu> a (reading f) b"
  by (simp add: conserves_def)

lemma keeps_reading: "(\<And>ss. keeps R (f ss)) \<Longrightarrow> keeps R (reading f)"
  by (simp add: keeps_def)

text \<open>A relation on worlds, on states next to a world.\<close>

definition world_rel :: "('w \<Rightarrow> 'w \<Rightarrow> bool) \<Rightarrow> 's \<times> 'w \<Rightarrow> 's \<times> 'w \<Rightarrow> bool" where
  "world_rel R s t \<longleftrightarrow> R (snd s) (snd t)"

lemma world_rel_on_world: "keeps R m \<Longrightarrow> keeps (world_rel R) (on_world m)"
  by (auto intro!: keepsI simp: on_world_def world_rel_def split: prod.splits dest: keepsD)

section \<open>The buffer\<close>

definition ensure_usable :: "('fs, 'k, 'v, unit) session_act" where
  "ensure_usable = reading (\<lambda>ss. if ss_failed ss then fail (Raise SessionFailed) else ret ())"

definition reserve_metadata ::
    "('fs, 'h, 'k, 'v) ext \<Rightarrow> ('fs, 'k, 'v, unit) session_act" where
  "reserve_metadata X = reading (\<lambda>ss.
     if ss_metadata_reserved ss then ret ()
     else
       and_then (ok_or (Raise RunLimit) (checked_add (path_capacity X (ss_dir ss)) 128)) (\<lambda>path_bytes.
       and_then (ok_or (Raise RunLimit) (Option.bind (checked_mul path_bytes 256)
         (\<lambda>n. checked_add n (size_of_session X)))) (\<lambda>bytes.
       and_then (on_world (reserve bytes)) (\<lambda>c.
       case guard_retain c (ss_cleanup ss) of
         Inl e \<Rightarrow> bail (drop_charge c) e
       | Inr g \<Rightarrow> updating (\<lambda>ss. ss\<lparr>ss_cleanup := g, ss_metadata_reserved := True\<rparr>)))))"

definition grow_buffer :: "('fs, 'h, 'k, 'v) ext \<Rightarrow> ('fs, 'k, 'v, unit) session_act" where
  "grow_buffer X = reading (\<lambda>ss.
     if length (ss_buffer ss) < unat (ss_capacity ss) then ret ()
     else
       and_then (ok_or (Raise RunLimit) (checked_mul (max (ss_capacity ss) 1) 2)) (\<lambda>capacity.
       and_then (ok_or (Raise RunLimit) (checked_mul capacity (size_of_row X))) (\<lambda>bytes.
       and_then (on_world (reserve bytes)) (\<lambda>c.
       if vec_capacity X capacity \<noteq> capacity
       then bail (drop_charge c) (Panic ''exact row capacity reservation'')
       else
         and_then (on_world (modify (release_opt (ss_buffer_charge ss)))) (\<lambda>_.
         updating (\<lambda>ss. ss\<lparr>ss_capacity := capacity, ss_buffer_charge := Some c\<rparr>))))))"

definition buffer_limit :: "('fs, 'k, 'v, usize) session_act" where
  "buffer_limit = reading (\<lambda>ss.
     and_then (on_world limit_now) (\<lambda>limit.
     let shared = max (limit div 8) 1
     in ret (case ss_plan ss of
               InMemory \<Rightarrow> min shared (8 * 1024 * 1024)
             | External bytes _ \<Rightarrow> min shared (max bytes 1))))"

text \<open>\<open>sort_unstable_by\<close> on key and ordinal; ordinals are distinct, so the order is unique.\<close>

definition sort_rows :: "('k::linorder, 'v) run_row list \<Rightarrow> ('k, 'v) run_row list" where
  "sort_rows = sort_key (\<lambda>r. (row_key r, row_ordinal r))"

definition rows_drop :: "('k, 'v) run_row list \<Rightarrow> 'fs world \<Rightarrow> 'fs world" where
  "rows_drop rows = fold row_drop rows"

section \<open>Spilling\<close>

text \<open>
  The walk over the frontier: an empty slot takes the run, an occupied one is emptied and
  its older run merged with the new one before the next level.
\<close>

fun carry ::
    "('fs, 'h, 'k::linorder, 'v) ext \<Rightarrow> u64 \<Rightarrow> nat list \<Rightarrow> path \<Rightarrow> ('fs, 'k, 'v, unit) session_act" where
  "carry X ordinal [] run =
     fail (Panic ''a checked u64 spill count always fits in 64 frontier levels'')"
| "carry X ordinal (level # levels) run = reading (\<lambda>ss.
     case ss_spills ss ! level of
       None \<Rightarrow>
         updating (\<lambda>ss. ss\<lparr>ss_spills := (ss_spills ss)[level := Some run], ss_failed := False\<rparr>)
     | Some older \<Rightarrow>
         and_then (updating (\<lambda>ss. ss\<lparr>ss_spills := (ss_spills ss)[level := None]\<rparr>)) (\<lambda>_.
         and_then (on_world (merge_group_to_file X [older, run]
           (join (ss_dir ss) (carry_name ordinal level)) False)) (\<lambda>merged.
         carry X ordinal levels merged)))"

definition clear_buffer :: "('fs, 'k, 'v, unit) session_act" where
  "clear_buffer = modify (\<lambda>(ss, w).
     (ss\<lparr>ss_buffer := [], ss_capacity := 0, ss_buffer_charge := None, ss_buffer_bytes := 0\<rparr>,
      release_opt (ss_buffer_charge ss) (rows_drop (ss_buffer ss) w)))"

text \<open>The body of a spill once the session is marked: write the run, then carry it.\<close>

definition spill_run ::
    "('fs, 'h, 'k::linorder, 'v) ext \<Rightarrow> u64 \<Rightarrow> path \<Rightarrow> ('fs, 'k, 'v, unit) session_act" where
  "spill_run X ordinal dir =
     and_then (on_world (perform (\<lambda>w. w) (size_of_future X EnsureDir)
       (path_capacity X dir) (io (fs_ensure_dir X dir)))) (\<lambda>_.
     and_then (on_world (run_writer_create X (join dir (run_name ordinal)))) (\<lambda>wr.
     and_then (reading (\<lambda>ss. on_world (write_rows X wr (ss_buffer ss)))) (\<lambda>wr.
     and_then (on_world (run_writer_finish X wr)) (\<lambda>run.
     and_then clear_buffer (\<lambda>_.
     carry X ordinal [0..<64] run)))))"

definition spill :: "('fs, 'h, 'k::linorder, 'v) ext \<Rightarrow> ('fs, 'k, 'v, unit) session_act" where
  "spill X = reading (\<lambda>ss.
     if ss_buffer ss = [] then ret ()
     else
       let ordinal = ss_next_run ss
       in and_then (updating (\<lambda>ss. ss\<lparr>ss_failed := True\<rparr>)) (\<lambda>_.
          and_then (ok_or (Raise RunLimit) (checked_add ordinal 1)) (\<lambda>next_run.
          and_then (updating (\<lambda>ss. ss\<lparr>ss_next_run := next_run, ss_buffer := sort_rows (ss_buffer ss),
            ss_cleanup := guard_arm (ss_dir ss) (ss_cleanup ss)\<rparr>)) (\<lambda>_.
          spill_run X ordinal (ss_dir ss)))))"

section \<open>Pushing\<close>

text \<open>The spill before a row that would overflow the buffer.\<close>

definition spill_before ::
    "('fs, 'h, 'k::linorder, 'v) ext \<Rightarrow> usize \<Rightarrow> ('fs, 'k, 'v, unit) session_act" where
  "spill_before X bytes = reading (\<lambda>ss.
     if ss_buffer ss = [] then ret ()
     else case checked_add (ss_buffer_bytes ss) bytes of
            None \<Rightarrow> spill X
          | Some after \<Rightarrow> and_then buffer_limit (\<lambda>limit. if limit < after then spill X else ret ()))"

definition add_row ::
    "('fs, 'h, 'k, 'v) ext \<Rightarrow> 'k \<Rightarrow> 'v \<Rightarrow> usize \<Rightarrow> memory_charge \<Rightarrow> ('fs, 'k, 'v, unit) session_act" where
  "add_row X key v bytes charge = reading (\<lambda>ss.
     attempt (drop_charge charge) (ok_or (Raise RunLimit) (checked_add (ss_next_row ss) 1)) (\<lambda>next_row.
     and_then (updating (\<lambda>ss. ss\<lparr>ss_next_row := next_row, ss_buffer := ss_buffer ss @
       [(run_row_new X key v)\<lparr>row_ordinal := ss_next_row ss, row_retained := bytes,
          row_charge := Some charge\<rparr>]\<rparr>)) (\<lambda>_.
     and_then (ok_or (Raise RunLimit) (checked_add (ss_buffer_bytes ss) bytes)) (\<lambda>after.
     updating (\<lambda>ss. ss\<lparr>ss_buffer_bytes := after\<rparr>)))))"

definition spill_after ::
    "('fs, 'h, 'k::linorder, 'v) ext \<Rightarrow> ('fs, 'k, 'v, unit) session_act" where
  "spill_after X =
     and_then buffer_limit (\<lambda>limit.
     reading (\<lambda>ss. if limit \<le> ss_buffer_bytes ss then spill X else ret ()))"

definition push_with_size ::
    "('fs, 'h, 'k::linorder, 'v) ext \<Rightarrow> 'k \<Rightarrow> 'v \<Rightarrow> usize \<Rightarrow> ('fs, 'k, 'v, unit) session_act" where
  "push_with_size X key v estimate =
     and_then ensure_usable (\<lambda>_.
     and_then (reserve_metadata X) (\<lambda>_.
     let bytes = max estimate (size_of_row X)
     in and_then (on_world (reserve bytes)) (\<lambda>charge.
        attempt (drop_charge charge) (spill_before X bytes) (\<lambda>_.
        attempt (drop_charge charge) (grow_buffer X) (\<lambda>_.
        and_then (add_row X key v bytes charge) (\<lambda>_.
        spill_after X))))))"

definition push_row ::
    "('fs, 'h, 'k::linorder, 'v) ext \<Rightarrow> 'k \<Rightarrow> 'v \<Rightarrow> ('fs, 'k, 'v, unit) session_act" where
  "push_row X key v = push_with_size X key v (max (size_of_pair X) 1)"

section \<open>Finishing\<close>

record ('k, 'v) memory_stream =
  im_rows :: "('k, 'v) run_row list"
  im_last :: "('k \<times> memory_charge option) option"
  im_hold :: "resource option"
  im_allocation :: "memory_charge option"
  im_metadata :: "memory_charge option"
  im_dedup :: bool

datatype ('k, 'v) sort_stream =
    Buffered "('k, 'v) memory_stream"
  | Merging "('k, 'v) value_stream"

text \<open>Dropping a session releases its buffer and drops its guard.\<close>

definition session_drop ::
    "('fs, 'h, 'k, 'v) ext \<Rightarrow> bool \<Rightarrow> ('k, 'v) session \<times> 'fs world \<Rightarrow> 'fs world" where
  "session_drop X in_runtime = (\<lambda>(ss, w).
     guard_drop X in_runtime (ss_cleanup ss)
       (rows_drop (ss_buffer ss) (release_opt (ss_buffer_charge ss) w)))"

definition in_memory_stream :: "('fs, 'k, 'v, ('k, 'v) sort_stream) session_act" where
  "in_memory_stream = reading (\<lambda>ss.
     let (metadata, g) = guard_take_reservation (ss_cleanup ss)
     in and_then (updating (\<lambda>ss. ss\<lparr>ss_buffer := [], ss_capacity := 0, ss_buffer_charge := None,
          ss_hold := None, ss_cleanup := g\<rparr>)) (\<lambda>_.
        ret (Buffered \<lparr>im_rows = ss_buffer ss, im_last = None, im_hold = ss_hold ss,
          im_allocation = ss_buffer_charge ss, im_metadata = metadata, im_dedup = ss_dedup ss\<rparr>)))"

definition frontier :: "path option list \<Rightarrow> path list" where
  "frontier spills = List.map_filter (\<lambda>slot. slot) (rev spills)"

definition stream_frontier ::
    "('fs, 'h, 'k::linorder, 'v) ext \<Rightarrow> nat \<Rightarrow> ('fs, 'k, 'v, ('k, 'v) sort_stream) session_act" where
  "stream_frontier X fan_in = reading (\<lambda>ss.
     and_then (updating (\<lambda>ss. ss\<lparr>ss_hold := None, ss_cleanup := guard_disarmed,
       ss_spills := map (\<lambda>_. None) (ss_spills ss)\<rparr>)) (\<lambda>_.
     and_then (on_world (cascade_and_stream X (frontier (ss_spills ss)) (max fan_in 2) (ss_dir ss)
       (ss_cleanup ss) (ss_dedup ss) (ss_hold ss))) (\<lambda>vs.
     ret (Merging vs))))"

definition merged_stream ::
    "('fs, 'h, 'k::linorder, 'v) ext \<Rightarrow> nat \<Rightarrow> ('fs, 'k, 'v, ('k, 'v) sort_stream) session_act" where
  "merged_stream X fan_in =
     and_then (reading (\<lambda>ss. if ss_buffer ss \<noteq> [] then spill X else ret ())) (\<lambda>_.
     stream_frontier X fan_in)"

text \<open>\<open>finish\<close> owns the session, which is dropped on return; it is awaited inside a runtime.\<close>

definition finish ::
    "('fs, 'h, 'k::linorder, 'v) ext \<Rightarrow> ('k, 'v) session \<times> 'fs world
      \<Rightarrow> (fault + ('k, 'v) sort_stream) \<times> 'fs world" where
  "finish X s =
     (case and_then ensure_usable (\<lambda>_.
        and_then (updating (\<lambda>ss. ss\<lparr>ss_buffer := sort_rows (ss_buffer ss)\<rparr>)) (\<lambda>_.
        reading (\<lambda>ss.
          case ss_plan ss of
            InMemory \<Rightarrow> if ss_next_run ss = 0 then in_memory_stream else merged_stream X 2
          | External _ fan \<Rightarrow>
              if ss_next_run ss = 0 then in_memory_stream else merged_stream X (unat fan)))) s of
        (r, s') \<Rightarrow> (r, session_drop X True s'))"

section \<open>Reading the output\<close>

definition memory_stream_drop :: "('k, 'v) memory_stream \<Rightarrow> 'fs world \<Rightarrow> 'fs world" where
  "memory_stream_drop im w =
     release_opt (im_metadata im) (release_opt (im_allocation im)
       (release_opt (Option.bind (im_last im) snd) (rows_drop (im_rows im) w)))"

fun memory_stream_scan ::
    "bool \<Rightarrow> ('k \<times> memory_charge option) option \<Rightarrow> ('k, 'v) run_row list \<Rightarrow> 'fs world
      \<Rightarrow> (('v \<times> ('k \<times> memory_charge option) option \<times> ('k, 'v) run_row list) option) \<times> 'fs world" where
  "memory_stream_scan dedup prev [] w = (None, w)"
| "memory_stream_scan dedup prev (row # rows) w =
     (if dedup \<and> map_option fst prev = Some (row_key row)
      then memory_stream_scan dedup prev rows (row_drop row w)
      else if dedup
      then (Some (row_value row, Some (row_key row, row_charge row), rows),
            release_opt (Option.bind prev snd) w)
      else (Some (row_value row, prev, rows), row_drop row w))"

definition memory_stream_next ::
    "('k, 'v) memory_stream \<Rightarrow> ('fs world, ('v, ('k, 'v) memory_stream) pulled) act" where
  "memory_stream_next im w =
     (case memory_stream_scan (im_dedup im) (im_last im) (im_rows im) w of
        (None, w') \<Rightarrow> (Inr Ended, memory_stream_drop (im\<lparr>im_rows := []\<rparr>) w')
      | (Some (v, prev, rows), w') \<Rightarrow>
          (Inr (Yielded (Inr v) (im\<lparr>im_rows := rows, im_last := prev\<rparr>)), w'))"

end
