(* ===== verification/SessionSpec.thy ===== *)
theory SessionSpec
  imports Session
begin

text \<open>
  What a session sorts (src/engine/session.rs). The frontier is a binary counter over the
  spilled runs, each level a file that holds the stable sort of the rows it stands for,
  higher levels older; a session whose pushes and spills succeeded therefore streams the
  stable sort of exactly the rows it accepted.
\<close>

section \<open>The frontier as a binary counter\<close>

fun counter_value :: "'a option list \<Rightarrow> nat" where
  "counter_value [] = 0"
| "counter_value (slot # slots) = (if slot = None then 0 else 1) + 2 * counter_value slots"

lemma counter_value_zeros [simp]:
  "counter_value (replicate l None @ slots) = 2 ^ l * counter_value slots"
  by (induction l) simp_all

lemma counter_value_bit:
  "bit (counter_value slots) l \<longleftrightarrow> l < length slots \<and> slots ! l \<noteq> None"
proof (induction slots arbitrary: l)
  case Nil
  then show ?case by simp
next
  case (Cons slot slots)
  show ?case
    by (cases l) (simp_all add: Cons.IH bit_0 bit_Suc)
qed

lemma counter_value_zero: "counter_value slots = 0 \<longleftrightarrow> (\<forall>slot \<in> set slots. slot = None)"
  by (induction slots) auto

lemma frontier_zeros [simp]: "frontier (replicate l None @ slots) = frontier slots"
  by (induction l) (simp_all add: frontier_def List.map_filter_def)

lemma frontier_Cons [simp]:
  "frontier (slot # slots) = frontier slots @ (case slot of None \<Rightarrow> [] | Some p \<Rightarrow> [p])"
  by (simp add: frontier_def List.map_filter_def split: option.splits)

lemma frontier_Nil [simp]: "frontier [] = []"
  by (simp add: frontier_def List.map_filter_def)

lemma length_frontier: "length (frontier slots) \<le> length slots"
  by (induction slots) (auto split: option.splits)

text \<open>The names a session gives before run \<open>n\<close>.\<close>

definition spill_name :: "path \<Rightarrow> nat \<Rightarrow> path \<Rightarrow> bool" where
  "spill_name dir n p \<longleftrightarrow>
     (\<exists>r. unat r < n \<and> (p = join dir (run_name r) \<or> (\<exists>l. p = join dir (carry_name r l))))"

lemma spill_name_mono: "spill_name dir m p \<Longrightarrow> m \<le> n \<Longrightarrow> spill_name dir n p"
proof -
  assume "spill_name dir m p" and "m \<le> n"
  then obtain r where "unat r < n" "p = join dir (run_name r) \<or> (\<exists>l. p = join dir (carry_name r l))"
    unfolding spill_name_def using less_le_trans by blast
  then show ?thesis unfolding spill_name_def by blast
qed

lemma spill_name_fresh:
  "\<not> spill_name dir (unat n) (join dir (run_name n))"
  "\<not> spill_name dir (unat n) (join dir (carry_name n l))"
  "\<not> spill_name dir m (join dir (merge_name p g))"
  by (auto simp: spill_name_def)

text \<open>The name of the run that reaches level \<open>l\<close>.\<close>

definition carried_name :: "path \<Rightarrow> u64 \<Rightarrow> nat \<Rightarrow> path \<Rightarrow> bool" where
  "carried_name dir n l p \<longleftrightarrow>
     p = join dir (run_name n) \<or> (\<exists>k < l. p = join dir (carry_name n k))"

lemma carried_name_fresh:
  "carried_name dir n l p \<Longrightarrow> \<not> spill_name dir (unat n) p"
  "carried_name dir n l p \<Longrightarrow> p \<noteq> join dir (carry_name n l)"
  "carried_name dir n l p \<Longrightarrow> spill_name dir (unat n + 1) p"
  "carried_name dir n (Suc l) (join dir (carry_name n l))"
  by (auto simp: carried_name_def spill_name_def)

section \<open>Carrying a run\<close>

lemma holds_runs_snoc:
  "holds_runs X files (ps @ [p]) (ls @ [l]) \<longleftrightarrow>
     holds_runs X files ps ls \<and> holds_run X files p l \<and> sorted (map row_key l)"
  by (auto simp: holds_runs_append)

text \<open>The two runs that meet at an occupied level, and the level after their merge.\<close>

lemma carry_meets:
  assumes at: "holds_runs X files (frontier (Some older # slots) @ [run]) (ls @ [rows])"
    and names: "\<forall>p \<in> set (frontier (Some older # slots)). spill_name dir (unat n) p" "carried_name dir n l run"
  obtains ls1 o1 where "ls = ls1 @ [o1]" "holds_runs X files (frontier slots) ls1"
    "holds_runs X files [older, run] [o1, rows]"
    "join dir (carry_name n l) \<notin> set [older, run]" "join dir (carry_name n l) \<notin> set (frontier slots)"
proof -
  obtain ls1 o1 where "ls = ls1 @ [o1]" "holds_runs X files (frontier slots) ls1"
    "holds_runs X files [older, run] [o1, rows]"
    using at by (auto simp: holds_runs_append)
  moreover have "join dir (carry_name n l) \<notin> set [older, run]" "join dir (carry_name n l) \<notin> set (frontier slots)"
    using names spill_name_fresh(2) carried_name_fresh(2) [OF names(2)] by auto
  ultimately show thesis by (rule that)
qed

lemma carry_merges:
  assumes L: "ext_laws X view hpath hpos"
    and merge: "merge_group_to_file X [older, run] (join dir (carry_name n l)) False w = (Inr merged, w1)"
    and at: "holds_runs X (view (w_files w)) (frontier (Some older # slots) @ [run]) (ls @ [rows])"
    and names: "distinct (frontier (Some older # slots))"
      "\<forall>p \<in> set (frontier (Some older # slots)). spill_name dir (unat n) p" "carried_name dir n l run"
  obtains ls1 o1 where "merged = join dir (carry_name n l)" "ls = ls1 @ [o1]"
    "holds_runs X (view (w_files w1)) (frontier slots @ [merged]) (ls1 @ [sort_key row_key (o1 @ rows)])"
proof -
  let ?out = "join dir (carry_name n l)"
  obtain ls1 o1 where lists: "ls = ls1 @ [o1]" "holds_runs X (view (w_files w)) (frontier slots) ls1"
    "holds_runs X (view (w_files w)) [older, run] [o1, rows]" and out: "?out \<notin> set [older, run]" "?out \<notin> set (frontier slots)"
    using at names(2,3) by (rule carry_meets)
  have merged: "merged = ?out" "holds_run X (view (w_files w1)) ?out (sort_key row_key (o1 @ rows))"
    "\<And>p. p \<notin> {?out, older, run} \<Longrightarrow> view (w_files w1) p = view (w_files w) p"
    using merge_group_spec [OF L merge lists(3)] out by (auto simp: sorted_rows_def)
  have "older \<notin> set (frontier slots)" "run \<notin> set (frontier slots)"
    using names carried_name_fresh(1) [OF names(3)] by auto
  then have "holds_runs X (view (w_files w1)) (frontier slots) ls1"
    using lists(2) by (elim holds_runs_elsewhere) (use out(2) in \<open>auto intro!: merged(3)\<close>)
  then show thesis
    using that merged(1,2) lists(1) by (simp add: holds_runs_snoc)
qed

lemma carry_spec:
  assumes L: "ext_laws X view hpath hpos"
  shows "carry X ordinal [l..<l + length slots] run s = (Inr u, s') \<Longrightarrow>
    ss_spills (fst s) = replicate l None @ slots \<Longrightarrow>
    holds_runs X (view (w_files (snd s))) (frontier slots @ [run]) (ls @ [rows]) \<Longrightarrow>
    distinct (frontier slots) \<Longrightarrow>
    (\<forall>p \<in> set (frontier slots). spill_name (ss_dir (fst s)) (unat ordinal) p) \<Longrightarrow>
    carried_name (ss_dir (fst s)) ordinal l run \<Longrightarrow>
    \<exists>slots' ls'. fst s' = (fst s)\<lparr>ss_spills := slots', ss_failed := False\<rparr>
      \<and> length slots' = l + length slots
      \<and> counter_value slots' = 2 ^ l * (counter_value slots + 1)
      \<and> holds_runs X (view (w_files (snd s'))) (frontier slots') ls'
      \<and> sort_key row_key (concat ls') = sort_key row_key (concat ls @ rows)
      \<and> distinct (frontier slots')
      \<and> (\<forall>p \<in> set (frontier slots'). spill_name (ss_dir (fst s)) (unat ordinal + 1) p)"
proof (induction slots arbitrary: l run s ls rows)
  case Nil
  then show ?case by (simp add: act_ok)
next
  case (Cons slot slots)
  obtain ss w where s: "s = (ss, w)" by fastforce
  have levels: "[l..<l + length (slot # slots)] = l # [Suc l..<Suc l + length slots]"
    by (subst upt_conv_Cons) simp_all
  have slot: "ss_spills ss ! l = slot"
    using Cons.prems(2) s by (simp add: nth_append)
  have update: "(ss_spills ss)[l := x] = replicate l None @ x # slots" for x
    using Cons.prems(2) s by (simp add: list_update_append)
  note run = Cons.prems(1) [unfolded levels carry.simps reading_eq, unfolded s fst_conv slot]
  show ?case
  proof (cases slot)
    case None
    have "fst s' = ss\<lparr>ss_spills := replicate l None @ Some run # slots, ss_failed := False\<rparr>"
      "snd s' = w"
      using run None by (auto simp: act_ok update)
    moreover have "run \<notin> set (frontier slots)"
      using Cons.prems(5,6) carried_name_fresh(1) None s by auto
    ultimately show ?thesis
      using Cons.prems(3,4,5,6) None s
      by (intro exI [of _ "replicate l None @ Some run # slots"] exI [of _ "ls @ [rows]"])
        (auto intro: carried_name_fresh spill_name_mono)
  next
    case (Some older)
    let ?out = "join (ss_dir ss) (carry_name ordinal l)"
    let ?ss = "ss\<lparr>ss_spills := replicate (Suc l) None @ slots\<rparr>"
    have empty: "replicate l None @ None # slots = replicate (Suc l) None @ slots"
      by (simp add: replicate_app_Cons_same)
    obtain merged w1 where merge: "merge_group_to_file X [older, run] ?out False w = (Inr merged, w1)"
      and more: "carry X ordinal [Suc l..<Suc l + length slots] merged (?ss, w1) = (Inr u, s')"
      using run Some by (auto simp: act_ok update empty)
    have older: "distinct (frontier slots)" "\<forall>p \<in> set (frontier slots). spill_name (ss_dir ss) (unat ordinal) p"
      using Cons.prems(4,5) Some s by auto
    obtain ls1 o1 where lists: "merged = ?out" "ls = ls1 @ [o1]"
      "holds_runs X (view (w_files w1)) (frontier slots @ [merged]) (ls1 @ [sort_key row_key (o1 @ rows)])"
      using carry_merges [OF L merge, of slots ls rows] Cons.prems(3,4,5,6) Some s by auto
    obtain slots' ls' where
      "fst s' = ?ss\<lparr>ss_spills := slots', ss_failed := False\<rparr>"
      "length slots' = Suc l + length slots"
      "counter_value slots' = 2 ^ Suc l * (counter_value slots + 1)"
      "holds_runs X (view (w_files (snd s'))) (frontier slots') ls'"
      "sort_key row_key (concat ls') = sort_key row_key (concat ls1 @ sort_key row_key (o1 @ rows))"
      "distinct (frontier slots')"
      "\<forall>p \<in> set (frontier slots'). spill_name (ss_dir ss) (unat ordinal + 1) p"
      using Cons.IH [OF more, of ls1 "sort_key row_key (o1 @ rows)"] older lists(1,3)
        carried_name_fresh(4) by atomize_elim auto
    moreover have "sort_key row_key (concat ls1 @ sort_key row_key (o1 @ rows))
        = sort_key row_key (concat ls @ rows)"
      using sort_key_append_cong [of row_key "concat ls1" "concat ls1"
          "sort_key row_key (o1 @ rows)" "o1 @ rows"]
      by (simp add: lists(2) sort_key_sorted)
    ultimately show ?thesis
      using Some s by (intro exI [of _ slots'] exI [of _ ls']) (auto simp: algebra_simps)
  qed
qed

section \<open>A usable session\<close>

text \<open>
  The session that has accepted the rows \<open>acc\<close>, oldest first: a prefix of them is in the
  runs of the frontier, the rest in the buffer in push order.
\<close>

definition session_at ::
    "('fs, 'h, 'k::linorder, 'v) ext \<Rightarrow> (path \<Rightarrow> u8 list option) \<Rightarrow> ('k, 'v) session
      \<Rightarrow> ('k, 'v) run_row list \<Rightarrow> bool" where
  "session_at X files ss acc \<longleftrightarrow>
     (\<exists>old ls. acc = old @ map stored (ss_buffer ss)
        \<and> holds_runs X files (frontier (ss_spills ss)) ls
        \<and> sort_key row_key (concat ls) = sort_key row_key old)
     \<and> distinct (frontier (ss_spills ss))
     \<and> (\<forall>p \<in> set (frontier (ss_spills ss)). spill_name (ss_dir ss) (unat (ss_next_run ss)) p)
     \<and> length (ss_spills ss) = 64 \<and> counter_value (ss_spills ss) = unat (ss_next_run ss)
     \<and> map (\<lambda>r. unat (row_ordinal r)) acc = [0..<length acc]
     \<and> unat (ss_next_row ss) = length acc
     \<and> (ss_buffer ss = [] \<longrightarrow> ss_buffer_bytes ss = 0) \<and> \<not> ss_failed ss"

text \<open>What the operations of a session leave as it was configured.\<close>

definition same_session :: "('k, 'v) session \<Rightarrow> ('k, 'v) session \<Rightarrow> bool" where
  "same_session ss ss' \<longleftrightarrow>
     ss_plan ss' = ss_plan ss \<and> ss_dir ss' = ss_dir ss \<and> ss_dedup ss' = ss_dedup ss
     \<and> ss_hold ss' = ss_hold ss"

lemma same_session_trans: "same_session a b \<Longrightarrow> same_session b c \<Longrightarrow> same_session a c"
  by (simp add: same_session_def)

lemma sort_rows_stable:
  assumes "map (\<lambda>r. unat (row_ordinal r)) (old @ map stored rows) = [0..<n]"
  shows "sort_rows rows = sort_key row_key rows"
  unfolding sort_rows_def
proof (rule sort_key_with_ordinal)
  have "sorted_wrt (<) (map (\<lambda>r. unat (row_ordinal r)) (old @ map stored rows))"
    unfolding assms by simp
  then have "sorted_wrt (<) (map (\<lambda>r. unat (row_ordinal r)) rows)"
    by (simp add: sorted_wrt_append comp_def)
  then show "sorted_wrt (<) (map row_ordinal rows)"
    by (simp add: sorted_wrt_map word_less_nat_alt)
qed

lemma map_stored_sort: "map stored (sort_key row_key rows) = sort_key row_key (map stored rows)"
  using map_sort_key [of stored row_key rows] by simp

lemma ensure_dir_view:
  assumes L: "ext_laws X view hpath hpos"
    and run: "perform (\<lambda>w. w) n m (io (fs_ensure_dir X dir)) w = (Inr u, w')"
  shows "view (w_files w') = view (w_files w)"
proof -
  obtain s where s: "fs_ensure_dir X dir (w_files w) = (Inr (), s)" "w_files w' = s"
    using perform_files [OF run] by (auto simp: act_ok)
  then show ?thesis
    using L by (simp add: ext_laws_def dir_laws_def)
qed

lemma files_rows_drop [simp]: "w_files (rows_drop rows w) = w_files w"
  unfolding rows_drop_def by (induction rows arbitrary: w) simp_all

lemma spill_spec:
  assumes L: "ext_laws X view hpath hpos" and run: "spill X (ss, w) = (Inr u, (ss', w'))"
    and at: "session_at X (view (w_files w)) ss acc"
  shows "session_at X (view (w_files w')) ss' acc \<and> ss_buffer ss' = [] \<and> same_session ss ss'
    \<and> ss_metadata_reserved ss' = ss_metadata_reserved ss"
proof (cases "ss_buffer ss = []")
  case True
  then show ?thesis using run at by (auto simp: spill_def act_ok same_session_def)
next
  case False
  obtain old ls where acc: "acc = old @ map stored (ss_buffer ss)"
    and frontier: "holds_runs X (view (w_files w)) (frontier (ss_spills ss)) ls"
      "sort_key row_key (concat ls) = sort_key row_key old"
    using at by (auto simp: session_at_def)
  let ?n = "ss_next_run ss" and ?dir = "ss_dir ss"
  have names: "distinct (frontier (ss_spills ss))"
    "\<forall>p \<in> set (frontier (ss_spills ss)). spill_name ?dir (unat ?n) p"
    and levels: "length (ss_spills ss) = 64" "counter_value (ss_spills ss) = unat ?n"
    and ordinals: "map (\<lambda>r. unat (row_ordinal r)) acc = [0..<length acc]"
    using at by (auto simp: session_at_def)
  obtain n1 w1 wr w2 wr' w3 run_path w4 where
    1: "checked_add ?n 1 = Some n1"
    and 2: "perform (\<lambda>w. w) (size_of_future X EnsureDir) (path_capacity X ?dir)
      (io (fs_ensure_dir X ?dir)) w = (Inr (), w1)"
    and 3: "run_writer_create X (join ?dir (run_name ?n)) w1 = (Inr wr, w2)"
    and 4: "write_rows X wr (sort_rows (ss_buffer ss)) w2 = (Inr wr', w3)"
    and 5: "run_writer_finish X wr' w3 = (Inr run_path, w4)"
    and 6: "carry X ?n [0..<64] run_path (ss\<lparr>ss_failed := True, ss_next_run := n1,
        ss_cleanup := guard_arm ?dir (ss_cleanup ss), ss_buffer := [], ss_capacity := 0,
        ss_buffer_charge := None, ss_buffer_bytes := 0\<rparr>,
      release_opt (ss_buffer_charge ss) (rows_drop (sort_rows (ss_buffer ss)) w4)) = (Inr u, (ss', w'))"
    using run False by (auto simp: spill_def spill_run_def act_ok Let_def clear_buffer_def)
  let ?run = "join ?dir (run_name ?n)"
  have fresh: "?run \<notin> set (frontier (ss_spills ss))"
    using names(2) spill_name_fresh(1) by blast
  have v1: "view (w_files w1) = view (w_files w)" by (rule ensure_dir_view [OF L 2])
  have created: "writing_run X (view (w_files w2)) wr []" "rw_path wr = ?run"
    "only_at ?run (view (w_files w1)) (view (w_files w2))"
    using writing_create [OF L 3] by simp_all
  have written: "writing_run X (view (w_files w3)) wr' (map stored (sort_rows (ss_buffer ss)))"
    "rw_path wr' = ?run" "only_at ?run (view (w_files w2)) (view (w_files w3))"
    using writing_rows [OF L 4 created(1)] created(2) by auto
  have finished: "holds_run X (view (w_files w4)) ?run (map stored (sort_rows (ss_buffer ss)))"
    "run_path = ?run" "only_at ?run (view (w_files w3)) (view (w_files w4))"
    using writing_finish [OF L 5 written(1)] written(2) by auto
  have sorted: "map stored (sort_rows (ss_buffer ss)) = sort_key row_key (map stored (ss_buffer ss))"
    using sort_rows_stable [OF ordinals [unfolded acc]] by (simp add: map_stored_sort)
  have "holds_runs X (view (w_files w4)) (frontier (ss_spills ss)) ls"
    using frontier(1) by (rule holds_runs_elsewhere)
      (use fresh v1 created(3) written(3) finished(3) in \<open>metis only_at_def\<close>)
  then have runs: "holds_runs X (view (w_files w4)) (frontier (ss_spills ss) @ [run_path])
      (ls @ [sort_key row_key (map stored (ss_buffer ss))])"
    using finished(1,2) by (simp add: holds_runs_snoc sorted)
  have n1: "unat n1 = unat ?n + 1" using 1 by (simp add: word_facts)
  define ss1 where "ss1 = ss\<lparr>ss_failed := True, ss_next_run := n1,
        ss_cleanup := guard_arm ?dir (ss_cleanup ss), ss_buffer := [], ss_capacity := 0,
        ss_buffer_charge := None, ss_buffer_bytes := 0\<rparr>"
  define w5 where "w5 = release_opt (ss_buffer_charge ss) (rows_drop (sort_rows (ss_buffer ss)) w4)"
  have s1: "ss_spills ss1 = ss_spills ss" "ss_dir ss1 = ?dir" "w_files w5 = w_files w4"
    by (simp_all add: ss1_def w5_def)
  obtain slots ls' where ss': "ss' = ss1\<lparr>ss_spills := slots, ss_failed := False\<rparr>"
    and slots: "length slots = 64" "counter_value slots = counter_value (ss_spills ss) + 1"
      "holds_runs X (view (w_files w')) (frontier slots) ls'"
      "sort_key row_key (concat ls')
        = sort_key row_key (concat ls @ sort_key row_key (map stored (ss_buffer ss)))"
      "distinct (frontier slots)"
      "\<forall>p \<in> set (frontier slots). spill_name ?dir (unat ?n + 1) p"
    using carry_spec [OF L, of ?n 0 "ss_spills ss" run_path "(ss1, w5)" u "(ss', w')" ls
        "sort_key row_key (map stored (ss_buffer ss))"]
      6 [folded ss1_def w5_def] runs names levels finished(2)
    by atomize_elim (simp add: carried_name_def s1)
  have "sort_key row_key (concat ls') = sort_key row_key acc"
    using slots(4) frontier(2)
    by (metis acc sort_key_append sort_key_append_left sort_key_append_cong)
  then have "session_at X (view (w_files w')) ss' acc"
    using at slots n1 levels by (auto simp: session_at_def ss' ss1_def)
  then show ?thesis by (simp add: ss' ss1_def same_session_def)
qed

section \<open>A fault in a spill\<close>

text \<open>A spill that does not return leaves the session marked as failed.\<close>

definition stays_failed :: "('k, 'v) session \<times> 'fs world \<Rightarrow> ('k, 'v) session \<times> 'fs world \<Rightarrow> bool" where
  "stays_failed s t \<longleftrightarrow> (ss_failed (fst s) \<longrightarrow> ss_failed (fst t))"

interpretation stays: frame stays_failed
  by unfold_locales (auto simp: stays_failed_def)

definition failsafe :: "('fs, 'k, 'v, 'a) session_act \<Rightarrow> bool" where
  "failsafe m \<longleftrightarrow> (\<forall>s e t. m s = (Inl e, t) \<longrightarrow> stays_failed s t)"

lemma failsafe_keeps: "keeps stays_failed m \<Longrightarrow> failsafe m"
  by (auto simp: failsafe_def dest: keepsD)

lemma failsafe_and_then:
  "keeps stays_failed m \<Longrightarrow> (\<And>x. failsafe (f x)) \<Longrightarrow> failsafe (and_then m f)"
  unfolding failsafe_def attempt_fault by (metis keepsD stays.trans)

lemma failsafe_reading: "(\<And>ss. failsafe (f ss)) \<Longrightarrow> failsafe (reading f)"
  by (simp add: failsafe_def)

lemma stays_on_world: "keeps stays_failed (on_world m)"
  by (auto simp: keeps_def on_world_def stays_failed_def split: prod.splits)

lemma stays_updating: "(\<And>ss. ss_failed ss \<Longrightarrow> ss_failed (g ss)) \<Longrightarrow> keeps stays_failed (updating g)"
  by (auto simp: keeps_def updating_def modify_def stays_failed_def)

lemma failsafe_updating: "failsafe (updating g)"
  by (auto simp: failsafe_def updating_fault)

lemma failsafe_carry: "failsafe (carry X ordinal levels run)"
proof (induction levels arbitrary: run)
  case Nil
  then show ?case by (auto simp: failsafe_def act_fault stays_failed_def)
next
  case (Cons level levels)
  show ?case
    unfolding carry.simps
    by (intro failsafe_reading)
      (auto intro!: failsafe_updating failsafe_and_then stays_updating stays_on_world Cons.IH split: option.splits)
qed

lemma spill_fault:
  assumes "spill X s = (Inl e, s')"
  shows "ss_failed (fst s')"
proof -
  define body where "body = (\<lambda>ordinal dir.
      and_then (ok_or (Raise RunLimit) (checked_add ordinal 1)) (\<lambda>next_run.
          and_then (updating (\<lambda>ss. ss\<lparr>ss_next_run := next_run, ss_buffer := sort_rows (ss_buffer ss),
            ss_cleanup := guard_arm (ss_dir ss) (ss_cleanup ss)\<rparr>)) (\<lambda>_.
          spill_run X ordinal dir)))"
  have "failsafe (body ordinal dir)" for ordinal dir
    unfolding body_def spill_run_def
    by (auto intro!: failsafe_and_then failsafe_carry stays.keeps_ok_or stays_updating stays_on_world
        keeps_reading)
      (auto simp: keeps_def clear_buffer_def modify_def stays_failed_def)
  then have safe: "stays_failed t s'" if "body ordinal dir t = (Inl e, s')" for ordinal dir t
    using that unfolding failsafe_def by blast
  have eq: "spill X s = (if ss_buffer (fst s) = [] then ret () s
      else and_then (updating (\<lambda>ss. ss\<lparr>ss_failed := True\<rparr>))
        (\<lambda>_. body (ss_next_run (fst s)) (ss_dir (fst s))) s)"
    by (simp add: spill_def Let_def body_def)
  obtain u where "updating (\<lambda>ss. ss\<lparr>ss_failed := True\<rparr>) s = (Inr (), u)"
    "body (ss_next_run (fst s)) (ss_dir (fst s)) u = (Inl e, s')"
    using assms [unfolded eq]
    by (auto simp only: ret_fault attempt_fault updating_fault split: if_splits)
  then show ?thesis
    using safe by (auto simp: act_ok stays_failed_def)
qed

section \<open>Pushing a row\<close>

text \<open>Steps that leave the rows and the files alone.\<close>

definition same_rows :: "('k, 'v) session \<times> 'fs world \<Rightarrow> ('k, 'v) session \<times> 'fs world \<Rightarrow> bool" where
  "same_rows s t \<longleftrightarrow> same_session (fst s) (fst t)
     \<and> ss_buffer (fst t) = ss_buffer (fst s) \<and> ss_buffer_bytes (fst t) = ss_buffer_bytes (fst s)
     \<and> ss_spills (fst t) = ss_spills (fst s) \<and> ss_next_run (fst t) = ss_next_run (fst s)
     \<and> ss_next_row (fst t) = ss_next_row (fst s) \<and> ss_failed (fst t) = ss_failed (fst s)
     \<and> w_files (snd t) = w_files (snd s)"

interpretation rows: frame same_rows
  by unfold_locales (auto simp: same_rows_def same_session_def)

lemma session_at_same_rows:
  "same_rows s t \<Longrightarrow> session_at X (view (w_files (snd s))) (fst s) acc \<Longrightarrow>
    session_at X (view (w_files (snd t))) (fst t) acc \<and> same_session (fst s) (fst t)"
  by (auto simp: session_at_def same_rows_def same_session_def)

lemma rows_on_world: "keeps same_but_budget m \<Longrightarrow> keeps same_rows (on_world m)"
  by (rule keepsI)
    (auto simp: on_world_def same_rows_def same_session_def same_but_budget_def
      split: prod.splits dest: keepsD)

lemma rows_updating:
  "(\<And>ss. same_rows (ss, w) (g ss, w)) \<Longrightarrow> keeps same_rows (updating g)"
  by (auto simp: keeps_def updating_def modify_def same_rows_def)

lemma rows_drop_charge: "same_rows s (drop_charge c s)"
  by (cases s) (simp add: drop_charge_def same_rows_def same_session_def)

lemma rows_steps:
  "keeps same_rows ensure_usable" "keeps same_rows (reserve_metadata X)"
  "keeps same_rows (grow_buffer X)" "keeps same_rows buffer_limit"
proof -
  show "keeps same_rows ensure_usable"
    by (auto simp: ensure_usable_def intro!: keeps_reading rows.keeps_intros)
  have r: "keeps same_rows (on_world (reserve n))" for n
    by (intro rows_on_world reserve_same)
  have m: "keeps same_rows (on_world (modify (release_opt c)))" for c
    by (intro rows_on_world plain.keeps_modify release_frames)
  show "keeps same_rows (reserve_metadata X)"
    unfolding reserve_metadata_def
    by (auto simp: same_rows_def same_session_def
        intro!: keeps_reading rows.keeps_intros r rows_updating rows_drop_charge split: sum.splits)
  show "keeps same_rows (grow_buffer X)"
    unfolding grow_buffer_def
    by (auto intro!: keeps_reading rows.keeps_intros r m rows_updating rows_drop_charge)
      (auto simp: same_rows_def same_session_def)
  show "keeps same_rows buffer_limit"
    unfolding buffer_limit_def Let_def
    by (auto intro!: keeps_reading rows.keeps_intros rows_on_world limit_now_frames)
qed

lemma buffer_limit_ok: "\<exists>l. buffer_limit s = (Inr l, s') \<and> same_rows s s'" if "buffer_limit s = (r, s')"
proof -
  have "r \<noteq> Inl e" for e
    using that by (cases s) (auto simp: buffer_limit_def Let_def attempt_def on_world_def limit_now_eq ret_def)
  then show ?thesis
    using that keepsD [OF rows_steps(4) that] by (cases r) auto
qed

lemma spill_outcome:
  assumes L: "ext_laws X view hpath hpos" and run: "spill X s = (r, s')"
    and at: "session_at X (view (w_files (snd s))) (fst s) acc"
  shows "case r of
      Inl _ \<Rightarrow> ss_failed (fst s')
    | Inr _ \<Rightarrow> session_at X (view (w_files (snd s'))) (fst s') acc \<and> same_session (fst s) (fst s')
        \<and> ss_buffer (fst s') = []"
  using assms spill_fault [of X s _ s'] spill_spec [OF L, of "fst s" "snd s" "()" "fst s'" "snd s'" acc]
  by (cases r) auto

lemma spill_before_spec:
  assumes L: "ext_laws X view hpath hpos" and run: "spill_before X bytes s = (r, s')"
    and at: "session_at X (view (w_files (snd s))) (fst s) acc"
  shows "case r of
      Inl _ \<Rightarrow> ss_failed (fst s')
    | Inr _ \<Rightarrow> session_at X (view (w_files (snd s'))) (fst s') acc \<and> same_session (fst s) (fst s')
        \<and> (ss_buffer (fst s') = [] \<or> checked_add (ss_buffer_bytes (fst s')) bytes \<noteq> None)"
proof (cases "ss_buffer (fst s) = []")
  case True
  then show ?thesis
    using run at by (auto simp: spill_before_def ret_def same_session_def)
next
  case False
  show ?thesis
  proof (cases "checked_add (ss_buffer_bytes (fst s)) bytes")
    case None
    then have "spill X s = (r, s')"
      using run False by (simp add: spill_before_def)
    from spill_outcome [OF L this at] show ?thesis by (auto split: sum.splits)
  next
    case (Some after)
    obtain q t where lim: "buffer_limit s = (q, t)" by (metis surj_pair)
    obtain l where l: "q = Inr l" "same_rows s t" using buffer_limit_ok [OF lim] lim by auto
    have t: "session_at X (view (w_files (snd t))) (fst t) acc" "same_session (fst s) (fst t)"
      using session_at_same_rows [OF l(2), of X view acc] at by simp_all
    have bytes: "ss_buffer_bytes (fst t) = ss_buffer_bytes (fst s)"
      using l(2) by (simp add: same_rows_def)
    show ?thesis
    proof (cases "l < after")
      case True
      then have "spill X t = (r, s')"
        using run False Some lim l by (simp add: spill_before_def attempt_def)
      from spill_outcome [OF L this t(1)] show ?thesis
        using t(2) by (auto split: sum.splits intro: same_session_trans)
    next
      case False
      then have "r = Inr ()" "s' = t"
        using run \<open>ss_buffer (fst s) \<noteq> []\<close> Some lim l
        by (auto simp: spill_before_def attempt_def ret_def)
      then show ?thesis
        using t Some bytes by simp
    qed
  qed
qed

text \<open>The row a push adds, as a run will store it.\<close>

definition accepted_row ::
    "('fs, 'h, 'k, 'v) ext \<Rightarrow> nat \<Rightarrow> 'k \<times> 'v \<times> usize \<Rightarrow> ('k, 'v) run_row" where
  "accepted_row X n = (\<lambda>(k, v, estimate).
     \<lparr>row_key = k, row_value = v, row_ordinal = of_nat n,
      row_retained = max estimate (size_of_row X), row_charge = None\<rparr>)"

lemma add_row_spec:
  assumes run: "add_row X k v (max n (size_of_row X)) c s = (r, s')"
    and at: "session_at X (view (w_files (snd s))) (fst s) acc"
    and room: "ss_buffer (fst s) = []
      \<or> checked_add (ss_buffer_bytes (fst s)) (max n (size_of_row X)) \<noteq> None"
  shows "same_session (fst s) (fst s') \<and>
    (case r of
       Inr _ \<Rightarrow> session_at X (view (w_files (snd s'))) (fst s')
         (acc @ [accepted_row X (length acc) (k, v, n)])
     | Inl _ \<Rightarrow> session_at X (view (w_files (snd s'))) (fst s') acc)"
proof -
  let ?b = "max n (size_of_row X)" and ?ss = "fst s"
  have "ss_buffer ?ss = [] \<Longrightarrow> ss_buffer_bytes ?ss = 0"
    using at by (simp add: session_at_def)
  moreover have "checked_add 0 ?b = Some ?b"
    using unat_u64 [of ?b] by (simp add: word_facts)
  ultimately obtain after where after: "checked_add (ss_buffer_bytes ?ss) ?b = Some after"
    using room by auto
  show ?thesis
  proof (cases "checked_add (ss_next_row ?ss) 1")
    case None
    then have "same_rows s s'" "r = Inl (Raise RunLimit)"
      using run by (auto simp: add_row_def attempt_def ok_or_def fail_def rows_drop_charge)
    then show ?thesis
      using session_at_same_rows [of s s' X view acc] at by simp
  next
    case (Some next_row)
    have ordinal: "ss_next_row ?ss = of_nat (length acc)"
    proof -
      have "unat (ss_next_row ?ss) = length acc" using at by (simp add: session_at_def)
      then have "of_nat (unat (ss_next_row ?ss)) = (of_nat (length acc) :: u64)" by (rule arg_cong)
      then show ?thesis by simp
    qed
    have s': "r = Inr ()" "s' = (?ss\<lparr>ss_next_row := next_row, ss_buffer := ss_buffer ?ss @
       [(run_row_new X k v)\<lparr>row_ordinal := ss_next_row ?ss, row_retained := ?b, row_charge := Some c\<rparr>],
       ss_buffer_bytes := after\<rparr>, snd s)"
      using run Some after
      by (cases s; simp add: add_row_def attempt_def ok_or_def ret_def updating_def modify_def)+
    have row: "stored ((run_row_new X k v)\<lparr>row_ordinal := ss_next_row ?ss, row_retained := ?b,
        row_charge := Some c\<rparr>) = accepted_row X (length acc) (k, v, n)"
      by (simp add: run_row_new_def stored_def accepted_row_def ordinal)
    have "unat (of_nat (length acc) :: u64) = length acc"
      using at ordinal by (simp add: session_at_def)
    then have "map (\<lambda>r. unat (row_ordinal r)) (acc @ [accepted_row X (length acc) (k, v, n)])
        = [0..<Suc (length acc)]"
      using at by (simp add: session_at_def accepted_row_def)
    then have "session_at X (view (w_files (snd s'))) (fst s')
        (acc @ [accepted_row X (length acc) (k, v, n)])"
      using at Some row by (auto simp: session_at_def s' word_facts)
    then show ?thesis
      by (simp add: s' same_session_def)
  qed
qed

lemma spill_after_spec:
  assumes L: "ext_laws X view hpath hpos" and run: "spill_after X s = (r, s')"
    and at: "session_at X (view (w_files (snd s))) (fst s) acc"
  shows "case r of
      Inl _ \<Rightarrow> ss_failed (fst s')
    | Inr _ \<Rightarrow> session_at X (view (w_files (snd s'))) (fst s') acc \<and> same_session (fst s) (fst s')"
proof -
  obtain q t where lim: "buffer_limit s = (q, t)" by (metis surj_pair)
  obtain l where l: "q = Inr l" "same_rows s t" using buffer_limit_ok [OF lim] lim by auto
  have t: "session_at X (view (w_files (snd t))) (fst t) acc" "same_session (fst s) (fst t)"
    using session_at_same_rows [OF l(2), of X view acc] at by simp_all
  show ?thesis
  proof (cases "l \<le> ss_buffer_bytes (fst t)")
    case True
    then have "spill X t = (r, s')"
      using run lim l by (simp add: spill_after_def attempt_def)
    from spill_outcome [OF L this t(1)] show ?thesis
      using t(2) by (auto split: sum.splits intro: same_session_trans)
  next
    case False
    then show ?thesis
      using run lim l t by (auto simp: spill_after_def attempt_def ret_def)
  qed
qed

text \<open>The steps of a push before the first spill, and after it.\<close>

definition push_front ::
    "('fs, 'h, 'k, 'v) ext \<Rightarrow> usize \<Rightarrow> ('fs, 'k, 'v, memory_charge) session_act" where
  "push_front X bytes =
     and_then ensure_usable (\<lambda>_. and_then (reserve_metadata X) (\<lambda>_. on_world (reserve bytes)))"

lemma push_with_size_eq:
  "push_with_size X k v n s = and_then (push_front X (max n (size_of_row X))) (\<lambda>c.
      attempt (drop_charge c) (spill_before X (max n (size_of_row X))) (\<lambda>_.
      attempt (drop_charge c) (grow_buffer X) (\<lambda>_.
      and_then (add_row X k v (max n (size_of_row X)) c) (\<lambda>_. spill_after X)))) s"
  by (simp add: push_with_size_def push_front_def Let_def attempt_def split: prod.splits sum.splits)

lemma push_front_rows: "keeps same_rows (push_front X n)"
  unfolding push_front_def
  by (intro rows.keeps_intros rows_steps rows_on_world reserve_same)

lemma fst_drop_charge [simp]: "fst (drop_charge c t) = fst t"
  by (cases t) (simp add: drop_charge_def)

lemma push_spec:
  assumes L: "ext_laws X view hpath hpos" and run: "push_with_size X k v n s = (r, s')"
    and at: "session_at X (view (w_files (snd s))) (fst s) acc"
  shows "case r of
      Inl _ \<Rightarrow> ss_failed (fst s')
        \<or> session_at X (view (w_files (snd s'))) (fst s') acc \<and> same_session (fst s) (fst s')
    | Inr _ \<Rightarrow> session_at X (view (w_files (snd s'))) (fst s') (acc @ [accepted_row X (length acc) (k, v, n)])
        \<and> same_session (fst s) (fst s')"
proof -
  let ?b = "max n (size_of_row X)"
  obtain q0 s0 where 0: "push_front X ?b s = (q0, s0)" by (metis surj_pair)
  have at0: "session_at X (view (w_files (snd s0))) (fst s0) acc" "same_session (fst s) (fst s0)"
    using session_at_same_rows [OF keepsD [OF push_front_rows 0], of X view acc] at by simp_all
  show ?thesis
  proof (cases q0)
    case (Inl e)
    then show ?thesis using run 0 at0 unfolding push_with_size_eq by (auto simp: attempt_def)
  next
    case q0: (Inr c)
    obtain q1 s1 where 1: "spill_before X ?b s0 = (q1, s1)" by (metis surj_pair)
    note spec1 = spill_before_spec [OF L 1 at0(1)]
    show ?thesis
    proof (cases q1)
      case (Inl e)
      then show ?thesis
        using run 0 q0 1 spec1 unfolding push_with_size_eq by (auto simp: attempt_def)
    next
      case q1: (Inr x)
      then have at1: "session_at X (view (w_files (snd s1))) (fst s1) acc" "same_session (fst s0) (fst s1)"
        "ss_buffer (fst s1) = [] \<or> checked_add (ss_buffer_bytes (fst s1)) ?b \<noteq> None"
        using spec1 by auto
      obtain q2 s2 where 2: "grow_buffer X s1 = (q2, s2)" by (metis surj_pair)
      have same2: "same_rows s1 s2" by (rule keepsD [OF rows_steps(3) 2])
      have at2: "session_at X (view (w_files (snd s2))) (fst s2) acc" "same_session (fst s1) (fst s2)"
        using session_at_same_rows [OF same2, of X view acc] at1(1) by simp_all
      have path: "same_session (fst s) (fst s2)"
        using at0(2) at1(2) at2(2) by (blast intro: same_session_trans)
      show ?thesis
      proof (cases q2)
        case (Inl e)
        then have "same_rows s2 s'" "r = Inl e"
          using run 0 q0 1 q1 2 unfolding push_with_size_eq by (auto simp: attempt_def rows_drop_charge)
        then show ?thesis
          using session_at_same_rows [of s2 s' X view acc] at2(1) path
          by (auto intro: same_session_trans)
      next
        case q2: (Inr y)
        obtain q3 s3 where 3: "add_row X k v ?b c s2 = (q3, s3)" by (metis surj_pair)
        have room: "ss_buffer (fst s2) = [] \<or> checked_add (ss_buffer_bytes (fst s2)) ?b \<noteq> None"
          using at1(3) same2 by (simp add: same_rows_def)
        note spec3 = add_row_spec [OF 3, of view acc, OF at2(1) room]
        show ?thesis
        proof (cases q3)
          case (Inl e)
          then have "s' = s3" "r = Inl e"
            using run 0 q0 1 q1 2 q2 3 unfolding push_with_size_eq by (auto simp: attempt_def)
          then show ?thesis
            using spec3 Inl path by (auto intro: same_session_trans)
        next
          case q3: (Inr z)
          have 4: "spill_after X s3 = (r, s')"
            using run 0 q0 1 q1 2 q2 3 q3 unfolding push_with_size_eq by (auto simp: attempt_def)
          have "session_at X (view (w_files (snd s3))) (fst s3)
              (acc @ [accepted_row X (length acc) (k, v, n)])"
            using spec3 q3 by simp
          from spill_after_spec [OF L 4 this] show ?thesis
            using spec3 path by (auto split: sum.splits intro: same_session_trans)
        qed
      qed
    qed
  qed
qed

end
