(* ===== verification/SortOutput.thy ===== *)
theory SortOutput
  imports SessionSpec
begin

text \<open>
  From the first push to the last value (src/engine/session.rs, src/engine/merge.rs): a
  session that is pushed to, finished and drained yields the values of the accepted rows in
  stable key order, or the first of each key.
\<close>

section \<open>Driving a session\<close>

fun push_all ::
    "('fs, 'h, 'k::linorder, 'v) ext \<Rightarrow> ('k \<times> 'v \<times> usize) list \<Rightarrow> ('k, 'v) session \<times> 'fs world
      \<Rightarrow> (fault + unit) list \<times> ('k, 'v) session \<times> 'fs world" where
  "push_all X [] s = ([], s)"
| "push_all X ((k, v, n) # xs) s =
     (case push_with_size X k v n s of (r, s') \<Rightarrow>
      case push_all X xs s' of (rs, s'') \<Rightarrow> (r # rs, s''))"

definition accepted :: "('k \<times> 'v \<times> usize) list \<Rightarrow> (fault + unit) list \<Rightarrow> ('k \<times> 'v) list" where
  "accepted xs rs = map (\<lambda>((k, v, n), r). (k, v)) (filter (\<lambda>(x, r). r = Inr ()) (zip xs rs))"

lemma memory_stream_scan_shorter:
  "memory_stream_scan dedup prev rows w = (Some (v, prev', rows'), w') \<Longrightarrow> length rows' < length rows"
  by (induction dedup prev rows w rule: memory_stream_scan.induct) (auto split: if_splits)

lemma memory_stream_next_shorter:
  "memory_stream_next im w = (Inr (Yielded i im'), w') \<Longrightarrow> length (im_rows im') < length (im_rows im)"
  by (auto simp: memory_stream_next_def dest: memory_stream_scan_shorter split: prod.splits option.splits)

function drain_memory ::
    "('k, 'v) memory_stream \<Rightarrow> 'fs world \<Rightarrow> ((error + 'v) list \<times> fault option) \<times> 'fs world" where
  "drain_memory im w =
     (case memory_stream_next im w of
        (Inl e, w') \<Rightarrow> (([], Some e), w')
      | (Inr p, w') \<Rightarrow>
          (case p of
             Ended \<Rightarrow> (([], None), w')
           | Yielded i im' \<Rightarrow> (case drain_memory im' w' of ((later, e), w'') \<Rightarrow> ((i # later, e), w''))))"
  by pat_completeness auto

termination
  by (relation "measure (\<lambda>(im, w). length (im_rows im))")
    (auto dest!: sym [of "(Inr _, _)"] dest: memory_stream_next_shorter)

declare drain_memory.simps [simp del]

definition drain_sort ::
    "('fs, 'h, 'k::linorder, 'v) ext \<Rightarrow> ('k, 'v) sort_stream \<Rightarrow> 'fs world
      \<Rightarrow> ((error + 'v) list \<times> fault option) \<times> 'fs world" where
  "drain_sort X stream w =
     (case stream of Buffered im \<Rightarrow> drain_memory im w | Merging vs \<Rightarrow> drain X vs w)"

section \<open>The in-memory stream\<close>

lemma memory_stream_scan_spec:
  "memory_stream_scan dedup prev rows w = (r, w') \<Longrightarrow>
    (let due = (\<lambda>prev rows. if dedup then dedup_from row_key (map_option fst prev) rows else rows)
     in case r of
          None \<Rightarrow> due prev rows = []
        | Some (v, prev', rows') \<Rightarrow>
            map row_value (due prev rows) = v # map row_value (due prev' rows'))"
  by (induction dedup prev rows w rule: memory_stream_scan.induct)
    (auto simp: Let_def split: if_splits option.splits)

lemma drain_memory_spec:
  "drain_memory im w = ((items, e), w') \<Longrightarrow>
    e = None \<and> items = map Inr (map row_value
      (if im_dedup im then dedup_from row_key (map_option fst (im_last im)) (im_rows im) else im_rows im))"
proof (induction im w arbitrary: items rule: drain_memory.induct)
  case (1 im w)
  obtain r w1 where scan: "memory_stream_scan (im_dedup im) (im_last im) (im_rows im) w = (r, w1)"
    by (metis surj_pair)
  note spec = memory_stream_scan_spec [OF scan, unfolded Let_def]
  show ?case
  proof (cases r)
    case None
    then show ?thesis
      using 1(2) scan spec
      by (subst (asm) drain_memory.simps) (simp add: memory_stream_next_def)
  next
    case (Some x)
    obtain v prev rows where x: "x = (v, prev, rows)" by (cases x) auto
    have poll: "memory_stream_next im w = (Inr (Yielded (Inr v) (im\<lparr>im_rows := rows, im_last := prev\<rparr>)), w1)"
      by (simp add: memory_stream_next_def scan Some x)
    obtain later where more: "drain_memory (im\<lparr>im_rows := rows, im_last := prev\<rparr>) w1 = ((later, e), w')"
      "items = Inr v # later"
      using 1(2) poll by (subst (asm) drain_memory.simps) (auto split: prod.splits)
    then show ?thesis
      using 1(1) [OF poll [symmetric] refl refl more(1)] spec Some x by (auto split: if_splits)
  qed
qed

section \<open>Pushing many rows\<close>

definition pair_of :: "('k, 'v) run_row \<Rightarrow> 'k \<times> 'v" where
  "pair_of r = (row_key r, row_value r)"

lemma pair_of_accepted [simp]: "pair_of (accepted_row X n (k, v, m)) = (k, v)"
  by (simp add: pair_of_def accepted_row_def)

text \<open>The rows of a usable session, in its runs and its buffer.\<close>

lemma session_at_rows:
  assumes "session_at X files ss acc"
  shows "\<exists>runs. holds_runs X files (frontier (ss_spills ss)) runs
    \<and> mset (map pair_of (concat runs @ ss_buffer ss)) = mset (map pair_of acc)"
proof -
  obtain old runs where old: "acc = old @ map stored (ss_buffer ss)"
    "holds_runs X files (frontier (ss_spills ss)) runs"
    "sort_key row_key (concat runs) = sort_key row_key old"
    using assms by (auto simp: session_at_def)
  have "mset (concat runs) = mset old"
    using old(3) by (metis mset_sort)
  then have "mset (map pair_of (concat runs)) = mset (map pair_of old)"
    by (metis mset_map)
  moreover have "map pair_of (map stored (ss_buffer ss)) = map pair_of (ss_buffer ss)"
    by (simp add: pair_of_def)
  ultimately have "mset (map pair_of (concat runs @ ss_buffer ss)) = mset (map pair_of acc)"
    by (simp only: old(1) map_append mset_append)
  then show ?thesis using old(2) by blast
qed

lemma push_failed:
  "ss_failed (fst s) \<Longrightarrow> push_with_size X k v n s = (Inl (Raise SessionFailed), s)"
  by (simp add: push_with_size_def attempt_def ensure_usable_def fail_def)

lemma push_all_failed: "ss_failed (fst s) \<Longrightarrow> snd (push_all X xs s) = s"
  by (induction xs) (auto simp: push_failed split: prod.splits)

lemma push_all_spec:
  assumes L: "ext_laws X view hpath hpos"
  shows "push_all X xs s = (rs, s') \<Longrightarrow> session_at X (view (w_files (snd s))) (fst s) acc \<Longrightarrow>
    \<not> ss_failed (fst s') \<Longrightarrow>
    \<exists>acc'. session_at X (view (w_files (snd s'))) (fst s') acc' \<and> same_session (fst s) (fst s')
      \<and> map pair_of acc' = map pair_of acc @ accepted xs rs"
proof (induction xs arbitrary: s rs acc)
  case Nil
  then show ?case by (auto simp: accepted_def same_session_def)
next
  case (Cons x xs)
  obtain k v n where x: "x = (k, v, n)" by (cases x) auto
  obtain r s1 where push: "push_with_size X k v n s = (r, s1)" by (metis surj_pair)
  obtain rs1 where rest: "push_all X xs s1 = (rs1, s')" and rs: "rs = r # rs1"
    using Cons.prems(1) x push by (auto split: prod.splits)
  have usable: "\<not> ss_failed (fst s1)"
    using Cons.prems(3) rest push_all_failed [of s1 X xs] by auto
  note spec = push_spec [OF L push, of acc, OF Cons.prems(2)]
  define acc1 where
    "acc1 = (if r = Inr () then acc @ [accepted_row X (length acc) (k, v, n)] else acc)"
  have at: "session_at X (view (w_files (snd s1))) (fst s1) acc1" "same_session (fst s) (fst s1)"
    using spec usable by (cases r; simp add: acc1_def)+
  obtain acc' where "session_at X (view (w_files (snd s'))) (fst s') acc'" "same_session (fst s1) (fst s')"
    "map pair_of acc' = map pair_of acc1 @ accepted xs rs1"
    using Cons.IH [OF rest at(1) Cons.prems(3)] by blast
  then show ?case
    using at(2) x rs by (intro exI [of _ acc'])
      (auto simp: acc1_def accepted_def intro: same_session_trans)
qed

section \<open>Finishing\<close>

lemma sort_rows_again [simp]: "sort_rows (sort_rows b) = sort_rows b"
  unfolding sort_rows_def by (rule sort_key_sorted) simp

lemma sort_rows_Nil [simp]: "sort_rows b = [] \<longleftrightarrow> b = []" "sort_rows [] = []"
  by (simp_all add: sort_rows_def)

lemma spill_sorted:
  assumes "spill X (ss\<lparr>ss_buffer := sort_rows (ss_buffer ss)\<rparr>, w) = (Inr u, s')" and "ss_buffer ss \<noteq> []"
  shows "spill X (ss, w) = (Inr u, s')"
  using assms
  by (cases "checked_add (ss_next_run ss) 1")
    (simp_all add: spill_def Let_def attempt_def updating_def modify_def ok_or_def ret_def fail_def)

lemma frontier_None: "counter_value slots = 0 \<Longrightarrow> frontier slots = []"
  by (induction slots) (auto split: option.splits if_splits)

lemma spill_name_not_merge: "spill_name dir n p \<Longrightarrow> p \<noteq> join dir (merge_name a b)"
  by (auto simp: spill_name_def)

lemma merged_stream_spec:
  assumes L: "ext_laws X view hpath hpos"
    and run: "merged_stream X fan_in (ss\<lparr>ss_buffer := sort_rows (ss_buffer ss)\<rparr>, w) = (Inr out, s')"
    and at: "session_at X (view (w_files w)) ss acc"
  shows "\<exists>vs st P ls. out = Merging vs \<and> vs_state vs = Some st
    \<and> merge_at X (view (w_files (session_drop X True s'))) P st ls \<and> P \<subseteq> range (join (ss_dir ss))
    \<and> pending st ls = sorted_rows (ss_dedup ss) row_key acc"
proof -
  obtain ss1 w1 where spilled: "session_at X (view (w_files w1)) ss1 acc" "ss_buffer ss1 = []"
    "same_session ss ss1"
    and rest: "stream_frontier X fan_in (ss1, w1) = (Inr out, s')"
  proof (cases "ss_buffer ss = []")
    case True
    then have same: "ss\<lparr>ss_buffer := sort_rows (ss_buffer ss)\<rparr> = ss"
      by simp
    have "stream_frontier X fan_in (ss, w) = (Inr out, s')"
      using run [unfolded same] True by (simp add: merged_stream_def attempt_def ret_def)
    then show ?thesis
      using that [of w ss] at True by (simp add: same_session_def)
  next
    case False
    obtain ss1 w1 where spill: "spill X (ss\<lparr>ss_buffer := sort_rows (ss_buffer ss)\<rparr>, w) = (Inr (), (ss1, w1))"
      and rest: "stream_frontier X fan_in (ss1, w1) = (Inr out, s')"
      using run False unfolding merged_stream_def attempt_ok by auto
    show ?thesis
      using that [of w1 ss1] spill_spec [OF L spill_sorted [OF spill False] at] rest by simp
  qed
  obtain old ls where old: "acc = old" "holds_runs X (view (w_files w1)) (frontier (ss_spills ss1)) ls"
    "sort_key row_key (concat ls) = sort_key row_key old"
    using spilled(1,2) by (auto simp: session_at_def)
  have names: "distinct (frontier (ss_spills ss1))" "length (frontier (ss_spills ss1)) < 2 ^ 32"
    "\<And>n i. join (ss_dir ss1) (merge_name n i) \<notin> set (frontier (ss_spills ss1))"
    using spilled(1) length_frontier [of "ss_spills ss1"]
    by (auto simp: session_at_def dest!: bspec dest: spill_name_not_merge)
  obtain vs w2 where cs: "cascade_and_stream X (frontier (ss_spills ss1)) (max fan_in 2) (ss_dir ss1)
      (ss_cleanup ss1) (ss_dedup ss1) (ss_hold ss1) w1 = (Inr vs, w2)" and out: "out = Merging vs"
    and s': "s' = (ss1\<lparr>ss_hold := None, ss_cleanup := guard_disarmed,
         ss_spills := map (\<lambda>_. None) (ss_spills ss1)\<rparr>, w2)"
    using rest unfolding stream_frontier_def reading_eq fst_conv attempt_ok
    by (cases s') (auto simp: act_ok)
  obtain runs w3 st where cascade: "cascade X (max fan_in 2) (ss_dir ss1) 0 (frontier (ss_spills ss1)) w1 = (Inr runs, w3)"
    and opened: "merge_state_open X runs (ss_dedup ss1) w3 = (Inr st, w2)"
    and vs: "vs_state vs = Some st"
    using cs by (auto simp: cascade_and_stream_def act_ok)
  have dir: "ss_dir ss1 = ss_dir ss" using spilled(3) by (simp add: same_session_def)
  have "p \<in> range (join (ss_dir ss))" if "p \<in> set (frontier (ss_spills ss1))" for p
    using that spilled(1) by (auto simp: session_at_def spill_name_def dir)
  then have "set runs \<subseteq> range (join (ss_dir ss))"
    using cascade_paths [OF cascade, of "\<lambda>p. p \<in> range (join (ss_dir ss))"] by (auto simp: dir)
  moreover obtain ls' where "merge_at X (view (w_files w2)) (set runs) st ls'"
    "pending st ls' = sorted_rows (ss_dedup ss1) row_key (concat ls)"
    using cascade_merge_spec [OF L cascade opened old(2) names] by blast
  moreover have "sorted_rows (ss_dedup ss1) row_key (concat ls) = sorted_rows (ss_dedup ss) row_key acc"
    using old spilled(3) by (simp add: sorted_rows_def same_session_def)
  moreover have "w_files (session_drop X True s') = w_files w2"
    using spilled(2) by (simp add: s' session_drop_def guard_drop_def guard_disarmed_def rows_drop_def)
  ultimately show ?thesis
    using out vs by auto
qed

lemma dedup_stored:
  "map row_value (dedup_from row_key p (map stored rows)) = map row_value (dedup_from row_key p rows)"
  by (induction rows arbitrary: p) auto

text \<open>
  The values due from a stream. The runs a merge still reads are all in the directory of its
  sort.
\<close>

definition stream_due ::
    "('fs, 'h, 'k::linorder, 'v) ext \<Rightarrow> (path \<Rightarrow> u8 list option) \<Rightarrow> path \<Rightarrow> ('k, 'v) sort_stream
      \<Rightarrow> 'v list \<Rightarrow> bool" where
  "stream_due X files dir stream vals \<longleftrightarrow>
     (case stream of
        Buffered im \<Rightarrow> vals = map row_value
          (if im_dedup im then dedup_from row_key (map_option fst (im_last im)) (im_rows im) else im_rows im)
      | Merging vs \<Rightarrow> \<exists>st P ls. vs_state vs = Some st \<and> merge_at X files P st ls
          \<and> P \<subseteq> range (join dir) \<and> vals = map row_value (pending st ls))"

text \<open>A \<open>finish\<close> that returns, inverted.\<close>

lemma finish_cases:
  assumes "finish X (ss, w) = (Inr stream, w')"
  obtains s' fan where "w' = session_drop X True s'"
    "(if ss_next_run ss = 0 then in_memory_stream else merged_stream X fan)
       (ss\<lparr>ss_buffer := sort_rows (ss_buffer ss)\<rparr>, w) = (Inr stream, s')"
proof -
  let ?fan = "case ss_plan ss of InMemory \<Rightarrow> 2 | External _ fan \<Rightarrow> unat fan"
  obtain s' where "w' = session_drop X True s'"
    "(if ss_next_run ss = 0 then in_memory_stream else merged_stream X ?fan)
       (ss\<lparr>ss_buffer := sort_rows (ss_buffer ss)\<rparr>, w) = (Inr stream, s')"
    using assms by (cases "ss_plan ss") (auto simp: finish_def attempt_def ensure_usable_def updating_def
        modify_def ret_def fail_def split: prod.splits if_splits)
  then show thesis by (rule that)
qed

lemma finish_due:
  assumes L: "ext_laws X view hpath hpos"
    and run: "finish X (ss, w) = (Inr stream, w')"
    and at: "session_at X (view (w_files w)) ss acc"
  shows "stream_due X (view (w_files w')) (ss_dir ss) stream
    (map row_value (sorted_rows (ss_dedup ss) row_key acc))"
proof -
  let ?sorted = "ss\<lparr>ss_buffer := sort_rows (ss_buffer ss)\<rparr>"
  obtain s' fan where w': "w' = session_drop X True s'" and
    body: "(if ss_next_run ss = 0 then in_memory_stream else merged_stream X fan) (?sorted, w) = (Inr stream, s')"
    using run by (rule finish_cases)
  show ?thesis
  proof (cases "ss_next_run ss = 0")
    case True
    then have stream: "in_memory_stream (?sorted, w) = (Inr stream, s')" using body by simp
    have "counter_value (ss_spills ss) = 0"
      using at True by (simp add: session_at_def)
    then have "frontier (ss_spills ss) = []" by (rule frontier_None)
    then have acc: "acc = map stored (ss_buffer ss)"
      using at by (auto simp: session_at_def)
    then have sorted: "sort_rows (ss_buffer ss) = sort_key row_key (ss_buffer ss)"
      using at sort_rows_stable [of "[]" "ss_buffer ss"] by (auto simp: session_at_def)
    obtain im where im: "stream = Buffered im" "im_rows im = sort_rows (ss_buffer ss)" "im_last im = None"
      "im_dedup im = ss_dedup ss"
      using stream by (auto simp: in_memory_stream_def Let_def act_ok guard_take_reservation_def)
    then show ?thesis
      by (simp add: stream_due_def sorted_rows_def acc map_stored_sort [symmetric] sorted dedup_stored comp_def)
  next
    case False
    then have "merged_stream X fan (?sorted, w) = (Inr stream, s')" using body by simp
    from merged_stream_spec [OF L this at] show ?thesis
      using w' by (force simp: stream_due_def)
  qed
qed

lemma drain_due:
  assumes L: "ext_laws X view hpath hpos"
    and due: "stream_due X (view (w_files w)) dir stream vals"
    and drained: "drain_sort X stream w = ((items, e), w')"
  shows "\<exists>out errs. items = map Inr out @ map Inl errs \<and> prefix out vals
    \<and> (errs = [] \<and> e = None \<longrightarrow> out = vals)"
proof (cases stream)
  case (Buffered im)
  then have "e = None" "items = map Inr vals"
    using drained due drain_memory_spec [of im w items e w'] by (simp_all add: drain_sort_def stream_due_def)
  then show ?thesis by (intro exI [of _ vals] exI [of _ "[]"]) simp
next
  case (Merging vs)
  then obtain st P ls where m: "vs_state vs = Some st" "merge_at X (view (w_files w)) P st ls"
    "vals = map row_value (pending st ls)"
    using due by (auto simp: stream_due_def)
  have "drain X vs w = ((items, e), w')"
    using drained Merging by (simp add: drain_sort_def)
  from drain_spec [OF L this m(1,2)] show ?thesis by (simp add: m(3))
qed

lemma finish_spec:
  assumes L: "ext_laws X view hpath hpos"
    and run: "finish X (ss, w) = (Inr stream, w')"
    and at: "session_at X (view (w_files w)) ss acc"
    and drained: "drain_sort X stream w' = ((items, e), w'')"
  shows "\<exists>vals errs. items = map Inr vals @ map Inl errs
    \<and> prefix vals (map row_value (sorted_rows (ss_dedup ss) row_key acc))
    \<and> (errs = [] \<and> e = None \<longrightarrow> vals = map row_value (sorted_rows (ss_dedup ss) row_key acc))"
  by (rule drain_due [OF L finish_due [OF L run at] drained])

lemma dedup_from_map:
  "map g (dedup_from (\<lambda>x. f (g x)) p xs) = dedup_from f p (map g xs)"
  by (induction xs arbitrary: p) auto

lemma sorted_rows_map: "map g (sorted_rows d (\<lambda>x. f (g x)) xs) = sorted_rows d f (map g xs)"
  by (simp add: sorted_rows_def dedup_from_map map_sort_key)

lemma sorted_rows_pairs:
  "map row_value (sorted_rows d row_key rows) = map snd (sorted_rows d fst (map pair_of rows))"
proof -
  have "map snd (sorted_rows d fst (map pair_of rows))
      = map snd (map pair_of (sorted_rows d (\<lambda>r. fst (pair_of r)) rows))"
    by (simp only: sorted_rows_map)
  then show ?thesis by (simp add: pair_of_def comp_def)
qed

lemma session_new_at:
  assumes "session_new plan dir dedup = Inr ss"
  shows "session_at X files ss [] \<and> ss_dedup ss = dedup"
proof -
  have none: "frontier (replicate n None) = []" "counter_value (replicate n None) = 0" for n
    using frontier_zeros [of n "[]"] counter_value_zeros [of n "[]"] by simp_all
  have "counter_value (replicate 64 None) = 0" "frontier (replicate 64 None) = []"
    by (rule none)+
  then show ?thesis
    using assms
    by (auto simp: session_new_def guard_set_fd_budget_def guard_disarmed_def session_at_def)
qed

text \<open>A drained stream without errors yields values only.\<close>

lemma all_values:
  assumes "map Inr xs = map Inr vals @ map Inl errs"
  shows "errs = [] \<and> vals = xs"
proof -
  have "errs = []"
  proof (cases errs)
    case (Cons e es)
    then have "Inl e \<in> set (map Inr vals @ map Inl errs)" by simp
    then show ?thesis unfolding assms [symmetric] by auto
  qed
  then show ?thesis
    using assms by (auto dest: map_injective [OF _ inj_Inr])
qed

lemma output_of:
  assumes "ext_laws X view hpath hpos"
    and empty: "session_at X (view (w_files w0)) ss []"
    and "push_all X xs (ss, w0) = (rs, s1)"
    and "finish X s1 = (Inr stream, w2)"
    and "drain_sort X stream w2 = ((items, e), w3)"
  shows "\<exists>vals errs. items = map Inr vals @ map Inl errs
    \<and> prefix vals (map snd (sorted_rows (ss_dedup ss) fst (accepted xs rs)))
    \<and> (errs = [] \<and> e = None \<longrightarrow> vals = map snd (sorted_rows (ss_dedup ss) fst (accepted xs rs)))"
proof -
  obtain ss1 w1 where s1: "s1 = (ss1, w1)" by fastforce
  have "\<not> ss_failed ss1"
    using assms(4) s1
    by (auto simp: finish_def attempt_def ensure_usable_def fail_def split: prod.splits if_splits)
  then obtain acc where acc: "session_at X (view (w_files w1)) ss1 acc" "ss_dedup ss1 = ss_dedup ss"
    "map pair_of acc = accepted xs rs"
    using push_all_spec [OF assms(1,3), of "[]"] empty by (auto simp: s1 same_session_def)
  from finish_spec [OF assms(1) assms(4)[unfolded s1] acc(1) assms(5)] show ?thesis
    by (simp add: sorted_rows_pairs acc(2,3))
qed

lemma session_output:
  assumes "ext_laws X view hpath hpos"
    and "session_new plan dir dedup = Inr ss"
    and "push_all X xs (ss, w0) = (rs, s1)"
    and "finish X s1 = (Inr stream, w2)"
    and "drain_sort X stream w2 = ((items, e), w3)"
  shows "\<exists>vals errs. items = map Inr vals @ map Inl errs
    \<and> prefix vals (map snd (sorted_rows dedup fst (accepted xs rs)))
    \<and> (errs = [] \<and> e = None \<longrightarrow> vals = map snd (sorted_rows dedup fst (accepted xs rs)))"
  using output_of [OF assms(1) _ assms(3,4,5)] session_new_at [OF assms(2), of X "view (w_files w0)"] by auto

text \<open>C1. End to end: push any rows into a new session, in any world, with pushes that may fail;
  finish it and drain its stream. The values that come out are a prefix of the values of the
  rows whose push returned, in stable key order (with \<open>dedup\<close>, the first of each key), and
  they are all of them unless an error is reported.\<close>

theorem session_sorts:
  assumes "ext_laws X view hpath hpos"
    and "session_new plan dir dedup = Inr ss"
    and "push_all X xs (ss, w0) = (rs, s1)"
    and "finish X s1 = (Inr stream, w2)"
    and "drain_sort X stream w2 = ((items, e), w3)"
  shows "\<exists>vals errs. items = map Inr vals @ map Inl errs
    \<and> prefix vals (map snd (sorted_rows dedup fst (accepted xs rs)))
    \<and> (errs = [] \<and> e = None \<longrightarrow> vals = map snd (sorted_rows dedup fst (accepted xs rs)))"
  using assms by (rule session_output)

end
