(* ===== verification/SessionSafety.thy ===== *)
theory SessionSafety
  imports SortOutput
begin

text \<open>
  The accounts, frames and panics of a session and its output (src/engine/session.rs,
  src/engine/session/buffer.rs, src/engine/merge.rs). Whatever a session charges is in its
  buffer, its rows, its guard or its stream, and is released when they are dropped; the
  permits and the ceiling of the budget are kept; no assertion, \<open>expect\<close> or
  \<open>unreachable!\<close> fires.
\<close>

section \<open>What a session holds\<close>

definition rows_bytes :: "('k, 'v) run_row list \<Rightarrow> u64" where
  "rows_bytes rows = sum_list (map (\<lambda>r. charge_bytes (row_charge r)) rows)"

definition session_bytes :: "('k, 'v) session \<Rightarrow> u64" where
  "session_bytes ss =
     charge_bytes (ss_buffer_charge ss) + rows_bytes (ss_buffer ss)
     + charge_bytes (cg_reservation (ss_cleanup ss))"

definition beyond :: "('k, 'v) session \<times> 'fs world \<Rightarrow> u64" where
  "beyond s = held_bytes (snd s) - session_bytes (fst s)"

lemma held_rows_drop: "held_bytes (rows_drop rows w) = held_bytes w - rows_bytes rows"
  unfolding rows_drop_def rows_bytes_def
  by (induction rows arbitrary: w) (simp_all add: held_drops algebra_simps)

lemma held_release_charge: "held_bytes (release_opt c w) = held_bytes w - charge_bytes c"
  by (simp add: held_release_opt charge_bytes_def split: option.splits)

lemma held_session_drop: "held_bytes (session_drop X rt s) = beyond s"
  by (cases s) (simp add: session_drop_def beyond_def session_bytes_def held_guard_drop
      held_rows_drop held_release_charge algebra_simps)

lemma rows_bytes_sorted [simp]: "rows_bytes (sort_rows rows) = rows_bytes rows"
proof -
  have "mset (map (\<lambda>r. charge_bytes (row_charge r)) (sort_rows rows))
      = mset (map (\<lambda>r. charge_bytes (row_charge r)) rows)"
    by (simp add: sort_rows_def)
  then show ?thesis
    unfolding rows_bytes_def by (metis sum_mset_sum_list)
qed

section \<open>Accounts of the steps\<close>

lemma beyond_on_world:
  assumes "conserves held_bytes a m b"
  shows "conserves beyond a (on_world m) b"
  using assms unfolding conserves_def
  by (auto simp: beyond_def on_world_def algebra_simps split: prod.splits)
    (metis (no_types, lifting) add.commute fst_conv snd_conv add_diff_eq)+

lemma beyond_updating:
  "(\<And>ss. session_bytes (g ss) = session_bytes ss) \<Longrightarrow> conserves beyond 0 (updating g) (\<lambda>_. 0)"
  by (auto simp: conserves_def updating_def modify_def beyond_def split: prod.splits)

lemma beyond_drop_charge [simp]: "beyond (drop_charge c s) = beyond s - c"
  by (cases s) (simp add: drop_charge_def beyond_def held_release)

lemma ensure_usable_conserves: "conserves beyond 0 ensure_usable (\<lambda>_. 0)"
  unfolding ensure_usable_def
  by (auto intro!: conserves_reading conserves_fail conserves_ret)

lemma buffer_limit_conserves: "conserves beyond 0 buffer_limit (\<lambda>_. 0)"
  unfolding buffer_limit_def Let_def
  by (intro conserves_reading conserves_and_then [OF beyond_on_world [OF limit_now_conserves]]
      conserves_ret) simp

text \<open>A step that ends by storing the charge \<open>c\<close> it owns in the session.\<close>

lemma store_charge:
  assumes "session_bytes (g (fst s)) = session_bytes (fst s) + c"
  shows "beyond (snd (updating g s)) = beyond s - c \<and> fst (updating g s) = Inr ()"
  using assms by (cases s) (simp add: updating_def modify_def beyond_def)

lemma reserve_metadata_conserves: "conserves beyond 0 (reserve_metadata X) (\<lambda>_. 0)"
proof -
  have store: "beyond (snd ((case guard_retain c (ss_cleanup (fst s)) of
         Inl e \<Rightarrow> bail (drop_charge c) e
       | Inr g \<Rightarrow> updating (\<lambda>ss. ss\<lparr>ss_cleanup := g, ss_metadata_reserved := True\<rparr>)) s))
      = beyond s - c" for c and s :: "('a, 'b) session \<times> 'c world"
    using store_charge [of "\<lambda>ss. ss\<lparr>ss_cleanup := (ss_cleanup (fst s))\<lparr>cg_reservation := Some c\<rparr>,
        ss_metadata_reserved := True\<rparr>" s c]
    by (auto simp: guard_retain_def bail_def session_bytes_def)
  have "conserves held_bytes 0 (reserve n) (\<lambda>c. c)" for n
    by (rule reserve_conserves)
  note res = conserves_run [OF beyond_on_world [OF this]]
  show ?thesis
    unfolding conserves_iff
  proof
    fix s :: "('a, 'b) session \<times> 'c world"
    show "beyond (snd (reserve_metadata X s)) = beyond s + value_bytes (\<lambda>_. 0) (fst (reserve_metadata X s))"
    proof (cases "ss_metadata_reserved (fst s)")
      case True
      then show ?thesis by (simp add: reserve_metadata_def ret_def)
    next
      case False
      define bytes where "bytes = Option.bind (checked_add (path_capacity X (ss_dir (fst s))) 128)
        (\<lambda>p. Option.bind (checked_mul p 256) (\<lambda>n. checked_add n (size_of_session X)))"
      show ?thesis
      proof (cases bytes)
        case None
        then show ?thesis
          using False by (auto simp: bytes_def reserve_metadata_def attempt_def ok_or_def fail_def ret_def
              split: option.splits)
      next
        case (Some n)
        obtain r t where run: "on_world (reserve n) s = (r, t)" by (metis surj_pair)
        have ss: "fst t = fst s" using run by (cases s) (auto simp: on_world_def split: prod.splits)
        have eq: "reserve_metadata X s = (case r of Inl e \<Rightarrow> (Inl e, t) | Inr c \<Rightarrow>
            (case guard_retain c (ss_cleanup (fst t)) of
               Inl e \<Rightarrow> bail (drop_charge c) e
             | Inr g \<Rightarrow> updating (\<lambda>ss. ss\<lparr>ss_cleanup := g, ss_metadata_reserved := True\<rparr>)) t)"
          using False Some run ss
          by (auto simp: bytes_def reserve_metadata_def attempt_def ok_or_def ret_def
              split: bind_splits option.splits sum.splits)
        show ?thesis
          using res [OF run] store
          by (cases r) (simp_all add: eq value_bytes_def split: sum.splits)
      qed
    qed
  qed
qed

lemma grow_buffer_conserves: "conserves beyond 0 (grow_buffer X) (\<lambda>_. 0)"
proof -
  have "conserves held_bytes 0 (reserve n) (\<lambda>c. c)" for n
    by (rule reserve_conserves)
  note res = conserves_run [OF beyond_on_world [OF this]]
  have store: "beyond (snd (and_then (on_world (modify (release_opt (ss_buffer_charge (fst s))))) (\<lambda>_.
         updating (\<lambda>ss. ss\<lparr>ss_capacity := n, ss_buffer_charge := Some c\<rparr>)) s)) = beyond s - c"
    for c n and s :: "('a, 'b) session \<times> 'c world"
    by (cases s) (simp add: attempt_def on_world_def modify_def updating_def beyond_def
        session_bytes_def held_release_charge algebra_simps)
  show ?thesis
    unfolding conserves_iff
  proof
    fix s :: "('a, 'b) session \<times> 'c world"
    define bytes where "bytes = Option.bind (checked_mul (max (ss_capacity (fst s)) 1) 2)
      (\<lambda>c. map_option (Pair c) (checked_mul c (size_of_row X)))"
    show "beyond (snd (grow_buffer X s)) = beyond s + value_bytes (\<lambda>_. 0) (fst (grow_buffer X s))"
    proof (cases "length (ss_buffer (fst s)) < unat (ss_capacity (fst s))")
      case True
      then show ?thesis by (simp add: grow_buffer_def ret_def)
    next
      case False
      show ?thesis
      proof (cases bytes)
        case None
        then show ?thesis
          using False by (auto simp: bytes_def grow_buffer_def attempt_def ok_or_def fail_def ret_def
              split: option.splits)
      next
        case (Some p)
        obtain capacity n where p: "p = (capacity, n)" by fastforce
        obtain r t where run: "on_world (reserve n) s = (r, t)" by (metis surj_pair)
        have ss: "fst t = fst s" using run by (cases s) (auto simp: on_world_def split: prod.splits)
        have eq: "grow_buffer X s = (case r of Inl e \<Rightarrow> (Inl e, t) | Inr c \<Rightarrow>
            (if vec_capacity X capacity \<noteq> capacity
             then bail (drop_charge c) (Panic ''exact row capacity reservation'')
             else and_then (on_world (modify (release_opt (ss_buffer_charge (fst t))))) (\<lambda>_.
               updating (\<lambda>ss. ss\<lparr>ss_capacity := capacity, ss_buffer_charge := Some c\<rparr>))) t)"
          using False Some p run ss
          by (auto simp: bytes_def grow_buffer_def attempt_def ok_or_def ret_def
              split: bind_splits option.splits sum.splits)
        show ?thesis
          using res [OF run] store
          by (cases r) (simp_all add: eq bail_def value_bytes_def split: sum.splits)
      qed
    qed
  qed
qed

lemma write_rows_conserves: "conserves held_bytes 0 (write_rows X wr rows) (\<lambda>_. 0)"
  by (induction rows arbitrary: wr)
    (auto intro: conserves_ret conserves_and_then [OF run_writer_write_row_conserves])

lemma carry_conserves: "conserves beyond 0 (carry X ordinal levels run) (\<lambda>_. 0)"
proof (induction levels arbitrary: run)
  case Nil
  then show ?case by (simp add: conserves_fail)
next
  case (Cons level levels)
  have update: "conserves beyond 0 (updating (\<lambda>ss. ss\<lparr>ss_spills := h ss\<rparr>)) (\<lambda>_. 0)"
    "conserves beyond 0 (updating (\<lambda>ss. ss\<lparr>ss_spills := h ss, ss_failed := False\<rparr>)) (\<lambda>_. 0)" for h
    by (intro beyond_updating; simp add: session_bytes_def)+
  show ?case
    unfolding carry.simps
    by (intro conserves_reading)
      (auto intro!: update Cons.IH conserves_and_then [OF update(1)]
        conserves_and_then [OF beyond_on_world [OF merge_group_conserves]] split: option.splits)
qed

lemma clear_buffer_conserves: "conserves beyond 0 clear_buffer (\<lambda>_. 0)"
  unfolding clear_buffer_def
  by (intro conserves_modify)
    (auto simp: beyond_def session_bytes_def held_release_charge held_rows_drop rows_bytes_def)

lemma spill_run_conserves: "conserves beyond 0 (spill_run X ordinal dir) (\<lambda>_. 0)"
  unfolding spill_run_def
  by (intro conserves_and_then [OF beyond_on_world [OF perform_conserves [OF io_conserves]]]
      conserves_and_then [OF beyond_on_world [OF run_writer_create_conserves]]
      conserves_and_then [OF conserves_reading [OF beyond_on_world [OF write_rows_conserves]]]
      conserves_and_then [OF beyond_on_world [OF run_writer_finish_conserves]]
      conserves_and_then [OF clear_buffer_conserves] carry_conserves) simp

lemma spill_conserves: "conserves beyond 0 (spill X) (\<lambda>_. 0)"
  unfolding spill_def Let_def
  by (intro conserves_reading)
    (auto simp: session_bytes_def intro!: conserves_ret spill_run_conserves
      conserves_and_then [OF beyond_updating] conserves_and_then [OF conserves_ok_or])

lemma spill_before_conserves: "conserves beyond 0 (spill_before X n) (\<lambda>_. 0)"
  unfolding spill_before_def
  by (intro conserves_reading)
    (auto intro!: conserves_ret spill_conserves conserves_and_then [OF buffer_limit_conserves]
      split: option.splits)

lemma spill_after_conserves: "conserves beyond 0 (spill_after X) (\<lambda>_. 0)"
  unfolding spill_after_def
  by (intro conserves_and_then [OF buffer_limit_conserves] conserves_reading)
    (auto intro!: conserves_ret spill_conserves)

lemma add_row_conserves: "conserves beyond c (add_row X k v n c) (\<lambda>_. 0)"
proof -
  have row: "conserves beyond c (updating (\<lambda>ss. ss\<lparr>ss_next_row := m, ss_buffer := ss_buffer ss @
       [(run_row_new X k v)\<lparr>row_ordinal := ss_next_row ss, row_retained := n, row_charge := Some c\<rparr>]\<rparr>)) (\<lambda>_. 0)" for m
    by (auto simp: conserves_def updating_def modify_def beyond_def session_bytes_def rows_bytes_def)
  show ?thesis
    unfolding add_row_def
    by (intro conserves_reading conserves_attempt_neutral [OF conserves_ok_or] conserves_and_then [OF row]
        conserves_and_then [OF conserves_ok_or] beyond_updating)
      (simp_all add: session_bytes_def)
qed

lemma push_conserves: "conserves beyond 0 (push_with_size X k v n) (\<lambda>_. 0)"
  unfolding push_with_size_def Let_def
  by (intro conserves_and_then [OF ensure_usable_conserves] conserves_and_then [OF reserve_metadata_conserves]
      conserves_and_then [OF beyond_on_world [OF reserve_conserves]]
      conserves_attempt_neutral [OF spill_before_conserves]
      conserves_attempt_neutral [OF grow_buffer_conserves]
      conserves_and_then [OF add_row_conserves] spill_after_conserves) simp_all

lemma push_all_beyond: "beyond (snd (push_all X xs s)) = beyond s"
proof (induction xs arbitrary: s)
  case Nil
  then show ?case by simp
next
  case (Cons x xs)
  obtain k v n where x: "x = (k, v, n)" by (cases x) auto
  obtain r s1 where push: "push_with_size X k v n s = (r, s1)" by (metis surj_pair)
  have "beyond s1 = beyond s"
    using conserves_run [OF push_conserves push] by (cases r) auto
  then show ?case
    using Cons.IH [of s1] x push by (cases "push_all X xs s1") simp
qed

section \<open>Accounts of the output\<close>

definition value_stream_bytes :: "('k, 'v) value_stream \<Rightarrow> u64" where
  "value_stream_bytes vs =
     (case vs_state vs of None \<Rightarrow> 0 | Some st \<Rightarrow> state_bytes st)
     + charge_bytes (cg_reservation (vs_guard vs))"

definition memory_stream_bytes :: "('k, 'v) memory_stream \<Rightarrow> u64" where
  "memory_stream_bytes im =
     rows_bytes (im_rows im) + charge_bytes (Option.bind (im_last im) snd)
     + charge_bytes (im_allocation im) + charge_bytes (im_metadata im)"

definition sort_stream_bytes :: "('k, 'v) sort_stream \<Rightarrow> u64" where
  "sort_stream_bytes stream =
     (case stream of Buffered im \<Rightarrow> memory_stream_bytes im | Merging vs \<Rightarrow> value_stream_bytes vs)"

definition pulled_bytes :: "('s \<Rightarrow> u64) \<Rightarrow> ('v, 's) pulled \<Rightarrow> u64" where
  "pulled_bytes b p = (case p of Ended \<Rightarrow> 0 | Yielded _ s \<Rightarrow> b s)"

lemma cascade_and_stream_conserves:
  "conserves held_bytes (charge_bytes (cg_reservation guard))
     (cascade_and_stream X runs fan_in dir guard dedup hold) value_stream_bytes"
  unfolding cascade_and_stream_def
  by (intro conserves_attempt_neutral [OF cascade_conserves]
      conserves_attempt_gain [OF merge_state_open_conserves] conserves_ret)
    (simp_all add: held_guard_drop value_stream_bytes_def)

lemma stream_frontier_conserves: "conserves beyond 0 (stream_frontier X fan_in) sort_stream_bytes"
  unfolding conserves_iff
proof
  fix s :: "('a, 'b) session \<times> 'c world"
  obtain ss w where s: "s = (ss, w)" by fastforce
  let ?ss = "ss\<lparr>ss_hold := None, ss_cleanup := guard_disarmed, ss_spills := map (\<lambda>_. None) (ss_spills ss)\<rparr>"
  obtain r w1 where run: "cascade_and_stream X (frontier (ss_spills ss)) (max fan_in 2) (ss_dir ss)
      (ss_cleanup ss) (ss_dedup ss) (ss_hold ss) w = (r, w1)" by (metis surj_pair)
  have "session_bytes ?ss = session_bytes ss - charge_bytes (cg_reservation (ss_cleanup ss))"
    by (simp add: session_bytes_def guard_disarmed_def)
  moreover have "stream_frontier X fan_in s = (map_sum (\<lambda>e. e) Merging r, (?ss, w1))"
    using run by (auto simp: stream_frontier_def s attempt_def updating_def modify_def on_world_def ret_def
        split: sum.splits)
  moreover have "held_bytes w1 = held_bytes w - charge_bytes (cg_reservation (ss_cleanup ss))
      + value_bytes value_stream_bytes r"
    using conserves_fault [OF cascade_and_stream_conserves] conserves_value [OF cascade_and_stream_conserves] run
    by (cases r) fastforce+
  ultimately show "beyond (snd (stream_frontier X fan_in s))
      = beyond s + value_bytes sort_stream_bytes (fst (stream_frontier X fan_in s))"
    by (cases r) (simp_all add: beyond_def s sort_stream_bytes_def)
qed

lemma in_memory_stream_conserves: "conserves beyond 0 in_memory_stream sort_stream_bytes"
  by (auto simp: conserves_def in_memory_stream_def Let_def attempt_def updating_def modify_def ret_def
      guard_take_reservation_def beyond_def session_bytes_def sort_stream_bytes_def
      memory_stream_bytes_def rows_bytes_def split: prod.splits)

lemma merged_stream_conserves: "conserves beyond 0 (merged_stream X fan_in) sort_stream_bytes"
proof -
  have "conserves beyond 0 (reading (\<lambda>ss. if ss_buffer ss \<noteq> [] then spill X else ret ())) (\<lambda>_. 0)"
    by (auto intro!: conserves_reading conserves_ret spill_conserves)
  then show ?thesis
    unfolding merged_stream_def by (rule conserves_and_then) (rule stream_frontier_conserves)
qed

lemma finish_held:
  assumes "finish X s = (r, w')"
  shows "held_bytes w' = beyond s + value_bytes sort_stream_bytes r"
proof -
  let ?body = "and_then ensure_usable (\<lambda>_.
        and_then (updating (\<lambda>ss. ss\<lparr>ss_buffer := sort_rows (ss_buffer ss)\<rparr>)) (\<lambda>_.
        reading (\<lambda>ss.
          case ss_plan ss of
            InMemory \<Rightarrow> if ss_next_run ss = 0 then in_memory_stream else merged_stream X 2
          | External _ fan \<Rightarrow>
              if ss_next_run ss = 0 then in_memory_stream else merged_stream X (unat fan))))"
  have "conserves beyond 0 ?body sort_stream_bytes"
    by (intro conserves_and_then [OF ensure_usable_conserves] conserves_and_then [OF beyond_updating]
        conserves_reading)
      (auto simp: session_bytes_def in_memory_stream_conserves merged_stream_conserves split: sort_plan.splits)
  then have "beyond (snd (?body s)) = beyond s + value_bytes sort_stream_bytes (fst (?body s))"
    by (simp only: conserves_iff)
  then show ?thesis
    using assms by (auto simp: finish_def held_session_drop split: prod.splits)
qed

lemma memory_stream_scan_held:
  "memory_stream_scan dedup prev rows w = (r, w') \<Longrightarrow>
    held_bytes w' - (case r of
        None \<Rightarrow> charge_bytes (Option.bind prev snd)
      | Some (v, prev', rows') \<Rightarrow> rows_bytes rows' + charge_bytes (Option.bind prev' snd))
    = held_bytes w - rows_bytes rows - charge_bytes (Option.bind prev snd)"
proof (induction dedup prev rows w rule: memory_stream_scan.induct)
  case (1 dedup prev w)
  then show ?case by (auto simp: rows_bytes_def)
next
  case (2 dedup prev row rows w)
  show ?case
  proof (cases "dedup \<and> map_option fst prev = Some (row_key row)")
    case True
    then show ?thesis
      using 2 by (auto simp: held_drops rows_bytes_def split: option.splits prod.splits)
  next
    case False
    then show ?thesis
      using 2(2) by (auto simp: held_drops held_release_charge rows_bytes_def split: if_splits)
  qed
qed

lemma held_memory_stream_drop:
  "held_bytes (memory_stream_drop im w) = held_bytes w - memory_stream_bytes im"
  by (simp add: memory_stream_drop_def memory_stream_bytes_def held_release_charge held_rows_drop)

lemma memory_stream_next_held:
  assumes "memory_stream_next im w = (r, w')"
  shows "held_bytes w' - value_bytes (pulled_bytes memory_stream_bytes) r = held_bytes w - memory_stream_bytes im"
proof -
  obtain q w1 where scan: "memory_stream_scan (im_dedup im) (im_last im) (im_rows im) w = (q, w1)"
    by (metis surj_pair)
  note b = memory_stream_scan_held [OF scan]
  show ?thesis
  proof (cases q)
    case None
    then have "held_bytes w1 = held_bytes w - rows_bytes (im_rows im)"
      using b by simp
    then show ?thesis
      using assms scan None
      by (auto simp: memory_stream_next_def held_memory_stream_drop memory_stream_bytes_def pulled_bytes_def
          rows_bytes_def)
  next
    case (Some x)
    obtain v prev rows where x: "x = (v, prev, rows)" by (cases x) auto
    have w1: "held_bytes w1 = held_bytes w - rows_bytes (im_rows im) - charge_bytes (Option.bind (im_last im) snd)
        + (rows_bytes rows + charge_bytes (Option.bind prev snd))"
      using b Some x by (simp add: diff_eq_eq)
    have "w' = w1" "r = Inr (Yielded (Inr v) (im\<lparr>im_rows := rows, im_last := prev\<rparr>))"
      using assms scan Some x by (auto simp: memory_stream_next_def)
    then show ?thesis
      by (simp add: memory_stream_bytes_def pulled_bytes_def w1)
  qed
qed

lemma held_stream_drop: "held_bytes (stream_drop X vs w) = held_bytes w - value_stream_bytes vs"
  by (auto simp: stream_drop_def held_guard_drop held_merge_state_drop value_stream_bytes_def
      split: option.splits)

lemma stream_end_held:
  assumes "stream_end X vs w = (r, w')"
  shows "held_bytes w' - value_bytes (pulled_bytes value_stream_bytes) r = held_bytes w - value_stream_bytes vs"
proof -
  obtain q g w1 where clean: "guard_cleanup X (vs_guard vs, w) = (q, g, w1)" by (metis surj_pair)
  note b = guard_cleanup_held [OF clean]
  have drop: "held_bytes (stream_drop X (vs\<lparr>vs_guard := g\<rparr>) w1) = held_bytes w - value_stream_bytes vs"
    using b by (simp add: held_stream_drop value_stream_bytes_def algebra_simps)
  have yielded: "held_bytes (case vs_state vs of None \<Rightarrow> w1 | Some st \<Rightarrow> merge_state_drop st w1)
      - charge_bytes (cg_reservation g) = held_bytes w - value_stream_bytes vs"
    using b by (simp add: value_stream_bytes_def held_merge_state_drop algebra_simps split: option.splits)
  show ?thesis
    using assms clean drop yielded
    by (auto simp: stream_end_def pulled_bytes_def value_stream_bytes_def
        split: sum.splits fault.splits)
qed

lemma value_stream_next_held:
  assumes "value_stream_next X vs w = (r, w')"
  shows "held_bytes w' - value_bytes (pulled_bytes value_stream_bytes) r = held_bytes w - value_stream_bytes vs"
proof (cases "vs_state vs")
  case None
  then show ?thesis
    using assms stream_end_held [of X vs w r w']
    by (auto simp: value_stream_next_def held_stream_drop pulled_bytes_def split: if_splits)
next
  case (Some st)
  obtain q st' w1 where run: "merge_next X (st, w) = (q, st', w1)" by (metis surj_pair)
  have b: "held_bytes w1 - state_bytes st' = held_bytes w - state_bytes st + value_bytes row_bytes q"
    using conserves_run [OF merge_next_conserves run] by (simp add: outside_def)
  have vs': "value_stream_bytes (vs\<lparr>vs_state := Some st'\<rparr>)
      = state_bytes st' + charge_bytes (cg_reservation (vs_guard vs))"
    "value_stream_bytes vs = state_bytes st + charge_bytes (cg_reservation (vs_guard vs))"
    by (simp_all add: value_stream_bytes_def Some)
  show ?thesis
  proof (cases q)
    case (Inl e)
    have w1: "held_bytes w1 = held_bytes w - state_bytes st + state_bytes st'"
      using b Inl by (simp add: diff_eq_eq)
    show ?thesis
      using assms Some run Inl
      by (cases e)
        (auto simp: value_stream_next_def held_stream_drop vs' w1 held_merge_state_drop pulled_bytes_def
          value_stream_bytes_def)
  next
    case (Inr o')
    show ?thesis
    proof (cases o')
      case None
      have w1: "held_bytes w1 = held_bytes w - state_bytes st + state_bytes st'"
        using b Inr None by (simp add: diff_eq_eq)
      have "stream_end X (vs\<lparr>vs_state := Some st'\<rparr>) w1 = (r, w')"
        using assms Some run Inr None by (simp add: value_stream_next_def)
      from stream_end_held [OF this] show ?thesis by (simp add: vs' w1)
    next
      case (Some row)
      have w1: "held_bytes w1 = held_bytes w - state_bytes st + charge_bytes (row_charge row) + state_bytes st'"
        using b Inr Some by (simp add: diff_eq_eq)
      show ?thesis
        using assms \<open>vs_state vs = Some st\<close> run Inr Some
        by (auto simp: value_stream_next_def pulled_bytes_def held_drops w1 value_stream_bytes_def)
    qed
  qed
qed

lemma drain_held: "drain X vs w = (out, w') \<Longrightarrow> held_bytes w' = held_bytes w - value_stream_bytes vs"
proof (induction X vs w arbitrary: out rule: drain.induct)
  case (1 X vs w)
  obtain r w1 where poll: "value_stream_next X vs w = (r, w1)" by (metis surj_pair)
  note b = value_stream_next_held [OF poll]
  show ?case
  proof (cases "\<exists>i vs'. r = Inr (Yielded i vs')")
    case False
    then show ?thesis
      using 1(2) poll b
      by (subst (asm) drain.simps) (auto simp: pulled_bytes_def split: sum.splits pulled.splits)
  next
    case True
    then obtain i vs' where r: "r = Inr (Yielded i vs')" by blast
    obtain later e where more: "drain X vs' w1 = ((later, e), w')"
      using 1(2) poll r by (subst (asm) drain.simps) (auto split: prod.splits)
    then show ?thesis
      using 1(1) [OF poll [symmetric] r refl more] b r by (simp add: pulled_bytes_def)
  qed
qed

lemma drain_memory_held:
  "drain_memory im w = (out, w') \<Longrightarrow> held_bytes w' = held_bytes w - memory_stream_bytes im"
proof (induction im w arbitrary: out rule: drain_memory.induct)
  case (1 im w)
  obtain r w1 where poll: "memory_stream_next im w = (r, w1)" by (metis surj_pair)
  note b = memory_stream_next_held [OF poll]
  show ?case
  proof (cases "\<exists>i im'. r = Inr (Yielded i im')")
    case False
    then show ?thesis
      using 1(2) poll b
      by (subst (asm) drain_memory.simps) (auto simp: pulled_bytes_def split: sum.splits pulled.splits)
  next
    case True
    then obtain i im' where r: "r = Inr (Yielded i im')" by blast
    obtain later e where more: "drain_memory im' w1 = ((later, e), w')"
      using 1(2) poll r by (subst (asm) drain_memory.simps) (auto split: prod.splits)
    then show ?thesis
      using 1(1) [OF poll [symmetric] r refl more] b r by (simp add: pulled_bytes_def)
  qed
qed

lemma drain_sort_held:
  "drain_sort X stream w = (out, w') \<Longrightarrow> held_bytes w' = held_bytes w - sort_stream_bytes stream"
  by (auto simp: drain_sort_def sort_stream_bytes_def split: sort_stream.splits
      dest: drain_held drain_memory_held)

lemma new_session_bytes: "session_new plan dir dedup = Inr ss \<Longrightarrow> session_bytes ss = 0"
  by (auto simp: session_new_def guard_set_fd_budget_def guard_disarmed_def session_bytes_def rows_bytes_def)

lemma budget_back:
  assumes "session_bytes ss = 0"
    and "push_all X xs (ss, w0) = (rs, s1)"
    and "finish X s1 = (r, w2)"
  shows "case r of
      Inl e \<Rightarrow> held_bytes w2 = held_bytes w0
    | Inr stream \<Rightarrow> held_bytes (snd (drain_sort X stream w2)) = held_bytes w0"
proof -
  have "beyond s1 = held_bytes w0"
    using push_all_beyond [of X xs "(ss, w0)"] assms(2) assms(1)
    by (simp add: beyond_def)
  then have w2: "held_bytes w2 = held_bytes w0 + value_bytes sort_stream_bytes r"
    using finish_held [OF assms(3)] by simp
  show ?thesis
  proof (cases r)
    case (Inl e)
    then show ?thesis using w2 by simp
  next
    case (Inr stream)
    then show ?thesis
      using w2 drain_sort_held [of X stream w2] by (cases "drain_sort X stream w2") simp
  qed
qed


end
