(* ===== verification/SessionFrames.thy ===== *)
theory SessionFrames
  imports SessionSafety
begin

text \<open>
  What every operation of a session and of its output keeps of the world. The contract asks
  it of the primitive steps; the two instances are the fixed ceiling the peak never passes
  and the permits and pending operations that every step gives back.
\<close>

text \<open>
  A session owns its directory, the runs on its frontier and the directory its guard removes:
  its steps touch no other path.
\<close>

definition guard_safe :: "(path \<Rightarrow> bool) \<Rightarrow> cleanup_guard \<Rightarrow> bool" where
  "guard_safe dir_ok g \<longleftrightarrow> (\<forall>d. cg_dir g = Some d \<longrightarrow> dir_ok d)"

definition owns :: "(path \<Rightarrow> bool) \<Rightarrow> (path \<Rightarrow> bool) \<Rightarrow> ('k, 'v) session \<Rightarrow> bool" where
  "owns may dir_ok ss \<longleftrightarrow>
     dir_ok (ss_dir ss) \<and> guard_safe dir_ok (ss_cleanup ss)
     \<and> (\<forall>p. Some p \<in> set (ss_spills ss) \<longrightarrow> may p)
     \<and> (length (ss_spills ss) = 64 \<or> (\<forall>p. may p))"

definition claims ::
    "(path \<Rightarrow> bool) \<Rightarrow> (path \<Rightarrow> bool) \<Rightarrow> ('w \<Rightarrow> 'w \<Rightarrow> bool)
      \<Rightarrow> ('k, 'v) session \<times> 'w \<Rightarrow> ('k, 'v) session \<times> 'w \<Rightarrow> bool" where
  "claims may dir_ok R s t \<longleftrightarrow> (owns may dir_ok (fst s) \<longrightarrow> R (snd s) (snd t) \<and> owns may dir_ok (fst t))"

lemma guard_safe_simps [simp]:
  "guard_safe dir_ok guard_disarmed" "guard_safe dir_ok (g\<lparr>cg_reservation := c\<rparr>) = guard_safe dir_ok g"
  "dir_ok d \<Longrightarrow> guard_safe dir_ok g \<Longrightarrow> guard_safe dir_ok (guard_arm d g)"
  by (auto simp: guard_safe_def guard_disarmed_def guard_arm_def split: option.splits)

lemma guard_cleanup_dir: "guard_cleanup X (g, w) = (r, g', w') \<Longrightarrow> guard_safe dir_ok g \<Longrightarrow> guard_safe dir_ok g'"
  by (auto simp: guard_cleanup_def guard_safe_def split: option.splits prod.splits sum.splits)

lemma owns_simps [simp]:
  "owns may dir_ok (ss\<lparr>ss_failed := b\<rparr>) = owns may dir_ok ss"
  "owns may dir_ok (ss\<lparr>ss_buffer := rows\<rparr>) = owns may dir_ok ss"
  "owns may dir_ok (ss\<lparr>ss_buffer_bytes := n\<rparr>) = owns may dir_ok ss"
  "owns may dir_ok (ss\<lparr>ss_buffer_charge := c\<rparr>) = owns may dir_ok ss"
  "owns may dir_ok (ss\<lparr>ss_capacity := m\<rparr>) = owns may dir_ok ss"
  "owns may dir_ok (ss\<lparr>ss_next_run := m\<rparr>) = owns may dir_ok ss"
  "owns may dir_ok (ss\<lparr>ss_next_row := m\<rparr>) = owns may dir_ok ss"
  "owns may dir_ok (ss\<lparr>ss_metadata_reserved := b\<rparr>) = owns may dir_ok ss"
  "owns may dir_ok (ss\<lparr>ss_hold := h\<rparr>) = owns may dir_ok ss"
  by (simp_all add: owns_def)

lemma owns_parts:
  "owns may dir_ok ss \<Longrightarrow> dir_ok (ss_dir ss)" "owns may dir_ok ss \<Longrightarrow> guard_safe dir_ok (ss_cleanup ss)"
  "owns may dir_ok ss \<Longrightarrow> guard_safe dir_ok g \<Longrightarrow> owns may dir_ok (ss\<lparr>ss_cleanup := g\<rparr>)"
  "owns may dir_ok ss \<Longrightarrow> l < 64 \<Longrightarrow> ss_spills ss ! l = Some p \<Longrightarrow> may p"
  "owns may dir_ok ss \<Longrightarrow> (\<And>p. slot = Some p \<Longrightarrow> may p) \<Longrightarrow> owns may dir_ok (ss\<lparr>ss_spills := (ss_spills ss)[l := slot]\<rparr>)"
  "owns may dir_ok ss \<Longrightarrow> p \<in> set (frontier (ss_spills ss)) \<Longrightarrow> may p"
  by (auto simp: owns_def frontier_def List.map_filter_def dest!: set_update_subset_insert [THEN subsetD]
      intro: nth_mem dest: sym)

lemma owns_emptied:
  "owns may dir_ok ss \<Longrightarrow>
     owns may dir_ok (ss\<lparr>ss_hold := None, ss_cleanup := guard_disarmed, ss_spills := map (\<lambda>_. None) (ss_spills ss)\<rparr>)"
  by (auto simp: owns_def)

lemma value_next_guard:
  assumes "value_stream_next X vs w = (Inr (Yielded i vs'), w')" and safe: "guard_safe dir_ok (vs_guard vs)"
  shows "guard_safe dir_ok (vs_guard vs')"
proof -
  have "guard_safe dir_ok (vs_guard vs')"
    if "stream_end X vs1 u = (Inr (Yielded i vs'), u')" "guard_safe dir_ok (vs_guard vs1)" for vs1 u u'
    using that by (auto simp: stream_end_def split: prod.splits sum.splits fault.splits dest: guard_cleanup_dir)
  then show ?thesis
    using assms by (auto simp: value_stream_next_def split: option.splits prod.splits sum.splits fault.splits if_splits)
qed

definition stream_safe :: "(path \<Rightarrow> bool) \<Rightarrow> ('k, 'v) sort_stream \<Rightarrow> bool" where
  "stream_safe dir_ok stream \<longleftrightarrow> (case stream of Buffered im \<Rightarrow> True | Merging vs \<Rightarrow> guard_safe dir_ok (vs_guard vs))"

lemma write_rows_path: "write_rows X wr rows w = (Inr wr', w') \<Longrightarrow> rw_path wr' = rw_path wr"
  by (induction rows arbitrary: wr w) (auto simp: act_ok dest!: writer_paths(2))

locale session_engine = engine_frame R X may for R :: "'fs world \<Rightarrow> 'fs world \<Rightarrow> bool"
    and X :: "('fs, 'h, 'k::linorder, 'v) ext" and may :: "path \<Rightarrow> bool" +
  fixes dir_ok :: "path \<Rightarrow> bool"
  assumes dir_names: "dir_ok d \<Longrightarrow> may (join d name)"
    and step_limit: "keeps R limit_now"
    and step_ensure: "dir_ok d \<Longrightarrow> keeps R (perform (\<lambda>w. w) n m (io (fs_ensure_dir X d)))"
    and step_cleanup: "guard_safe dir_ok g \<Longrightarrow> guard_cleanup X (g, w) = (r, g', w') \<Longrightarrow> R w w'"
    and step_guard_drop: "guard_safe dir_ok g \<Longrightarrow> R w (guard_drop X rt g w)"

sublocale session_engine \<subseteq> lifted: frame "claims may dir_ok R"
  by unfold_locales (auto simp: claims_def refl intro: trans)

context session_engine
begin

lemma lift_on_world: "keeps R m \<Longrightarrow> keeps (claims may dir_ok R) (on_world m)"
  by (auto intro!: keepsI simp: on_world_def claims_def split: prod.splits dest: keepsD)

lemma lift_updating:
  "(\<And>ss. owns may dir_ok ss \<Longrightarrow> owns may dir_ok (g ss)) \<Longrightarrow> keeps (claims may dir_ok R) (updating g)"
  by (auto simp: keeps_def updating_def modify_def claims_def refl)

lemma lift_reading:
  "(\<And>ss. owns may dir_ok ss \<Longrightarrow> keeps (claims may dir_ok R) (f ss)) \<Longrightarrow> keeps (claims may dir_ok R) (reading f)"
  by (auto simp: keeps_def claims_def)

lemma lift_drop_charge: "claims may dir_ok R s (drop_charge c s)"
  by (cases s) (simp add: drop_charge_def claims_def step_release)

lemma step_rows_drop: "R w (rows_drop rows w)"
  unfolding rows_drop_def
  by (induction rows arbitrary: w) (auto simp: refl intro: trans [OF step_row_drop])

lemma step_modify_release: "keeps R (modify (release_opt c))"
  by (intro keeps_modify step_release_opt)

lemma lift_clear_buffer: "keeps (claims may dir_ok R) clear_buffer"
  by (auto simp: keeps_def clear_buffer_def modify_def claims_def
      intro: trans [OF step_rows_drop step_release_opt])

lemmas lifts =
  lifted.keeps_intros lift_reading lift_on_world lift_updating lift_drop_charge lift_clear_buffer
  step_reserve step_limit step_modify_release

lemma step_write_rows: "may (rw_path wr) \<Longrightarrow> keeps R (write_rows X wr rows)"
proof (induction rows arbitrary: wr)
  case (Cons r rows)
  show ?case
    unfolding write_rows.simps
    by (rule keeps_attempt_value [OF step_write [OF Cons.prems] Cons.IH refl])
      (use Cons.prems in \<open>auto dest: writer_paths(2)\<close>)
qed (simp add: keeps_ret)

lemma lift_carry:
  "(\<And>l. l \<in> set levels \<Longrightarrow> l < 64) \<Longrightarrow> may run \<Longrightarrow> keeps (claims may dir_ok R) (carry X ordinal levels run)"
proof (induction levels arbitrary: run)
  case Nil
  then show ?case by (simp add: lifted.keeps_fail)
next
  case (Cons l levels)
  show ?case
    unfolding carry.simps
  proof (rule lift_reading)
    fix ss :: "('k, 'v) session"
    assume own: "owns may dir_ok ss"
    show "keeps (claims may dir_ok R) (case ss_spills ss ! l of
       None \<Rightarrow> updating (\<lambda>ss. ss\<lparr>ss_spills := (ss_spills ss)[l := Some run], ss_failed := False\<rparr>)
     | Some older \<Rightarrow>
         and_then (updating (\<lambda>ss. ss\<lparr>ss_spills := (ss_spills ss)[l := None]\<rparr>)) (\<lambda>_.
         and_then (on_world (merge_group_to_file X [older, run]
           (join (ss_dir ss) (carry_name ordinal l)) False)) (\<lambda>merged.
         carry X ordinal levels merged)))"
    proof (cases "ss_spills ss ! l")
      case None
      then show ?thesis using Cons.prems by (auto intro!: lift_updating owns_parts(5))
    next
      case (Some older)
      let ?out = "join (ss_dir ss) (carry_name ordinal l)"
      have may: "may older" "may ?out"
        using owns_parts(4) [OF own _ Some] Cons.prems(1) dir_names [OF owns_parts(1) [OF own]] by auto
      have merged: "keeps (claims may dir_ok R) (and_then (on_world (merge_group_to_file X [older, run] ?out False))
          (\<lambda>merged. carry X ordinal levels merged))"
        by (rule lifted.keeps_attempt_value [OF lift_on_world [OF step_merge_group] Cons.IH lifted.refl])
          (use may Cons.prems in \<open>auto simp: act_ok dest: merge_group_path\<close>)
      show ?thesis
        unfolding Some option.case
        by (rule lifted.keeps_attempt [OF lift_updating merged lifted.refl]) (auto intro: owns_parts(5))
    qed
  qed
qed

lemma lift_spill: "keeps (claims may dir_ok R) (spill X)"
proof -
  have finished: "keeps (claims may dir_ok R) (and_then (on_world (run_writer_finish X wr)) (\<lambda>run.
      and_then clear_buffer (\<lambda>_. carry X ordinal [0..<64] run)))" if "may (rw_path wr)" for wr ordinal
    by (rule lifted.keeps_attempt_value [OF lift_on_world [OF step_finish [OF that]]])
      (use that in \<open>auto simp: act_ok intro!: lifts lift_carry dest!: writer_paths(3)\<close>)
  have written: "keeps (claims may dir_ok R)
      (and_then (reading (\<lambda>ss. on_world (write_rows X wr (ss_buffer ss)))) (\<lambda>wr.
       and_then (on_world (run_writer_finish X wr)) (\<lambda>run.
       and_then clear_buffer (\<lambda>_. carry X ordinal [0..<64] run))))" if "may (rw_path wr)" for wr ordinal
    by (rule lifted.keeps_attempt_value [OF lift_reading [OF lift_on_world [OF step_write_rows [OF that]]]])
      (use that in \<open>auto simp: act_ok intro!: finished lifted.refl dest!: write_rows_path\<close>)
  have run: "keeps (claims may dir_ok R) (spill_run X ordinal d)" if "dir_ok d" for ordinal d
    unfolding spill_run_def
    by (rule lifted.keeps_attempt [OF lift_on_world [OF step_ensure [OF that]]
          lifted.keeps_attempt_value [OF lift_on_world [OF step_create [OF dir_names [OF that]]] written]])
      (use dir_names [OF that] in \<open>auto simp: act_ok lifted.refl dest!: writer_paths(1)\<close>)
  show ?thesis
    unfolding spill_def Let_def
  proof (rule lift_reading)
    fix ss :: "('k, 'v) session"
    assume own: "owns may dir_ok ss"
    have arm: "keeps (claims may dir_ok R) (updating (\<lambda>ss. ss\<lparr>ss_next_run := n, ss_buffer := sort_rows (ss_buffer ss),
        ss_cleanup := guard_arm (ss_dir ss) (ss_cleanup ss)\<rparr>))" for n
      by (rule lift_updating) (simp add: owns_def)
    have "keeps (claims may dir_ok R) (and_then (updating (\<lambda>ss. ss\<lparr>ss_failed := True\<rparr>)) (\<lambda>_.
          and_then (ok_or (Raise RunLimit) (checked_add (ss_next_run ss) 1)) (\<lambda>next_run.
          and_then (updating (\<lambda>ss. ss\<lparr>ss_next_run := next_run, ss_buffer := sort_rows (ss_buffer ss),
            ss_cleanup := guard_arm (ss_dir ss) (ss_cleanup ss)\<rparr>)) (\<lambda>_.
          spill_run X (ss_next_run ss) (ss_dir ss)))))"
      by (intro lifted.keeps_attempt lifted.keeps_ok_or arm run lifted.refl owns_parts(1) [OF own] lift_updating) simp
    then show "keeps (claims may dir_ok R) (if ss_buffer ss = [] then ret ()
       else and_then (updating (\<lambda>ss. ss\<lparr>ss_failed := True\<rparr>)) (\<lambda>_.
          and_then (ok_or (Raise RunLimit) (checked_add (ss_next_run ss) 1)) (\<lambda>next_run.
          and_then (updating (\<lambda>ss. ss\<lparr>ss_next_run := next_run, ss_buffer := sort_rows (ss_buffer ss),
            ss_cleanup := guard_arm (ss_dir ss) (ss_cleanup ss)\<rparr>)) (\<lambda>_.
          spill_run X (ss_next_run ss) (ss_dir ss)))))"
      by (simp add: lifted.keeps_ret)
  qed
qed

lemma lift_buffer_limit: "keeps (claims may dir_ok R) buffer_limit"
  unfolding buffer_limit_def Let_def by (auto intro!: lifts)

lemma guard_retain_safe: "guard_retain c g = Inr g' \<Longrightarrow> guard_safe dir_ok g \<Longrightarrow> guard_safe dir_ok g'"
  by (auto simp: guard_retain_def split: if_splits)

lemma lift_reserve_metadata: "keeps (claims may dir_ok R) (reserve_metadata X)"
  unfolding reserve_metadata_def
proof (rule lift_reading)
  fix ss :: "('k, 'v) session"
  assume own: "owns may dir_ok ss"
  have retained: "keeps (claims may dir_ok R) (case guard_retain c (ss_cleanup ss) of
         Inl e \<Rightarrow> bail (drop_charge c) e
       | Inr g \<Rightarrow> updating (\<lambda>ss. ss\<lparr>ss_cleanup := g, ss_metadata_reserved := True\<rparr>))" for c
    by (auto intro!: lifted.keeps_bail lift_drop_charge lift_updating owns_parts(3)
        dest: guard_retain_safe [OF _ owns_parts(2) [OF own]] split: sum.splits)
  show "keeps (claims may dir_ok R) (if ss_metadata_reserved ss then ret ()
     else
       and_then (ok_or (Raise RunLimit) (checked_add (path_capacity X (ss_dir ss)) 128)) (\<lambda>path_bytes.
       and_then (ok_or (Raise RunLimit) (Option.bind (checked_mul path_bytes 256)
         (\<lambda>n. checked_add n (size_of_session X)))) (\<lambda>bytes.
       and_then (on_world (reserve bytes)) (\<lambda>c.
       case guard_retain c (ss_cleanup ss) of
         Inl e \<Rightarrow> bail (drop_charge c) e
       | Inr g \<Rightarrow> updating (\<lambda>ss. ss\<lparr>ss_cleanup := g, ss_metadata_reserved := True\<rparr>)))))"
    by (simp add: lifted.keeps_ret)
      (intro impI lifted.keeps_attempt lifted.keeps_ok_or lift_on_world step_reserve lifted.refl retained)
qed

lemma lift_push_steps:
  "keeps (claims may dir_ok R) ensure_usable"
  "keeps (claims may dir_ok R) (grow_buffer X)" "keeps (claims may dir_ok R) (spill_before X n)"
  "keeps (claims may dir_ok R) (add_row X k v n c)" "keeps (claims may dir_ok R) (spill_after X)"
  unfolding ensure_usable_def grow_buffer_def spill_before_def add_row_def spill_after_def
  by (auto intro!: lifts lift_spill lift_buffer_limit split: option.splits)

lemma lift_push: "keeps (claims may dir_ok R) (push_with_size X k v n)"
  unfolding push_with_size_def Let_def
  by (intro lifts lift_push_steps lift_reserve_metadata)

lemma lift_push_all: "push_all X xs s = (rs, s') \<Longrightarrow> claims may dir_ok R s s'"
proof (induction xs arbitrary: s rs)
  case Nil
  then show ?case by (simp add: lifted.refl)
next
  case (Cons x xs)
  obtain k v n where x: "x = (k, v, n)" by (cases x) auto
  obtain r s1 where push: "push_with_size X k v n s = (r, s1)" by (metis surj_pair)
  obtain rs' where "push_all X xs s1 = (rs', s')"
    using Cons.prems push x by (auto split: prod.splits)
  then show ?case
    using Cons.IH keepsD [OF lift_push push] by (blast intro: lifted.trans)
qed

lemma step_stream:
  assumes "\<And>p. p \<in> set runs \<Longrightarrow> may p" and "dir_ok d" and "guard_safe dir_ok g"
  shows "keeps R (cascade_and_stream X runs fan_in d g dedup hold)"
  unfolding cascade_and_stream_def
  using assms by (intro keeps_intros step_cascade step_state_open step_guard_drop dir_names)

lemma lift_stream_frontier: "keeps (claims may dir_ok R) (stream_frontier X fan)"
  unfolding stream_frontier_def
  by (auto intro!: lift_reading lifted.keeps_intros lift_updating lift_on_world step_stream
      owns_emptied intro: owns_parts)

lemma lift_merged: "keeps (claims may dir_ok R) (merged_stream X fan)"
  unfolding merged_stream_def
  by (auto intro!: lifts lift_spill lift_stream_frontier)

lemma lift_memory: "keeps (claims may dir_ok R) in_memory_stream"
  unfolding in_memory_stream_def Let_def
  by (auto intro!: lifts owns_parts(3) simp: guard_take_reservation_def owns_parts(2) split: prod.splits)

lemma session_drop_step: "owns may dir_ok (fst t) \<Longrightarrow> R (snd t) (session_drop X rt t)"
  by (cases t) (simp add: session_drop_def
      trans [OF trans [OF step_release_opt step_rows_drop] step_guard_drop [OF owns_parts(2)]])

lemma lift_finish: "finish X s = (r, w') \<Longrightarrow> owns may dir_ok (fst s) \<Longrightarrow> R (snd s) w'"
proof -
  let ?body = "and_then ensure_usable (\<lambda>_.
        and_then (updating (\<lambda>ss. ss\<lparr>ss_buffer := sort_rows (ss_buffer ss)\<rparr>)) (\<lambda>_.
        reading (\<lambda>ss.
          case ss_plan ss of
            InMemory \<Rightarrow> if ss_next_run ss = 0 then in_memory_stream else merged_stream X 2
          | External _ fan \<Rightarrow>
              if ss_next_run ss = 0 then in_memory_stream else merged_stream X (unat fan))))"
  have body: "keeps (claims may dir_ok R) ?body"
    by (intro lifted.keeps_attempt lift_push_steps lifts) (auto intro: lift_merged lift_memory lifted.refl split: sort_plan.splits)
  assume "finish X s = (r, w')" and own: "owns may dir_ok (fst s)"
  then obtain s' where "?body s = (r, s')" and w': "w' = session_drop X True s'"
    by (auto simp: finish_def split: prod.splits)
  then have "R (snd s) (snd s')" "owns may dir_ok (fst s')"
    using keepsD [OF body] own unfolding claims_def by blast+
  then show ?thesis
    using trans [OF _ session_drop_step] w' by blast
qed

text \<open>The stream a session hands out removes what the session would have removed.\<close>

lemma frontier_stream_safe:
  "stream_frontier X fan s = (Inr stream, s') \<Longrightarrow> owns may dir_ok (fst s) \<Longrightarrow> stream_safe dir_ok stream"
  by (cases s; cases s') (auto simp: stream_frontier_def cascade_and_stream_def act_ok stream_safe_def owns_parts(2))

lemma merged_stream_safe:
  assumes run: "merged_stream X fan s = (Inr stream, s')" and own: "owns may dir_ok (fst s)"
  shows "stream_safe dir_ok stream"
proof -
  obtain t where "owns may dir_ok (fst t)" "stream_frontier X fan t = (Inr stream, s')"
    using run own keepsD [OF lift_spill, of s]
    by (auto simp: merged_stream_def act_ok claims_def split: if_splits)
  then show ?thesis using frontier_stream_safe by blast
qed

lemma finish_safe:
  assumes run: "finish X s = (Inr stream, w')" and own: "owns may dir_ok (fst s)"
  shows "stream_safe dir_ok stream"
proof -
  obtain ss w where s: "s = (ss, w)" by fastforce
  let ?t = "(ss\<lparr>ss_buffer := sort_rows (ss_buffer ss)\<rparr>, w)"
  have own': "owns may dir_ok (fst ?t)" using own s by simp
  obtain s' fan where "(if ss_next_run ss = 0 then in_memory_stream else merged_stream X fan) ?t = (Inr stream, s')"
    using run unfolding s by (rule finish_cases)
  then show ?thesis
    using merged_stream_safe [OF _ own']
    by (auto simp: in_memory_stream_def Let_def act_ok stream_safe_def split: if_splits prod.splits)
qed

section \<open>The output\<close>

lemma step_memory_scan: "memory_stream_scan dedup prev rows w = (r, w') \<Longrightarrow> R w w'"
  by (induction dedup prev rows w rule: memory_stream_scan.induct)
    (auto simp: refl intro: step_row_drop step_release_opt trans [OF step_row_drop] split: if_splits)

lemma step_memory_drop: "R w (memory_stream_drop im w)"
  unfolding memory_stream_drop_def
  by (rule trans [OF trans [OF trans [OF step_rows_drop step_release_opt] step_release_opt] step_release_opt])

lemma step_memory_next: "keeps R (memory_stream_next im)"
  by (auto simp: keeps_def memory_stream_next_def split: prod.splits option.splits
      dest!: step_memory_scan intro: trans [OF _ step_memory_drop])

lemma step_stream_drop: "guard_safe dir_ok (vs_guard vs) \<Longrightarrow> R w (stream_drop X vs w)"
  by (auto simp: stream_drop_def step_guard_drop split: option.splits
      intro: trans [OF step_merge_drop step_guard_drop])

lemma step_stream_end:
  assumes safe: "guard_safe dir_ok (vs_guard vs)"
  shows "keeps R (stream_end X vs)"
proof (rule keepsI)
  fix w r w'
  assume run: "stream_end X vs w = (r, w')"
  obtain q g w1 where clean: "guard_cleanup X (vs_guard vs, w) = (q, g, w1)" by (metis surj_pair)
  note first = step_cleanup [OF safe clean]
  have "guard_safe dir_ok g" by (rule guard_cleanup_dir [OF clean safe])
  then show "R w w'"
    using run clean first
    by (auto simp: stream_end_def split: sum.splits fault.splits option.splits
        intro: trans [OF first step_stream_drop] trans [OF first step_merge_drop])
qed

lemma step_value_next:
  assumes safe: "guard_safe dir_ok (vs_guard vs)"
  shows "keeps R (value_stream_next X vs)"
proof (rule keepsI)
  fix w r w'
  assume poll: "value_stream_next X vs w = (r, w')"
  show "R w w'"
  proof (cases "vs_state vs")
    case None
    then show ?thesis
      using poll keepsD [OF step_stream_end [OF safe]]
      by (auto simp: value_stream_next_def step_stream_drop [OF safe] split: if_splits)
  next
    case (Some st)
    obtain q st' w1 where run: "merge_next X (st, w) = (q, st', w1)" by (metis surj_pair)
    have w1: "R w w1" using step_merge_next [of "(st, w)"] run by simp
    have drop: "R w1 (stream_drop X (vs\<lparr>vs_state := Some st'\<rparr>) w1)"
      using step_stream_drop [of "vs\<lparr>vs_state := Some st'\<rparr>"] safe by simp
    have fin: "keeps R (stream_end X (vs\<lparr>vs_state := Some st'\<rparr>))"
      using step_stream_end [of "vs\<lparr>vs_state := Some st'\<rparr>"] safe by simp
    show ?thesis
      using poll Some run
      by (auto simp: value_stream_next_def split: sum.splits option.splits fault.splits
          intro: trans [OF w1 drop] trans [OF w1 step_merge_drop] trans [OF w1 step_row_drop]
          trans [OF w1 keepsD [OF fin]])
  qed
qed

lemma step_drain_memory: "drain_memory im w = (out, w') \<Longrightarrow> R w w'"
proof (induction im w arbitrary: out rule: drain_memory.induct)
  case (1 im w)
  obtain r w1 where poll: "memory_stream_next im w = (r, w1)" by (metis surj_pair)
  note b = keepsD [OF step_memory_next poll]
  show ?case
  proof (cases "\<exists>i im'. r = Inr (Yielded i im')")
    case False
    then show ?thesis
      using 1(2) poll b
      by (subst (asm) drain_memory.simps) (auto split: sum.splits pulled.splits)
  next
    case True
    then obtain i im' where r: "r = Inr (Yielded i im')" by blast
    obtain later e where more: "drain_memory im' w1 = ((later, e), w')"
      using 1(2) poll r by (subst (asm) drain_memory.simps) (auto split: prod.splits)
    show ?thesis
      by (rule trans [OF b 1(1) [OF poll [symmetric] r HOL.refl more]])
  qed
qed

lemma step_drain: "drain X vs w = (out, w') \<Longrightarrow> guard_safe dir_ok (vs_guard vs) \<Longrightarrow> R w w'"
proof -
  have "Y = X \<Longrightarrow> drain Y vs w = (out, w') \<Longrightarrow> guard_safe dir_ok (vs_guard vs) \<Longrightarrow> R w w'" for Y
  proof (induction Y vs w arbitrary: out rule: drain.induct)
    case (1 Y vs w)
    obtain r w1 where poll: "value_stream_next Y vs w = (r, w1)" by (metis surj_pair)
    note b = keepsD [OF step_value_next [OF 1(4)] poll [unfolded 1(2)]]
    show ?case
    proof (cases "\<exists>i vs'. r = Inr (Yielded i vs')")
      case False
      then show ?thesis
        using 1(3) poll b
        by (subst (asm) drain.simps) (auto split: sum.splits pulled.splits)
    next
      case True
      then obtain i vs' where r: "r = Inr (Yielded i vs')" by blast
      obtain later e where more: "drain Y vs' w1 = ((later, e), w')"
        using 1(3) poll r by (subst (asm) drain.simps) (auto split: prod.splits)
      show ?thesis
        by (rule trans [OF b 1(1) [OF poll [symmetric] r HOL.refl 1(2) more value_next_guard [OF poll [unfolded r] 1(4)]]])
    qed
  qed
  then show "drain X vs w = (out, w') \<Longrightarrow> guard_safe dir_ok (vs_guard vs) \<Longrightarrow> R w w'" by blast
qed

lemma step_drain_sort: "drain_sort X stream w = (out, w') \<Longrightarrow> stream_safe dir_ok stream \<Longrightarrow> R w w'"
  by (auto simp: drain_sort_def stream_safe_def split: sort_stream.splits dest: step_drain step_drain_memory)

end

interpretation cap_session: session_engine within_cap X "\<lambda>_. True" "\<lambda>_. True" for X :: "('fs, 'h, 'k::linorder, 'v) ext"
  by unfold_locales
    (auto intro: limit_now_frames perform_within_cap io_within_cap cap.refl
      conjunct1 [OF guard_cleanup_frames] conjunct1 [OF guard_drop_frames])

interpretation permit_session: session_engine same_permits X "\<lambda>_. True" "\<lambda>_. True" for X :: "('fs, 'h, 'k::linorder, 'v) ext"
  by unfold_locales
    (auto intro: keeps_weaken [OF limit_now_frames(1) same_permitsI] perform_same_permits io_same_permits
      permits.refl conjunct2 [OF guard_cleanup_frames] conjunct2 [OF guard_drop_frames])

lemma owns_all [simp]: "owns (\<lambda>_. True) (\<lambda>_. True) ss" "guard_safe (\<lambda>_. True) g"
  "stream_safe (\<lambda>_. True) stream"
  by (simp_all add: owns_def guard_safe_def stream_safe_def split: sort_stream.split)

lemma sort_limits:
  assumes "push_all X xs (ss, w0) = (rs, s1)"
    and "finish X s1 = (r, w2)"
    and "budget_peak (w_budget w0) \<le> budget_cap (w_budget w0)"
  shows "let w3 = (case r of Inl _ \<Rightarrow> w2 | Inr stream \<Rightarrow> snd (drain_sort X stream w2))
    in budget_cap (w_budget w3) = budget_cap (w_budget w0)
      \<and> budget_peak (w_budget w3) \<le> budget_cap (w_budget w0)
      \<and> w_permits w3 = w_permits w0 \<and> w_pending w3 = w_pending w0"
proof -
  have "within_cap w0 w2" "same_permits w0 w2"
    using cap_session.lift_push_all [OF assms(1)] cap_session.lift_finish [OF assms(2)]
      permit_session.lift_push_all [OF assms(1)] permit_session.lift_finish [OF assms(2)]
    by (simp_all add: claims_def) (blast intro: cap.trans permits.trans)+
  moreover have "within_cap w2 (snd (drain_sort X stream w2))" "same_permits w2 (snd (drain_sort X stream w2))" for stream
    using cap_session.step_drain_sort [of X stream w2] permit_session.step_drain_sort [of X stream w2]
    by (simp_all add: prod_eq_iff)
  ultimately have "within_cap w0 (case r of Inl _ \<Rightarrow> w2 | Inr stream \<Rightarrow> snd (drain_sort X stream w2))"
    "same_permits w0 (case r of Inl _ \<Rightarrow> w2 | Inr stream \<Rightarrow> snd (drain_sort X stream w2))"
    by (auto split: sum.splits intro: cap.trans permits.trans)
  then show ?thesis
    using assms(3) by (auto simp: Let_def within_cap_def same_permits_def)
qed


end
