(* ===== verification/SessionCalm.thy ===== *)
theory SessionCalm
  imports SessionSpec SortOutput
begin

text \<open>
  No assertion, \<open>expect\<close>, \<open>unreachable!\<close> or index of the session and its output fires
  (src/engine/session.rs, src/engine/session/buffer.rs, src/engine/merge.rs,
  src/engine/cleanup.rs), as long as the allocator gives \<open>with_capacity\<close> and
  \<open>reserve_exact\<close> the capacity they ask for, which the code asserts.
\<close>

section \<open>Triples over the session part\<close>

text \<open>
  From a session with \<open>P\<close>, \<open>m\<close> does not panic; it returns \<open>x\<close> with \<open>Q x\<close> of the session, or
  fails with \<open>E\<close> of it.
\<close>

definition upholds ::
    "('s \<Rightarrow> bool) \<Rightarrow> ('s \<times> 'w, 'a) act \<Rightarrow> ('a \<Rightarrow> 's \<Rightarrow> bool) \<Rightarrow> ('s \<Rightarrow> bool) \<Rightarrow> bool" where
  "upholds P m Q E \<longleftrightarrow>
     (\<forall>s r t. P (fst s) \<longrightarrow> m s = (r, t) \<longrightarrow>
       (case r of Inl e \<Rightarrow> (\<forall>p. e \<noteq> Panic p) \<and> E (fst t) | Inr x \<Rightarrow> Q x (fst t)))"

lemma upholdsI:
  assumes "\<And>s e t. P (fst s) \<Longrightarrow> m s = (Inl e, t) \<Longrightarrow> (\<forall>p. e \<noteq> Panic p) \<and> E (fst t)"
    and "\<And>s x t. P (fst s) \<Longrightarrow> m s = (Inr x, t) \<Longrightarrow> Q x (fst t)"
  shows "upholds P m Q E"
  unfolding upholds_def
proof (intro allI impI)
  fix s r t
  assume "P (fst s)" "m s = (r, t)"
  then show "case r of Inl e \<Rightarrow> (\<forall>p. e \<noteq> Panic p) \<and> E (fst t) | Inr x \<Rightarrow> Q x (fst t)"
    using assms(1) [of s _ t] assms(2) [of s _ t] by (cases r) simp_all
qed

lemma upholds_fault:
  "upholds P m Q E \<Longrightarrow> P (fst s) \<Longrightarrow> m s = (Inl e, t) \<Longrightarrow> (\<forall>p. e \<noteq> Panic p) \<and> E (fst t)"
  unfolding upholds_def
  by (drule spec [of _ s], drule spec [of _ "Inl e"], drule spec [of _ t]) simp

lemma upholds_value: "upholds P m Q E \<Longrightarrow> P (fst s) \<Longrightarrow> m s = (Inr x, t) \<Longrightarrow> Q x (fst t)"
  unfolding upholds_def
  by (drule spec [of _ s], drule spec [of _ "Inr x"], drule spec [of _ t]) simp

lemma upholds_weaken:
  "upholds P m Q E \<Longrightarrow> (\<And>s. P' s \<Longrightarrow> P s) \<Longrightarrow> (\<And>x s. Q x s \<Longrightarrow> Q' x s) \<Longrightarrow> (\<And>s. E s \<Longrightarrow> E' s)
    \<Longrightarrow> upholds P' m Q' E'"
  unfolding upholds_def by (fastforce split: sum.splits)

lemma upholds_ret: "(\<And>s. P s \<Longrightarrow> Q x s) \<Longrightarrow> upholds P (ret x) Q E"
  by (rule upholdsI) (auto simp: ret_def)

lemma upholds_raise: "(\<And>s. P s \<Longrightarrow> E s) \<Longrightarrow> upholds P (fail (Raise e)) Q E"
  by (rule upholdsI) (auto simp: fail_def)

lemma upholds_ok_or: "(\<And>s. P s \<Longrightarrow> E s) \<Longrightarrow> (\<And>x s. P s \<Longrightarrow> v = Some x \<Longrightarrow> Q x s) \<Longrightarrow>
    upholds P (ok_or (Raise e) v) Q E"
  by (auto simp: ok_or_def intro: upholds_ret upholds_raise split: option.splits)

lemma upholds_updating: "(\<And>s. P s \<Longrightarrow> Q () (g s)) \<Longrightarrow> upholds P (updating g) Q E"
  by (rule upholdsI) (auto simp: updating_def modify_def split: prod.splits)

lemma upholds_on_world:
  assumes "calm m" and "\<And>s. P s \<Longrightarrow> E s" and "\<And>x s. P s \<Longrightarrow> Q x s"
  shows "upholds P (on_world m) Q E"
  using assms(2,3) calmD [OF assms(1)]
  by (intro upholdsI) (auto simp: on_world_def split: prod.splits)

lemma upholds_reading:
  "(\<And>ss. P ss \<Longrightarrow> upholds (\<lambda>s. s = ss) (f ss) Q E) \<Longrightarrow> upholds P (reading f) Q E"
  by (rule upholdsI) (auto dest: upholds_fault upholds_value)

text \<open>Where what was read is not needed, the precondition can stay as it is.\<close>

lemma upholds_read: "(\<And>ss. upholds P (f ss) Q E) \<Longrightarrow> upholds P (reading f) Q E"
  by (rule upholdsI) (auto dest: upholds_fault upholds_value)

lemma upholds_attempt:
  assumes m: "upholds P m Q E" and f: "\<And>x. upholds (Q x) (f x) S E" and d: "\<And>s. fst (d s) = fst s"
  shows "upholds P (attempt d m f) S E"
  unfolding upholds_def
proof (intro allI impI)
  fix s r t
  assume P: "P (fst s)" and run: "attempt d m f s = (r, t)"
  obtain q u where step: "m s = (q, u)" by (metis surj_pair)
  show "case r of Inl e \<Rightarrow> (\<forall>p. e \<noteq> Panic p) \<and> E (fst t) | Inr x \<Rightarrow> S x (fst t)"
  proof (cases q)
    case (Inl e)
    then show ?thesis
      using run step upholds_fault [OF m P, of e u] d [of u] by (auto simp: attempt_def)
  next
    case (Inr x)
    then have "f x u = (r, t)" and "Q x (fst u)"
      using run step upholds_value [OF m P] by (auto simp: attempt_def)
    then show ?thesis
      using upholds_fault [OF f] upholds_value [OF f] by (auto split: sum.splits)
  qed
qed

section \<open>The invariant\<close>

definition usable :: "('k, 'v) session \<Rightarrow> bool" where
  "usable ss \<longleftrightarrow>
     length (ss_spills ss) = 64 \<and> counter_value (ss_spills ss) = unat (ss_next_run ss) \<and> \<not> ss_failed ss"

definition guarded :: "('k, 'v) session \<Rightarrow> bool" where
  "guarded ss \<longleftrightarrow>
     cg_fds (ss_cleanup ss)
     \<and> (\<not> ss_metadata_reserved ss \<longrightarrow> cg_reservation (ss_cleanup ss) = None)"

definition session_ok :: "('k, 'v) session \<Rightarrow> bool" where
  "session_ok ss \<longleftrightarrow> guarded ss \<and> (ss_failed ss \<or> usable ss)"

lemma counter_value_bound: "counter_value slots < 2 ^ length slots"
  by (induction slots) auto

text \<open>A run is carried past every occupied level; it stops short of the last unless all are taken.\<close>

lemma carry_counter:
  assumes exact: "\<And>n. vec_capacity X n = n"
  shows "carry X ordinal [l..<l + length slots] run s = (r, s') \<Longrightarrow>
    ss_spills (fst s) = replicate l None @ slots \<Longrightarrow> counter_value slots + 1 < 2 ^ length slots \<Longrightarrow>
    (\<forall>p. r \<noteq> Inl (Panic p)) \<and>
    (\<exists>slots' failed. fst s' = (fst s)\<lparr>ss_spills := slots', ss_failed := failed\<rparr> \<and>
      (r = Inr () \<longrightarrow> \<not> failed \<and> length slots' = l + length slots
        \<and> counter_value slots' = 2 ^ l * (counter_value slots + 1)) \<and>
      (r \<noteq> Inr () \<longrightarrow> failed = ss_failed (fst s)))"
proof (induction slots arbitrary: l run s)
  case Nil
  then show ?case by simp
next
  case (Cons slot slots)
  obtain ss w where s: "s = (ss, w)" by fastforce
  have levels: "[l..<l + length (slot # slots)] = l # [Suc l..<Suc l + length slots]"
    by (subst upt_conv_Cons) simp_all
  have slot: "ss_spills ss ! l = slot"
    using Cons.prems(2) s by (simp add: nth_append)
  have update: "(ss_spills ss)[l := x] = replicate l None @ x # slots" for x
    using Cons.prems(2) s by (simp add: list_update_append)
  note run = Cons.prems(1) [unfolded levels carry.simps reading_eq, unfolded s fst_conv slot]
  show ?case
  proof (cases slot)
    case None
    have "fst s' = ss\<lparr>ss_spills := replicate l None @ Some run # slots, ss_failed := False\<rparr>" "r = Inr ()"
      using run None by (auto simp: updating_def modify_def update)
    then show ?thesis
      using None s by (auto intro!: exI [of _ "replicate l None @ Some run # slots"])
  next
    case (Some older)
    let ?out = "join (ss_dir ss) (carry_name ordinal l)"
    let ?ss = "ss\<lparr>ss_spills := replicate (Suc l) None @ slots\<rparr>"
    have empty: "replicate l None @ None # slots = replicate (Suc l) None @ slots"
      by (simp add: replicate_app_Cons_same)
    obtain q w1 where merge: "merge_group_to_file X [older, run] ?out False w = (q, w1)"
      by (metis surj_pair)
    show ?thesis
    proof (cases q)
      case (Inl e)
      then have "r = Inl e" "fst s' = ?ss"
        using run Some merge by (auto simp: attempt_def updating_def modify_def on_world_def update empty)
      then show ?thesis
        using calmD [OF calm_merge_group [OF exact] merge [unfolded Inl]] s
        by (auto intro!: exI [of _ "replicate (Suc l) None @ slots"] exI [of _ "ss_failed ss"])
    next
      case (Inr merged)
      then have more: "carry X ordinal [Suc l..<Suc l + length slots] merged (?ss, w1) = (r, s')"
        using run Some merge by (auto simp: attempt_def updating_def modify_def on_world_def update empty)
      have room: "counter_value slots + 1 < 2 ^ length slots"
        using Cons.prems(3) Some by simp
      show ?thesis
        using Cons.IH [OF more _ room] Some s by (auto simp: algebra_simps)
    qed
  qed
qed

lemma calm_write_rows: "calm (write_rows X wr rows)"
  by (induction rows arbitrary: wr) (auto intro!: calm_rules calm_runs)

text \<open>What a spill knows between its marks: the counter is one short of the run count.\<close>

definition spilling :: "('k, 'v) session \<Rightarrow> bool" where
  "spilling ss \<longleftrightarrow> guarded ss \<and> ss_failed ss \<and> length (ss_spills ss) = 64
     \<and> counter_value (ss_spills ss) + 1 = unat (ss_next_run ss)"

lemma upholds_carry:
  fixes X :: "('fs, 'h, 'k::linorder, 'v) ext"
  assumes exact: "\<And>n. vec_capacity X n = n"
  shows "upholds spilling (carry X ordinal [0..<64] run) (\<lambda>_ ss. guarded ss \<and> usable ss) session_ok"
proof -
  have step: "(\<forall>p. r \<noteq> Inl (Panic p)) \<and> (case r of Inl _ \<Rightarrow> session_ok (fst t) | Inr _ \<Rightarrow> guarded (fst t) \<and> usable (fst t))"
    if pre: "spilling (fst s)" and run: "carry X ordinal [0..<64] run s = (r, t)"
    for s t :: "('k, 'v) session \<times> 'fs world" and r
  proof -
    have len: "length (ss_spills (fst s)) = 64"
      and less: "counter_value (ss_spills (fst s)) + 1 < 2 ^ length (ss_spills (fst s))"
      using pre unat_u64 [of "ss_next_run (fst s)"] by (simp_all add: spilling_def)
    have "carry X ordinal [0..<0 + length (ss_spills (fst s))] run s = (r, t)"
      using run len by simp
    from carry_counter [OF exact this _ less] obtain slots failed where
      "\<forall>p. r \<noteq> Inl (Panic p)" "fst t = (fst s)\<lparr>ss_spills := slots, ss_failed := failed\<rparr>"
      "r = Inr () \<longrightarrow> \<not> failed \<and> length slots = 64 \<and> counter_value slots = counter_value (ss_spills (fst s)) + 1"
      "r \<noteq> Inr () \<longrightarrow> failed = ss_failed (fst s)"
      using len by auto
    then show ?thesis
      using pre by (cases r) (auto simp: session_ok_def guarded_def usable_def spilling_def)
  qed
  then show ?thesis
    by (intro upholdsI) fastforce+
qed

lemma upholds_spill:
  fixes X :: "('fs, 'h, 'k::linorder, 'v) ext"
  assumes exact: "\<And>n. vec_capacity X n = n"
  shows "upholds (\<lambda>ss. guarded ss \<and> usable ss) (spill X) (\<lambda>_ ss. guarded ss \<and> usable ss) session_ok"
proof -
  have world: "upholds spilling (on_world m) (\<lambda>_. spilling) session_ok" if "calm m"
    for m :: "('fs world, 'x) act"
    using that by (rule upholds_on_world) (auto simp: spilling_def session_ok_def)
  have clear: "upholds spilling clear_buffer (\<lambda>_. spilling) session_ok"
    by (rule upholdsI) (auto simp: clear_buffer_def modify_def spilling_def guarded_def split: prod.splits)
  have rows: "upholds spilling (reading (\<lambda>ss. on_world (write_rows X wr (ss_buffer ss)))) (\<lambda>_. spilling) session_ok" for wr
    by (intro upholds_reading upholds_weaken [OF world [OF calm_write_rows]]) auto
  have body: "upholds spilling (spill_run X n dir) (\<lambda>_ ss. guarded ss \<and> usable ss) session_ok" for n dir
    unfolding spill_run_def
    by (rule upholds_attempt [OF world [OF calm_perform]] upholds_attempt [OF world [OF calm_runs(1)]]
        upholds_attempt [OF rows] upholds_attempt [OF world [OF calm_runs(3)]] upholds_attempt [OF clear]
        upholds_carry [OF exact] HOL.refl)+
  show ?thesis
    unfolding spill_def Let_def
  proof (intro upholds_reading)
    fix ss :: "('k, 'v) session"
    assume ok: "guarded ss \<and> usable ss"
    let ?marked = "\<lambda>s. s = ss\<lparr>ss_failed := True\<rparr>"
    have failed: "session_ok (ss\<lparr>ss_failed := True\<rparr>)"
      using ok by (simp add: session_ok_def guarded_def)
    have step: "spilling (ss\<lparr>ss_failed := True, ss_next_run := n, ss_buffer := b,
        ss_cleanup := guard_arm d (ss_cleanup ss)\<rparr>)"
      if "checked_add (ss_next_run ss) 1 = Some n" for n b d
      using ok that by (simp add: spilling_def guarded_def usable_def word_facts)
    show "upholds (\<lambda>s. s = ss)
        (if ss_buffer ss = [] then ret ()
         else and_then (updating (\<lambda>ss. ss\<lparr>ss_failed := True\<rparr>)) (\<lambda>_.
           and_then (ok_or (Raise RunLimit) (checked_add (ss_next_run ss) 1)) (\<lambda>n.
           and_then (updating (\<lambda>ss. ss\<lparr>ss_next_run := n, ss_buffer := sort_rows (ss_buffer ss),
               ss_cleanup := guard_arm (ss_dir ss) (ss_cleanup ss)\<rparr>)) (\<lambda>_.
           spill_run X (ss_next_run ss) (ss_dir ss)))))
        (\<lambda>_ ss. guarded ss \<and> usable ss) session_ok"
    proof (cases "ss_buffer ss = []")
      case True
      then show ?thesis using ok by (auto intro: upholds_ret)
    next
      case False
      have "upholds ?marked (ok_or (Raise RunLimit) (checked_add (ss_next_run ss) 1))
          (\<lambda>n s. ?marked s \<and> checked_add (ss_next_run ss) 1 = Some n) session_ok"
        by (rule upholds_ok_or) (auto simp: failed)
      moreover have "upholds (\<lambda>s. ?marked s \<and> checked_add (ss_next_run ss) 1 = Some n)
          (updating (\<lambda>ss. ss\<lparr>ss_next_run := n, ss_buffer := sort_rows (ss_buffer ss),
             ss_cleanup := guard_arm (ss_dir ss) (ss_cleanup ss)\<rparr>)) (\<lambda>_. spilling) session_ok" for n
        by (rule upholds_updating) (auto simp: step)
      moreover have "upholds (\<lambda>s. s = ss) (updating (\<lambda>ss. ss\<lparr>ss_failed := True\<rparr>)) (\<lambda>_. ?marked) session_ok"
        by (rule upholds_updating) simp
      ultimately show ?thesis
        using False by (auto intro!: upholds_attempt body)
    qed
  qed
qed

section \<open>Pushing\<close>

text \<open>Steps that touch neither the counter nor the guard.\<close>

lemma upholds_ensure_usable:
  "upholds session_ok ensure_usable (\<lambda>_ ss. guarded ss \<and> usable ss) session_ok"
  unfolding ensure_usable_def
  by (rule upholds_reading)
    (auto simp: session_ok_def usable_def intro!: upholds_raise upholds_ret)

lemma upholds_buffer_limit:
  "(\<And>ss. P ss \<Longrightarrow> session_ok ss) \<Longrightarrow> upholds P buffer_limit (\<lambda>_. P) session_ok"
  unfolding buffer_limit_def Let_def
  by (intro upholds_reading upholds_attempt [OF upholds_on_world [OF calm_limit_now, where Q = "\<lambda>_. P"]]
      upholds_ret) auto

lemma upholds_reserve_metadata:
  "upholds (\<lambda>ss. guarded ss \<and> usable ss) (reserve_metadata X) (\<lambda>_ ss. guarded ss \<and> usable ss) session_ok"
  unfolding reserve_metadata_def
proof (rule upholds_reading)
  fix ss :: "('a, 'b) session"
  assume ok: "guarded ss \<and> usable ss"
  have same: "upholds (\<lambda>s. s = ss) (ok_or (Raise e) v) (\<lambda>_ s. s = ss) session_ok"
    for e and v :: "'x option"
    by (rule upholds_ok_or) (use ok in \<open>auto simp: session_ok_def\<close>)
  have res: "upholds (\<lambda>s. s = ss) (on_world (reserve n)) (\<lambda>_ s. s = ss) session_ok" for n
    by (rule upholds_on_world [OF calm_reserve]) (use ok in \<open>auto simp: session_ok_def\<close>)
  have store: "upholds (\<lambda>s. s = ss) (case guard_retain c (ss_cleanup ss) of
       Inl e \<Rightarrow> bail (drop_charge c) e
     | Inr g \<Rightarrow> updating (\<lambda>ss. ss\<lparr>ss_cleanup := g, ss_metadata_reserved := True\<rparr>))
     (\<lambda>_ ss. guarded ss \<and> usable ss) session_ok" if "\<not> ss_metadata_reserved ss" for c
    using ok that
    by (auto simp: guard_retain_def guarded_def usable_def intro!: upholds_updating)
  show "upholds (\<lambda>s. s = ss)
     (if ss_metadata_reserved ss then ret ()
      else and_then (ok_or (Raise RunLimit) (checked_add (path_capacity X (ss_dir ss)) 128)) (\<lambda>path_bytes.
       and_then (ok_or (Raise RunLimit) (Option.bind (checked_mul path_bytes 256)
         (\<lambda>n. checked_add n (size_of_session X)))) (\<lambda>bytes.
       and_then (on_world (reserve bytes)) (\<lambda>c.
       case guard_retain c (ss_cleanup ss) of
         Inl e \<Rightarrow> bail (drop_charge c) e
       | Inr g \<Rightarrow> updating (\<lambda>ss. ss\<lparr>ss_cleanup := g, ss_metadata_reserved := True\<rparr>)))))
     (\<lambda>_ ss. guarded ss \<and> usable ss) session_ok"
  proof (cases "ss_metadata_reserved ss")
    case True
    then show ?thesis using ok by (auto intro: upholds_ret)
  next
    case False
    show ?thesis
      unfolding if_not_P [OF False]
      by (intro upholds_attempt [OF same] upholds_attempt [OF res] store False HOL.refl)
  qed
qed

text \<open>The states between the steps of a push, and the steps that keep to them.\<close>

definition ready :: "('k, 'v) session \<Rightarrow> bool" where
  "ready ss \<longleftrightarrow> guarded ss \<and> usable ss"

lemma ready_ok: "ready ss \<Longrightarrow> session_ok ss"
  by (simp add: ready_def session_ok_def)

lemma ready_or_raise: "upholds ready (ok_or (Raise e) v) (\<lambda>_. ready) session_ok"
  by (rule upholds_ok_or) (simp_all add: ready_ok)

lemma ready_ret: "upholds ready (ret x) (\<lambda>_. ready) session_ok"
  by (simp add: upholds_ret)

lemma ready_on_world: "calm m \<Longrightarrow> upholds ready (on_world m) (\<lambda>_. ready) session_ok"
  by (rule upholds_on_world) (simp_all add: ready_ok)

lemma ready_updating:
  assumes "\<And>s. ss_spills (g s) = ss_spills s" "\<And>s. ss_next_run (g s) = ss_next_run s"
    and "\<And>s. ss_failed (g s) = ss_failed s" "\<And>s. ss_cleanup (g s) = ss_cleanup s"
    and "\<And>s. ss_metadata_reserved (g s) = ss_metadata_reserved s"
  shows "upholds ready (updating g) (\<lambda>_. ready) session_ok"
  by (rule upholds_updating) (simp add: ready_def guarded_def usable_def assms)

lemma fst_drop [simp]: "fst (drop_charge c s) = fst s"
  by (cases s) (simp add: drop_charge_def)

lemma ready_attempt:
  assumes "upholds ready m (\<lambda>_. ready) session_ok" and "\<And>x. upholds ready (f x) (\<lambda>_. ready) session_ok"
    and "\<And>s. fst (d s) = fst s"
  shows "upholds ready (attempt d m f) (\<lambda>_. ready) session_ok"
  using assms by (rule upholds_attempt)

lemmas ready_steps =
  ready_or_raise ready_ret ready_on_world ready_updating ready_attempt fst_drop upholds_read
  calm_reserve calm_modify

lemma ready_push_steps:
  "upholds session_ok ensure_usable (\<lambda>_. ready) session_ok"
  "upholds ready (reserve_metadata X) (\<lambda>_. ready) session_ok"
  "upholds ready buffer_limit (\<lambda>_. ready) session_ok"
  using upholds_ensure_usable upholds_reserve_metadata [of X] upholds_buffer_limit [OF ready_ok]
  by (simp_all add: ready_def [abs_def])

lemma ready_grow_buffer:
  assumes exact: "\<And>n. vec_capacity X n = n"
  shows "upholds ready (grow_buffer X) (\<lambda>_. ready) session_ok"
  unfolding grow_buffer_def by (auto simp: exact intro!: ready_steps)

lemma ready_add_row: "upholds ready (add_row X k v b c) (\<lambda>_. ready) session_ok"
  unfolding add_row_def by (intro ready_steps) simp_all

lemma ready_spills:
  assumes exact: "\<And>n. vec_capacity X n = n"
  shows "upholds ready (spill X) (\<lambda>_. ready) session_ok"
    and "upholds ready (spill_before X b) (\<lambda>_. ready) session_ok"
    and "upholds ready (spill_after X) (\<lambda>_. ready) session_ok"
proof -
  show s: "upholds ready (spill X) (\<lambda>_. ready) session_ok"
    using upholds_spill [OF exact] by (simp add: ready_def [abs_def])
  have if_spill: "upholds ready (if c then spill X else ret ()) (\<lambda>_. ready) session_ok" for c
    using s by (simp add: ready_ret)
  show "upholds ready (spill_before X b) (\<lambda>_. ready) session_ok"
    unfolding spill_before_def
    by (auto intro!: upholds_read ready_ret s if_spill upholds_attempt [OF ready_push_steps(3)] split: option.splits)
  show "upholds ready (spill_after X) (\<lambda>_. ready) session_ok"
    unfolding spill_after_def
    by (intro upholds_attempt [OF ready_push_steps(3)] upholds_read if_spill HOL.refl)
qed

lemma upholds_push:
  assumes exact: "\<And>n. vec_capacity X n = n"
  shows "upholds session_ok (push_with_size X k v n) (\<lambda>_. ready) session_ok"
  unfolding push_with_size_def Let_def
  by (intro upholds_attempt [OF ready_push_steps(1)] upholds_attempt [OF ready_push_steps(2)]
      upholds_attempt [OF ready_on_world [OF calm_reserve]] upholds_attempt [OF ready_spills(2) [OF exact]]
      upholds_attempt [OF ready_grow_buffer [OF exact]] upholds_attempt [OF ready_add_row]
      ready_spills(3) [OF exact] fst_drop HOL.refl)

lemma push_all_calm:
  assumes exact: "\<And>n. vec_capacity X n = n"
  shows "push_all X xs s = (rs, s') \<Longrightarrow> session_ok (fst s) \<Longrightarrow>
    session_ok (fst s') \<and> (\<forall>p. Inl (Panic p) \<notin> set rs)"
proof (induction xs arbitrary: s rs)
  case Nil
  then show ?case by simp
next
  case (Cons x xs)
  obtain k v n where x: "x = (k, v, n)" by (cases x) auto
  obtain r s1 where push: "push_with_size X k v n s = (r, s1)" by (metis surj_pair)
  obtain rs' where rest: "push_all X xs s1 = (rs', s')" "rs = r # rs'"
    using Cons.prems push x by (auto split: prod.splits)
  have "session_ok (fst s1) \<and> (\<forall>p. r \<noteq> Inl (Panic p))"
    using push upholds_fault [OF upholds_push [OF exact] Cons.prems(2), of k v n _ s1]
      ready_ok [OF upholds_value [OF upholds_push [OF exact] Cons.prems(2), of k v n _ s1]]
    by (cases r) simp_all
  then show ?case
    using Cons.IH rest by auto
qed

section \<open>Finishing and reading\<close>

definition stream_ok :: "('k, 'v) sort_stream \<Rightarrow> bool" where
  "stream_ok stream \<longleftrightarrow>
     (case stream of
        Buffered _ \<Rightarrow> True
      | Merging vs \<Rightarrow> cg_fds (vs_guard vs) \<and> (\<forall>st. vs_state vs = Some st \<longrightarrow> heap_ok st))"

lemma cascade_and_stream_calm:
  assumes exact: "\<And>n. vec_capacity X n = n" and guard: "cg_fds g"
    and run: "cascade_and_stream X runs fan_in dir g dedup hold w = (r, w')"
  shows "(\<forall>p. r \<noteq> Inl (Panic p)) \<and> (\<forall>vs. r = Inr vs \<longrightarrow> stream_ok (Merging vs))"
proof -
  obtain q w1 where passes: "cascade X fan_in dir 0 runs w = (q, w1)" by (metis surj_pair)
  show ?thesis
  proof (cases q)
    case (Inl e)
    then show ?thesis
      using run passes calmD [OF calm_cascade [OF exact] passes [unfolded Inl]]
      by (auto simp: cascade_and_stream_def attempt_def)
  next
    case (Inr runs')
    obtain a w2 where opened: "merge_state_open X runs' dedup w1 = (a, w2)" by (metis surj_pair)
    show ?thesis
      using run passes Inr opened merge_state_open_calm [OF exact opened] guard
      by (cases a) (auto simp: cascade_and_stream_def attempt_def ret_def stream_ok_def)
  qed
qed

lemma upholds_stream_frontier:
  assumes exact: "\<And>n. vec_capacity X n = n"
  shows "upholds ready (stream_frontier X fan_in) (\<lambda>stream _. stream_ok stream) (\<lambda>_. True)"
  unfolding upholds_def
proof (intro allI impI)
  fix s r t
  assume ok: "ready (fst s)" and run: "stream_frontier X fan_in s = (r, t)"
  obtain ss w where s: "s = (ss, w)" by fastforce
  obtain q w1 where cs: "cascade_and_stream X (frontier (ss_spills ss)) (max fan_in 2) (ss_dir ss)
      (ss_cleanup ss) (ss_dedup ss) (ss_hold ss) w = (q, w1)" by (metis surj_pair)
  have "cg_fds (ss_cleanup ss)" using ok s by (simp add: ready_def guarded_def)
  note b = cascade_and_stream_calm [OF exact this cs]
  have "r = map_sum (\<lambda>e. e) Merging q"
    using run cs by (cases q) (auto simp: stream_frontier_def s attempt_def updating_def modify_def on_world_def ret_def)
  then show "case r of Inl e \<Rightarrow> (\<forall>p. e \<noteq> Panic p) \<and> True | Inr x \<Rightarrow> stream_ok x"
    using b by (cases q) auto
qed

lemma finish_calm:
  assumes exact: "\<And>n. vec_capacity X n = n" and ok: "session_ok (fst s)"
    and run: "finish X s = (r, w')"
  shows "(\<forall>p. r \<noteq> Inl (Panic p)) \<and> (\<forall>stream. r = Inr stream \<longrightarrow> stream_ok stream)"
proof -
  let ?Q = "\<lambda>stream _. stream_ok stream" and ?E = "\<lambda>_. True"
  have spill: "upholds ready (spill X) (\<lambda>_. ready) ?E"
    by (rule upholds_weaken [OF ready_spills(1) [OF exact]]) simp_all
  have merged: "upholds ready (merged_stream X fan) ?Q ?E" for fan
    unfolding merged_stream_def
    by (rule upholds_attempt [OF _ upholds_stream_frontier [OF exact]])
      (auto intro!: upholds_read spill upholds_ret)
  have memory: "upholds ready in_memory_stream ?Q ?E"
    by (rule upholdsI)
      (auto simp: in_memory_stream_def Let_def attempt_def updating_def modify_def ret_def
        guard_take_reservation_def stream_ok_def split: prod.splits)
  have usable: "upholds session_ok ensure_usable (\<lambda>_. ready) ?E"
    by (rule upholds_weaken [OF ready_push_steps(1)]) simp_all
  have sorted: "upholds ready (updating (\<lambda>ss. ss\<lparr>ss_buffer := sort_rows (ss_buffer ss)\<rparr>)) (\<lambda>_. ready) ?E"
    by (rule upholds_weaken [OF ready_updating]) simp_all
  let ?body = "and_then ensure_usable (\<lambda>_.
        and_then (updating (\<lambda>ss. ss\<lparr>ss_buffer := sort_rows (ss_buffer ss)\<rparr>)) (\<lambda>_.
        reading (\<lambda>ss.
          case ss_plan ss of
            InMemory \<Rightarrow> if ss_next_run ss = 0 then in_memory_stream else merged_stream X 2
          | External _ fan \<Rightarrow>
              if ss_next_run ss = 0 then in_memory_stream else merged_stream X (unat fan))))"
  have body: "upholds session_ok ?body ?Q ?E"
    by (rule upholds_attempt [OF usable upholds_attempt [OF sorted]])
      (auto intro!: upholds_read merged memory split: sort_plan.splits)
  obtain t where "?body s = (r, t)"
    using run by (auto simp: finish_def split: prod.splits)
  then show ?thesis
    using upholds_fault [OF body ok] upholds_value [OF body ok] by (cases r) blast+
qed

lemma memory_stream_next_calm: "memory_stream_next im w = (r, w') \<Longrightarrow> r \<noteq> Inl e"
  by (auto simp: memory_stream_next_def split: prod.splits option.splits)

lemma drain_memory_calm: "drain_memory im w = ((items, e), w') \<Longrightarrow> e = None"
proof (induction im w arbitrary: items rule: drain_memory.induct)
  case (1 im w)
  obtain r w1 where poll: "memory_stream_next im w = (r, w1)" by (metis surj_pair)
  show ?case
  proof (cases "\<exists>i im'. r = Inr (Yielded i im')")
    case False
    then show ?thesis
      using 1(2) poll memory_stream_next_calm [OF poll]
      by (subst (asm) drain_memory.simps) (auto split: sum.splits pulled.splits)
  next
    case True
    then obtain i im' where r: "r = Inr (Yielded i im')" by blast
    obtain later where "drain_memory im' w1 = ((later, e), w')"
      using 1(2) poll r by (subst (asm) drain_memory.simps) (auto split: prod.splits)
    then show ?thesis
      using 1(1) [OF poll [symmetric] r HOL.refl] by blast
  qed
qed

lemma guard_cleanup_calm:
  assumes "cg_fds g" and "guard_cleanup X (g, w) = (r, g', w')"
  shows "(\<forall>p. r \<noteq> Inl (Panic p)) \<and> cg_fds g'"
proof (cases "cg_dir g")
  case None
  then show ?thesis using assms by (auto simp: guard_cleanup_def)
next
  case (Some dir)
  let ?m = "and_then scope_idle (\<lambda>_. perform_reserved (\<lambda>w. w) (io (fs_remove_dir_all X dir)))"
  obtain q w1 where run: "?m w = (q, w1)" by (metis surj_pair)
  have "calm ?m"
    by (intro calm_attempt calm_perform_reserved) (simp add: calm_def scope_idle_def)
  then show ?thesis
    using assms Some run by (cases q) (auto simp: guard_cleanup_def dest: calmD)
qed

lemma stream_end_calm:
  assumes "cg_fds (vs_guard vs)" and "stream_end X vs w = (r, w')"
  shows "(\<forall>p. r \<noteq> Inl (Panic p)) \<and> (\<forall>i vs'. r = Inr (Yielded i vs') \<longrightarrow> stream_ok (Merging vs'))"
proof -
  obtain q g w1 where clean: "guard_cleanup X (vs_guard vs, w) = (q, g, w1)" by (metis surj_pair)
  show ?thesis
    using assms(2) clean guard_cleanup_calm [OF assms(1) clean]
    by (auto simp: stream_end_def stream_ok_def split: sum.splits fault.splits)
qed

lemma value_stream_next_calm:
  assumes ok: "stream_ok (Merging vs)" and poll: "value_stream_next X vs w = (r, w')"
  shows "(\<forall>p. r \<noteq> Inl (Panic p)) \<and> (\<forall>i vs'. r = Inr (Yielded i vs') \<longrightarrow> stream_ok (Merging vs'))"
proof (cases "vs_state vs")
  case None
  then show ?thesis
    using poll stream_end_calm [of vs X w r w'] ok
    by (auto simp: value_stream_next_def stream_ok_def split: if_splits)
next
  case (Some st)
  obtain q st' w1 where run: "merge_next X (st, w) = (q, st', w1)" by (metis surj_pair)
  have b: "(\<forall>p. q \<noteq> Inl (Panic p)) \<and> (\<forall>x. q = Inr x \<longrightarrow> heap_ok st')" "cg_fds (vs_guard vs)"
    using merge_next_calm [OF run] ok Some by (auto simp: stream_ok_def)
  have fin: "(\<forall>p. r \<noteq> Inl (Panic p)) \<and> (\<forall>i vs'. r = Inr (Yielded i vs') \<longrightarrow> stream_ok (Merging vs'))"
    if "stream_end X (vs\<lparr>vs_state := Some st'\<rparr>) w1 = (r, w')"
    by (rule stream_end_calm [OF _ that]) (simp add: b)
  show ?thesis
    using poll Some run b fin
    by (auto simp: value_stream_next_def stream_ok_def split: sum.splits option.splits fault.splits)
qed

lemma drain_calm: "stream_ok (Merging vs) \<Longrightarrow> drain X vs w = ((items, e), w') \<Longrightarrow> e \<noteq> Some (Panic p)"
proof (induction X vs w arbitrary: items rule: drain.induct)
  case (1 X vs w)
  obtain r w1 where poll: "value_stream_next X vs w = (r, w1)" by (metis surj_pair)
  note b = value_stream_next_calm [OF 1(2) poll]
  show ?case
  proof (cases "\<exists>i vs'. r = Inr (Yielded i vs')")
    case False
    then show ?thesis
      using 1(3) poll b
      by (subst (asm) drain.simps) (auto split: sum.splits pulled.splits)
  next
    case True
    then obtain i vs' where r: "r = Inr (Yielded i vs')" by blast
    obtain later where more: "drain X vs' w1 = ((later, e), w')"
      using 1(3) poll r by (subst (asm) drain.simps) (auto split: prod.splits)
    then show ?thesis
      using 1(1) [OF poll [symmetric] r HOL.refl _ more] b r by blast
  qed
qed

lemma session_new_ok: "session_new plan dir dedup = Inr ss \<Longrightarrow> session_ok ss"
proof -
  have "counter_value (replicate n None) = 0" for n
    using counter_value_zeros [of n "[]"] by simp
  then have "counter_value (replicate 64 None) = 0" .
  then show "session_new plan dir dedup = Inr ss \<Longrightarrow> session_ok ss"
    by (auto simp: session_new_def guard_set_fd_budget_def guard_disarmed_def session_ok_def guarded_def usable_def)
qed

lemma sort_calm:
  assumes exact: "\<And>n. vec_capacity X n = n"
    and "push_all X xs (ss, w0) = (rs, s1)"
    and "finish X s1 = (r, w2)"
    and new: "session_ok ss"
  shows "(\<forall>p. Inl (Panic p) \<notin> set rs) \<and> (\<forall>p. r \<noteq> Inl (Panic p)) \<and>
    (\<forall>stream items e w3 p. r = Inr stream \<and> drain_sort X stream w2 = ((items, e), w3) \<longrightarrow> e \<noteq> Some (Panic p))"
proof -
  have pushed: "session_ok (fst s1)" "\<forall>p. Inl (Panic p) \<notin> set rs"
    using push_all_calm [OF exact assms(2)] new by auto
  have finished: "\<forall>p. r \<noteq> Inl (Panic p)" "\<forall>stream. r = Inr stream \<longrightarrow> stream_ok stream"
    using finish_calm [OF exact pushed(1) assms(3)] by auto
  have "e \<noteq> Some (Panic p)"
    if "r = Inr stream" "drain_sort X stream w2 = ((items, e), w3)" for stream items e w3 p
  proof (cases stream)
    case (Buffered im)
    then show ?thesis using that drain_memory_calm [of im w2 items e w3] by (auto simp: drain_sort_def)
  next
    case (Merging vs)
    then show ?thesis
      using that finished(2) drain_calm [of vs X w2 items e w3 p] by (auto simp: drain_sort_def)
  qed
  then show ?thesis using pushed finished by blast
qed

text \<open>C15. No step of a sort panics: not \<open>new\<close>, not a push, not \<open>finish\<close>, not a poll of its
  stream, whatever the files, the budget and the codecs do. The 64 levels of the frontier
  never run out, the merge never takes from an exhausted source or indexes past its sources,
  no reservation is assigned twice and an armed guard always has its descriptor budget.\<close>

theorem sort_never_panics:
  assumes exact: "\<And>n. vec_capacity X n = n"
    and "push_all X xs (ss, w0) = (rs, s1)"
    and "finish X s1 = (r, w2)"
    and new: "session_new plan dir dedup = Inr ss"
  shows "(\<forall>p. Inl (Panic p) \<notin> set rs) \<and> (\<forall>p. r \<noteq> Inl (Panic p)) \<and>
    (\<forall>stream items e w3 p. r = Inr stream \<and> drain_sort X stream w2 = ((items, e), w3) \<longrightarrow> e \<noteq> Some (Panic p))"
  using sort_calm [OF exact assms(2,3) session_new_ok [OF new]] .

text \<open>\<open>new\<close> itself meets its assertion.\<close>

lemma session_new_total: "\<exists>ss. session_new plan dir dedup = Inr ss"
  by (simp add: session_new_def guard_set_fd_budget_def guard_disarmed_def)

end
