(* ===== verification/SortProperties.thy ===== *)
theory SortProperties
  imports SessionFrames SessionCalm
begin

text \<open>
  What the sort as a whole promises (src/engine/session.rs, src/engine/merge.rs,
  src/engine/cleanup.rs), over the lemmas of its parts: the merge of a group of runs, the
  frontier of a session, its failure, the independence of the plan, the bounds of the buffer,
  and the end of a stream.
\<close>

section \<open>Merging\<close>

text \<open>C13. Merging a group of sorted runs into a file writes exactly the stable sort of their rows,
  earlier runs first among equal keys (with \<open>dedup\<close>, the first row of each key), removes
  the inputs and touches no other file.\<close>

theorem merged_group_is_sorted:
  assumes "ext_laws X view hpath hpos"
    and "holds_runs X (view (w_files w)) paths runs" and "out \<notin> set paths"
    and "merge_group_to_file X paths out dedup w = (Inr merged, w')"
  shows "merged = out
    \<and> holds_run X (view (w_files w')) out (sorted_rows dedup row_key (concat runs))
    \<and> (\<forall>p. p \<noteq> out \<longrightarrow> view (w_files w') p = (if p \<in> set paths then None else view (w_files w) p))"
  using merge_group_spec [OF assms(1,4,2,3)] by auto

section \<open>The session\<close>

text \<open>C14. The frontier counts the spilled runs in binary: after any pushes into a new session that
  has not failed, level \<open>l\<close> is occupied exactly when bit \<open>l\<close> of the run count is set, every
  occupied level is a complete sorted run, and the rows of the runs and of the buffer are
  exactly the accepted rows, none lost and none twice.\<close>

theorem frontier_is_binary_counter:
  assumes "ext_laws X view hpath hpos"
    and "session_new plan dir dedup = Inr ss"
    and "push_all X xs (ss, w0) = (rs, (ss1, w1))"
    and "\<not> ss_failed ss1"
  shows "length (ss_spills ss1) = 64
    \<and> (\<forall>l < 64. ss_spills ss1 ! l \<noteq> None \<longleftrightarrow> bit (ss_next_run ss1) l)
    \<and> (\<exists>runs. holds_runs X (view (w_files w1)) (frontier (ss_spills ss1)) runs
        \<and> mset (map pair_of (concat runs @ ss_buffer ss1)) = mset (accepted xs rs))"
proof -
  have "session_at X (view (w_files w0)) ss []"
    using session_new_at [OF assms(2), of X "view (w_files w0)"] by simp
  then obtain acc where acc: "session_at X (view (w_files w1)) ss1 acc" "map pair_of acc = accepted xs rs"
    using push_all_spec [OF assms(1,3), of "[]"] assms(4) by auto
  have len: "length (ss_spills ss1) = 64" "counter_value (ss_spills ss1) = unat (ss_next_run ss1)"
    using acc(1) by (simp_all add: session_at_def)
  have "bit (ss_next_run ss1) l \<longleftrightarrow> bit (unat (ss_next_run ss1)) l" if "l < 64" for l
    using that by (simp add: bit_unsigned_iff)
  then have bits: "\<forall>l < 64. ss_spills ss1 ! l \<noteq> None \<longleftrightarrow> bit (ss_next_run ss1) l"
    using counter_value_bit [of "ss_spills ss1"] len by simp
  show ?thesis
    using len(1) bits session_at_rows [OF acc(1)] acc(2) by auto
qed


text \<open>C12. The plan, the budget, the scratch directory and the files decide where the rows wait, not
  what comes out: two sorts that accept the same rows and report no error yield the same
  values, one in memory and one spilled, with whatever buffers and fan-ins.\<close>

theorem plans_agree:
  assumes "ext_laws X view hpath hpos" and "ext_laws Y view' hpath' hpos'"
    and "session_new plan1 dir1 dedup = Inr ss1" and "session_new plan2 dir2 dedup = Inr ss2"
    and "push_all X xs (ss1, v0) = (rs1, s1)" and "push_all Y xs (ss2, w0) = (rs2, s2)"
    and "accepted xs rs1 = accepted xs rs2"
    and "finish X s1 = (Inr stream1, v1)" and "finish Y s2 = (Inr stream2, w1)"
    and "drain_sort X stream1 v1 = ((map Inr vals1, None), v2)"
    and "drain_sort Y stream2 w1 = ((map Inr vals2, None), w2)"
  shows "vals1 = vals2"
proof -
  have complete: "vals = map snd (sorted_rows dedup fst (accepted xs rs))"
    if "\<exists>vs errs. map Inr vals = map Inr vs @ map Inl errs
        \<and> prefix vs (map snd (sorted_rows dedup fst (accepted xs rs)))
        \<and> (errs = [] \<and> None = None \<longrightarrow> vs = map snd (sorted_rows dedup fst (accepted xs rs)))" for vals rs
    using that all_values by blast
  show ?thesis
    using complete session_output [OF assms(1,3,5,8,10)] session_output [OF assms(2,4,6,9,11)] assms(7)
    by metis
qed

text \<open>C36. With \<open>dedup\<close>, a sort that reports no error yields one value per key, keys ascending, and
  it is the value of the first accepted row with that key.\<close>

theorem dedup_keeps_first:
  assumes "ext_laws X view hpath hpos"
    and "session_new plan dir True = Inr ss"
    and "push_all X xs (ss, w0) = (rs, s1)"
    and "finish X s1 = (Inr stream, w2)"
    and "drain_sort X stream w2 = ((map Inr vals, None), w3)"
  shows "vals = map (\<lambda>k. snd (hd (filter (\<lambda>kv. fst kv = k) (accepted xs rs))))
    (sorted_list_of_set (fst ` set (accepted xs rs)))"
proof -
  have "vals = map snd (sorted_rows True fst (accepted xs rs))"
    using session_output [OF assms] all_values by blast
  then show ?thesis by (simp add: sorted_rows_dedup comp_def)
qed

section \<open>The buffer\<close>

definition tally :: "('k, 'v) session \<Rightarrow> bool" where
  "tally ss \<longleftrightarrow> unat (ss_buffer_bytes ss) = sum_list (map (\<lambda>r. unat (row_retained r)) (ss_buffer ss))"

text \<open>What every step of a push keeps: the plan, the ceiling, and the tally of the buffer.\<close>

definition accounted :: "('k, 'v) session \<times> 'fs world \<Rightarrow> ('k, 'v) session \<times> 'fs world \<Rightarrow> bool" where
  "accounted s t \<longleftrightarrow>
     ss_plan (fst t) = ss_plan (fst s) \<and> budget_cap (w_budget (snd t)) = budget_cap (w_budget (snd s))
     \<and> (tally (fst s) \<longrightarrow> tally (fst t))"

interpretation account: frame accounted
  by unfold_locales (auto simp: accounted_def)

lemma account_on_world: "keeps within_cap m \<Longrightarrow> keeps accounted (on_world m)"
  by (auto intro!: keepsI simp: on_world_def accounted_def within_cap_def split: prod.splits dest: keepsD)

lemma account_updating:
  "(\<And>ss. ss_plan (g ss) = ss_plan ss \<and> (tally ss \<longrightarrow> tally (g ss))) \<Longrightarrow> keeps accounted (updating g)"
  by (auto simp: keeps_def updating_def modify_def accounted_def)

lemma account_drop_charge: "accounted s (drop_charge c s)"
  by (cases s) (simp add: drop_charge_def accounted_def release_def budget_release_def)

lemma tally_sorted [simp]: "tally (ss\<lparr>ss_buffer := sort_rows (ss_buffer ss)\<rparr>) = tally ss"
proof -
  have "mset (map (\<lambda>r. unat (row_retained r)) (sort_rows b)) = mset (map (\<lambda>r. unat (row_retained r)) b)"
    for b :: "('a, 'b) run_row list"
    by (simp add: sort_rows_def)
  then have "sum_list (map (\<lambda>r. unat (row_retained r)) (sort_rows b)) = sum_list (map (\<lambda>r. unat (row_retained r)) b)"
    for b :: "('a, 'b) run_row list"
    by (metis sum_mset_sum_list)
  then show ?thesis by (simp add: tally_def)
qed

lemma tally_fields [simp]:
  "tally (ss\<lparr>ss_failed := f\<rparr>) = tally ss" "tally (ss\<lparr>ss_spills := sl\<rparr>) = tally ss"
  "tally (ss\<lparr>ss_spills := sl, ss_failed := f\<rparr>) = tally ss"
  "tally (ss\<lparr>ss_cleanup := g, ss_metadata_reserved := m\<rparr>) = tally ss"
  "tally (ss\<lparr>ss_capacity := cp, ss_buffer_charge := ch\<rparr>) = tally ss"
  "tally (ss\<lparr>ss_next_run := n, ss_buffer := sort_rows (ss_buffer ss), ss_cleanup := g\<rparr>) = tally ss"
  using tally_sorted [of ss] by (simp_all add: tally_def)

lemma account_clear: "keeps accounted clear_buffer"
proof -
  have "budget_cap (w_budget (rows_drop rows w)) = budget_cap (w_budget w)"
    for rows :: "('a, 'b) run_row list" and w :: "'c world"
    using cap_session.step_rows_drop [of w rows] by (simp add: within_cap_def)
  moreover have "budget_cap (w_budget (release_opt c w)) = budget_cap (w_budget w)" for c and w :: "'c world"
    using release_frames(4) [of w c] by (simp add: within_cap_def)
  ultimately show ?thesis
    by (auto simp: keeps_def clear_buffer_def modify_def accounted_def tally_def)
qed

lemmas account_steps =
  account.keeps_intros keeps_reading account_on_world account_updating account_drop_charge
  account_clear cap_session.step_write_rows

lemma account_carry: "keeps accounted (carry X ordinal levels run)"
proof (induction levels arbitrary: run)
  case Nil
  then show ?case by (simp add: account.keeps_fail)
next
  case (Cons level levels)
  show ?case
    unfolding carry.simps
    by (intro keeps_reading)
      (auto intro!: account.keeps_intros account_updating account_on_world Cons.IH
        cap_engine.step_merge_group account.refl split: option.splits)
qed

lemma account_spill: "keeps accounted (spill X)"
  unfolding spill_def spill_run_def Let_def
  by (intro keeps_reading)
    (auto intro!: account.keeps_intros account_updating account_on_world account_carry account_clear
      keeps_reading cap_session.step_ensure cap_engine.step_create cap_session.step_write_rows
      cap_engine.step_finish account.refl)

lemma account_push_steps:
  "keeps accounted ensure_usable" "keeps accounted (reserve_metadata X)"
  "keeps accounted (grow_buffer X)" "keeps accounted buffer_limit" "keeps accounted (spill_before X n)"
proof -
  show lim: "keeps accounted buffer_limit"
    unfolding buffer_limit_def Let_def
    by (auto intro!: keeps_reading account.keeps_intros account_on_world limit_now_frames account.refl)
  show "keeps accounted ensure_usable"
    unfolding ensure_usable_def by (auto intro!: keeps_reading account.keeps_intros)
  show "keeps accounted (reserve_metadata X)"
    unfolding reserve_metadata_def
    by (auto intro!: keeps_reading account.keeps_intros account_on_world reserve_within_cap account_updating
        account_drop_charge account.refl split: sum.splits)
  show "keeps accounted (grow_buffer X)"
    unfolding grow_buffer_def
    by (auto intro!: keeps_reading account.keeps_intros account_on_world reserve_within_cap account_updating
        account_drop_charge account.refl cap_session.step_modify_release)
  show "keeps accounted (spill_before X n)"
    unfolding spill_before_def
    by (auto intro!: keeps_reading account.keeps_intros lim account_spill account.refl split: option.splits)
qed

text \<open>A spill that returns leaves the buffer empty.\<close>

definition same_buffer :: "('k, 'v) session \<times> 'fs world \<Rightarrow> ('k, 'v) session \<times> 'fs world \<Rightarrow> bool" where
  "same_buffer s t \<longleftrightarrow> ss_buffer (fst t) = ss_buffer (fst s)"

interpretation buffered: frame same_buffer
  by unfold_locales (auto simp: same_buffer_def)

lemma carry_same_buffer: "keeps same_buffer (carry X ordinal levels run)"
proof (induction levels arbitrary: run)
  case Nil
  then show ?case by (simp add: buffered.keeps_fail)
next
  case (Cons level levels)
  have u: "keeps same_buffer (updating g)" if "\<And>ss. ss_buffer (g ss) = ss_buffer ss" for g
    using that by (auto simp: keeps_def updating_def modify_def same_buffer_def)
  have o: "keeps same_buffer (on_world m)" for m
    by (auto simp: keeps_def on_world_def same_buffer_def split: prod.splits)
  show ?case
    unfolding carry.simps
    by (intro keeps_reading)
      (auto intro!: buffered.keeps_intros u o Cons.IH buffered.refl split: option.splits)
qed

lemma spill_empties: "spill X s = (Inr u, s') \<Longrightarrow> ss_buffer (fst s') = []"
proof (cases "ss_buffer (fst s) = []")
  case True
  then show "spill X s = (Inr u, s') \<Longrightarrow> ss_buffer (fst s') = []"
    by (simp add: spill_def act_ok)
next
  case False
  assume "spill X s = (Inr u, s')"
  then obtain t run where "carry X (ss_next_run (fst s)) [0..<64] run t = (Inr u, s')" "ss_buffer (fst t) = []"
    using False by (auto simp: spill_def spill_run_def Let_def act_ok clear_buffer_def)
  then show ?thesis
    using keepsD [OF carry_same_buffer] by (fastforce simp: same_buffer_def)
qed

lemma spill_before_room:
  assumes "spill_before X n s = (Inr u, s')"
  shows "ss_buffer (fst s') = [] \<or> checked_add (ss_buffer_bytes (fst s')) n \<noteq> None"
proof (cases "ss_buffer (fst s) = []")
  case True
  then show ?thesis using assms by (auto simp: spill_before_def ret_def)
next
  case False
  show ?thesis
  proof (cases "checked_add (ss_buffer_bytes (fst s)) n")
    case None
    then have "spill X s = (Inr u, s')" using assms False by (simp add: spill_before_def)
    then show ?thesis using spill_empties by blast
  next
    case (Some after)
    obtain q t where lim: "buffer_limit s = (q, t)" by (metis surj_pair)
    obtain l where l: "q = Inr l" "same_rows s t" using buffer_limit_ok [OF lim] lim by auto
    show ?thesis
      using assms False Some lim l spill_empties [of X t u s']
      by (auto simp: spill_before_def attempt_def ret_def same_rows_def split: if_splits)
  qed
qed

text \<open>The largest limit a plan and a ceiling allow.\<close>

definition plan_limit :: "sort_plan \<Rightarrow> u64 \<Rightarrow> usize" where
  "plan_limit plan cap =
     (case plan of
        InMemory \<Rightarrow> min (max (cap div 8) 1) (8 * 1024 * 1024)
      | External bytes _ \<Rightarrow> min (max (cap div 8) 1) (max bytes 1))"

lemma buffer_limit_le:
  assumes "buffer_limit s = (Inr l, t)"
  shows "l \<le> plan_limit (ss_plan (fst s)) (budget_cap (w_budget (snd s)))"
proof -
  let ?lim = "fst (budget_limit (w_budget (snd s)))"
  have "unat (?lim div 8) \<le> unat (budget_cap (w_budget (snd s)) div 8)"
    using budget_limit_le [of "w_budget (snd s)"] by (simp add: unat_div word_le_nat_alt div_le_mono)
  then have shared: "max (?lim div 8) 1 \<le> max (budget_cap (w_budget (snd s)) div 8) 1"
    by (simp add: word_le_nat_alt max_def)
  have "l = (case ss_plan (fst s) of InMemory \<Rightarrow> min (max (?lim div 8) 1) (8 * 1024 * 1024)
      | External bytes _ \<Rightarrow> min (max (?lim div 8) 1) (max bytes 1))"
    using assms by (cases s) (auto simp: buffer_limit_def Let_def act_ok limit_now_eq split: sort_plan.split)
  then show ?thesis
    using min.mono [OF shared order.refl] by (auto simp: plan_limit_def split: sort_plan.splits)
qed

lemma add_row_accounts:
  assumes run: "add_row X k v b c s = (r, s')" and tally: "tally (fst s)"
    and room: "checked_add (ss_buffer_bytes (fst s)) b = Some after"
  shows "accounted s s'"
proof (cases "checked_add (ss_next_row (fst s)) 1")
  case None
  then have "s' = drop_charge c s"
    using run by (auto simp: add_row_def attempt_def ok_or_def fail_def)
  then show ?thesis by (simp add: account_drop_charge)
next
  case (Some next_row)
  have "s' = ((fst s)\<lparr>ss_next_row := next_row, ss_buffer := ss_buffer (fst s) @
       [(run_row_new X k v)\<lparr>row_ordinal := ss_next_row (fst s), row_retained := b, row_charge := Some c\<rparr>],
       ss_buffer_bytes := after\<rparr>, snd s)"
    using run Some room
    by (cases s) (simp add: add_row_def attempt_def ok_or_def ret_def updating_def modify_def)
  then show ?thesis
    using tally room by (simp add: accounted_def tally_def run_row_new_def word_facts)
qed

lemma push_accounts:
  assumes run: "push_with_size X k v n s = (r, s')" and tally: "tally (fst s)"
  shows "accounted s s' \<and> (r = Inr () \<longrightarrow> ss_buffer (fst s') = []
    \<or> ss_buffer_bytes (fst s') < plan_limit (ss_plan (fst s)) (budget_cap (w_budget (snd s))))"
proof -
  let ?b = "max n (size_of_row X)"
  have front: "keeps accounted (push_front X ?b)"
    unfolding push_front_def
    by (intro account.keeps_attempt account_push_steps account_on_world reserve_within_cap account.refl)
  obtain q0 s0 where 0: "push_front X ?b s = (q0, s0)" by (metis surj_pair)
  note k0 = keepsD [OF front 0]
  show ?thesis
  proof (cases q0)
    case (Inl e)
    then show ?thesis using run 0 k0 unfolding push_with_size_eq by (auto simp: attempt_def)
  next
    case q0: (Inr c)
    obtain q1 s1 where 1: "spill_before X ?b s0 = (q1, s1)" by (metis surj_pair)
    have k1: "accounted s s1" by (rule account.trans [OF k0 keepsD [OF account_push_steps(5) 1]])
    show ?thesis
    proof (cases q1)
      case (Inl e)
      then show ?thesis
        using run 0 q0 1 account.trans [OF k1 account_drop_charge]
        unfolding push_with_size_eq by (auto simp: attempt_def)
    next
      case q1: (Inr x)
      obtain q2 s2 where 2: "grow_buffer X s1 = (q2, s2)" by (metis surj_pair)
      have k2: "accounted s s2" by (rule account.trans [OF k1 keepsD [OF account_push_steps(3) 2]])
      have room: "ss_buffer (fst s2) = [] \<or> checked_add (ss_buffer_bytes (fst s2)) ?b \<noteq> None"
        using spill_before_room [OF 1 [unfolded q1]] keepsD [OF rows_steps(3) 2] by (simp add: same_rows_def)
      show ?thesis
      proof (cases q2)
        case (Inl e)
        then show ?thesis
          using run 0 q0 1 q1 2 account.trans [OF k2 account_drop_charge]
          unfolding push_with_size_eq by (auto simp: attempt_def)
      next
        case q2: (Inr y)
        obtain q3 s3 where 3: "add_row X k v ?b c s2 = (q3, s3)" by (metis surj_pair)
        have t2: "tally (fst s2)" using k2 tally by (simp add: accounted_def)
        then have "ss_buffer (fst s2) = [] \<Longrightarrow> ss_buffer_bytes (fst s2) = 0"
          by (simp add: tally_def unat_eq_0)
        moreover have "checked_add 0 ?b = Some ?b"
          using unat_u64 [of ?b] by (simp add: word_facts)
        ultimately obtain after where after: "checked_add (ss_buffer_bytes (fst s2)) ?b = Some after"
          using room by auto
        have k3: "accounted s2 s3" by (rule add_row_accounts [OF 3 t2 after])
        have k03: "accounted s s3" by (rule account.trans [OF k2 k3])
        show ?thesis
        proof (cases q3)
          case (Inl e)
          then show ?thesis
            using run 0 q0 1 q1 2 q2 3 k03 unfolding push_with_size_eq by (auto simp: attempt_def)
        next
          case q3: (Inr z)
          have 4: "spill_after X s3 = (r, s')"
            using run 0 q0 1 q1 2 q2 3 q3 unfolding push_with_size_eq by (auto simp: attempt_def)
          obtain q4 s4 where lim: "buffer_limit s3 = (q4, s4)" by (metis surj_pair)
          obtain l where l: "q4 = Inr l" "same_rows s3 s4" using buffer_limit_ok [OF lim] lim by auto
          have k4: "accounted s s4" by (rule account.trans [OF k03 keepsD [OF account_push_steps(4) lim]])
          have less: "l \<le> plan_limit (ss_plan (fst s)) (budget_cap (w_budget (snd s)))"
            using buffer_limit_le [OF lim [unfolded l(1)]] k03 by (simp add: accounted_def)
          show ?thesis
          proof (cases "l \<le> ss_buffer_bytes (fst s4)")
            case True
            then have "spill X s4 = (r, s')"
              using 4 lim l by (simp add: spill_after_def attempt_def)
            then show ?thesis
              using account.trans [OF k4 keepsD [OF account_spill]] spill_empties by blast
          next
            case False
            then have "r = Inr ()" "s' = s4"
              using 4 lim l by (auto simp: spill_after_def attempt_def ret_def)
            then show ?thesis using k4 False less by auto
          qed
        qed
      qed
    qed
  qed
qed

text \<open>C34. A session never buffers more than its share: after any pushes into a new session of which
  the last returned, the buffered rows' retained bytes are counted exactly, and they are
  under the limit of the plan and of an eighth of the budget's ceiling (or none are buffered).\<close>

theorem buffer_stays_small:
  assumes "session_new plan dir dedup = Inr ss"
    and "push_all X xs (ss, w0) = (rs, s1)"
    and "push_with_size X k v n s1 = (Inr (), (ss2, w2))"
  shows "sum_list (map (\<lambda>r. unat (row_retained r)) (ss_buffer ss2)) = unat (ss_buffer_bytes ss2)
    \<and> (ss_buffer ss2 = [] \<or> ss_buffer_bytes ss2 < plan_limit plan (budget_cap (w_budget w0)))"
proof -
  have new: "tally ss" "ss_plan ss = plan"
    using assms(1) by (auto simp: session_new_def guard_set_fd_budget_def guard_disarmed_def tally_def)
  have "accounted s s'" if "push_all X xs s = (rs, s')" "tally (fst s)" for s s' xs rs
    using that
  proof (induction xs arbitrary: s rs)
    case Nil
    then show ?case by (simp add: account.refl)
  next
    case (Cons x xs)
    obtain k v n where x: "x = (k, v, n)" by (cases x) auto
    obtain r t where push: "push_with_size X k v n s = (r, t)" by (metis surj_pair)
    obtain rs' where rest: "push_all X xs t = (rs', s')"
      using Cons.prems push x by (auto split: prod.splits)
    have "accounted s t" using push_accounts [OF push Cons.prems(2)] by blast
    then show ?case
      using Cons.IH [OF rest] Cons.prems(2) by (auto simp: accounted_def)
  qed
  then have s1: "accounted (ss, w0) s1" using assms(2) new by simp
  then show ?thesis
    using push_accounts [OF assms(3)] new by (auto simp: accounted_def tally_def)
qed

section \<open>The end of a stream\<close>

lemma drain_after_shape:
  assumes "drain X vs w = ((items, e), w')"
  shows "length items < polls_left vs
    \<and> (vs_state vs = None \<longrightarrow> (\<exists>errs. items = map Inl errs \<and> length errs \<le> (if vs_reported vs then 0 else 1)))"
  using assms
proof (induction X vs w arbitrary: items rule: drain.induct)
  case (1 X vs w)
  obtain r w1 where poll: "value_stream_next X vs w = (r, w1)" by (metis surj_pair)
  have some: "0 < polls_left vs" by (simp add: polls_left_def split: option.splits)
  have after: "vs_state vs = None \<longrightarrow> (\<exists>errs. items = map Inl errs \<and> length errs \<le> (if vs_reported vs then 0 else 1))"
    using drain_after [OF _ 1(2)] by blast
  show ?case
  proof (cases "\<exists>i vs'. r = Inr (Yielded i vs')")
    case False
    then have "items = []"
      using 1(2) poll by (subst (asm) drain.simps) (auto split: sum.splits pulled.splits)
    then show ?thesis using some after by simp
  next
    case True
    then obtain i vs' where r: "r = Inr (Yielded i vs')" by blast
    obtain later where more: "drain X vs' w1 = ((later, e), w')" "items = i # later"
      using 1(2) poll r by (subst (asm) drain.simps) (auto split: prod.splits)
    have "polls_left vs' < polls_left vs"
      by (rule value_stream_next_polls_left [OF poll [unfolded r]])
    then show ?thesis
      using 1(1) [OF poll [symmetric] r HOL.refl more(1)] after more(2) by auto
  qed
qed

lemma value_stream_next_error:
  assumes "value_stream_next X vs w = (Inr (Yielded (Inl err) vs'), w')"
  shows "vs_state vs' = None"
proof (cases "vs_state vs")
  case None
  then show ?thesis
    using assms stream_end_shape [of X vs w "Inl err" vs' w']
    by (auto simp: value_stream_next_def split: if_splits)
next
  case (Some st)
  then show ?thesis
    using assms stream_end_shape [of X "vs\<lparr>vs_state := Some _\<rparr>" _ "Inl err" vs' w']
    by (auto simp: value_stream_next_def split: prod.splits sum.splits fault.splits option.splits
        dest: stream_end_shape)
qed

lemma drain_values_then_errors:
  "drain X vs w = ((items, e), w') \<Longrightarrow>
    \<exists>vals errs. items = map Inr vals @ map Inl errs \<and> length errs \<le> 2"
proof (induction X vs w arbitrary: items rule: drain.induct)
  case (1 X vs w)
  obtain r w1 where poll: "value_stream_next X vs w = (r, w1)" by (metis surj_pair)
  show ?case
  proof (cases "\<exists>i vs'. r = Inr (Yielded i vs')")
    case False
    then have "items = []"
      using 1(2) poll by (subst (asm) drain.simps) (auto split: sum.splits pulled.splits)
    then show ?thesis by simp
  next
    case True
    then obtain i vs' where r: "r = Inr (Yielded i vs')" by blast
    obtain later where more: "drain X vs' w1 = ((later, e), w')" "items = i # later"
      using 1(2) poll r by (subst (asm) drain.simps) (auto split: prod.splits)
    show ?thesis
    proof (cases i)
      case (Inr v)
      obtain vals errs where "later = map Inr vals @ map Inl errs" "length errs \<le> 2"
        using 1(1) [OF poll [symmetric] r HOL.refl more(1)] by blast
      then show ?thesis
        using more(2) Inr by (intro exI [of _ "v # vals"] exI [of _ errs]) simp
    next
      case (Inl err)
      then have "vs_state vs' = None"
        using poll r value_stream_next_error [of X vs w err vs' w1] by simp
      then obtain errs where "later = map Inl errs" "length errs \<le> 1"
        using drain_after_shape [OF more(1)] by (auto split: if_splits)
      then show ?thesis
        using more(2) Inl by (intro exI [of _ "[]"] exI [of _ "err # errs"]) simp
    qed
  qed
qed



end
