(* ===== verification/MemFiles.thy ===== *)
theory MemFiles
  imports RunStore "HOL-Library.AList"
begin

text \<open>
  An instance of the parameters that satisfies the laws: files as an association list from
  paths to bytes, an open file as a path and a position, byte keys and values serialized as
  themselves. The witnesses of the development run on it.
\<close>

type_synonym mem_fs = "(path \<times> u8 list) list"
type_synonym mem_handle = "path \<times> nat"

definition mem_read :: "mem_handle \<Rightarrow> nat \<Rightarrow> mem_fs \<Rightarrow> (fs_error + u8 list \<times> mem_handle) \<times> mem_fs" where
  "mem_read h n s =
     (case map_of s (fst h) of
        None \<Rightarrow> (Inl ''not found'', s)
      | Some c \<Rightarrow>
          let bs = take n (drop (snd h) c)
          in if length bs = n then (Inr (bs, fst h, snd h + n), s) else (Inl ''unexpected end of file'', s))"

definition mem_open :: "path \<Rightarrow> mem_fs \<Rightarrow> (fs_error + mem_handle) \<times> mem_fs" where
  "mem_open p s = (case map_of s p of None \<Rightarrow> (Inl ''not found'', s) | Some _ \<Rightarrow> (Inr (p, 0), s))"

definition mem_open_end :: "path \<Rightarrow> mem_fs \<Rightarrow> (fs_error + mem_handle) \<times> mem_fs" where
  "mem_open_end p s =
     (case map_of s p of None \<Rightarrow> (Inl ''not found'', s) | Some c \<Rightarrow> (Inr (p, length c), s))"

definition mem_write :: "mem_handle \<Rightarrow> u8 list \<Rightarrow> mem_fs \<Rightarrow> (fs_error + mem_handle) \<times> mem_fs" where
  "mem_write h bs s =
     (case map_of s (fst h) of
        None \<Rightarrow> (Inl ''not found'', s)
      | Some c \<Rightarrow> (Inr (fst h, snd h + length bs), AList.update (fst h) (overwrite (snd h) bs c) s))"

definition mem_decode :: "u8 list \<Rightarrow> string + (u8, u8) row_payload" where
  "mem_decode bs =
     (case bs of k # v # rest \<Rightarrow> Inr (k, v, u64_from_le_bytes rest) | _ \<Rightarrow> Inl ''short row'')"

definition mem_ext :: "(mem_fs, mem_handle, u8, u8) ext" where
  "mem_ext =
     \<lparr>fs_create = (\<lambda>p s. (Inr (p, 0), AList.update p [] s)),
      fs_open = mem_open,
      fs_open_append = mem_open_end,
      fs_open_write_at_end = mem_open_end,
      fs_seek = (\<lambda>h n s. (Inr (fst h, unat n), s)),
      fs_write_all = mem_write,
      fs_flush = (\<lambda>h s. (Inr h, s)),
      fs_read_exact = mem_read,
      fs_ensure_dir = (\<lambda>_ s. (Inr (), s)),
      fs_remove_if_exists = (\<lambda>p s. (Inr (), AList.delete p s)),
      fs_remove_dir_all = (\<lambda>d s. (Inr (), filter (\<lambda>(q, _). take (length d) q \<noteq> d) s)),
      into_writer = (\<lambda>_ (k, v, n). ([[k, v], u64_to_le_bytes n], None)),
      from_reader = mem_decode,
      size_of_future = (\<lambda>_. 256),
      size_of_row = 64, size_of_pair = 2, size_of_source = 128, size_of_heap_entry = 16,
      size_of_session = 1024, size_of_reader = 96, size_of_writer_and_inner = 512,
      path_capacity = (\<lambda>_. 64), vec_capacity = (\<lambda>n. n)\<rparr>"

lemma map_of_filter_fst: "map_of (filter (\<lambda>(q, _). P q) s) q = (if P q then map_of s q else None)"
  by (induction s) auto

lemma mem_ext_laws: "ext_laws mem_ext map_of fst snd"
  unfolding ext_laws_def
proof (intro conjI)
  show "read_laws mem_ext map_of fst snd"
    unfolding read_laws_def mem_ext_def
    by (auto simp: mem_open_def mem_read_def Let_def split: option.splits if_splits)
  show "write_laws mem_ext map_of fst snd"
    unfolding write_laws_def mem_ext_def
    by (auto simp: mem_open_end_def mem_write_def update_conv' split: option.splits)
  show "dir_laws mem_ext map_of"
    unfolding dir_laws_def mem_ext_def
    by (auto simp: map_of_filter_fst delete_conv')
  show "codec_laws mem_ext"
    unfolding codec_laws_def mem_ext_def
    by (auto simp: mem_decode_def)
qed

definition mem_world :: "u64 \<Rightarrow> nat \<Rightarrow> mem_fs world" where
  "mem_world limit permits =
     \<lparr>w_budget = budget_new limit, w_permits = permits, w_pending = 0, w_leaves = [], w_files = []\<rparr>"

definition mem_row :: "u8 \<Rightarrow> u8 \<Rightarrow> u64 \<Rightarrow> (u8, u8) run_row" where
  "mem_row k v n =
     \<lparr>row_key = k, row_value = v, row_ordinal = n, row_retained = 64, row_charge = None\<rparr>"

section \<open>Evaluation on the instance\<close>

lemma le_bytes_numeral:
  "le_bytes (numeral k) n = of_nat n # le_bytes (pred_numeral k) (n div 256)"
  by (simp only: numeral_eq_Suc [of k] le_bytes.simps)

lemma mem_fields:
  "fs_create mem_ext = (\<lambda>p s. (Inr (p, 0), AList.update p [] s))"
  "fs_open mem_ext = mem_open" "fs_open_append mem_ext = mem_open_end"
  "fs_open_write_at_end mem_ext = mem_open_end"
  "fs_seek mem_ext = (\<lambda>h n s. (Inr (fst h, unat n), s))" "fs_write_all mem_ext = mem_write"
  "fs_flush mem_ext = (\<lambda>h s. (Inr h, s))" "fs_read_exact mem_ext = mem_read"
  "fs_ensure_dir mem_ext = (\<lambda>_ s. (Inr (), s))"
  "fs_remove_if_exists mem_ext = (\<lambda>p s. (Inr (), AList.delete p s))"
  "fs_remove_dir_all mem_ext = (\<lambda>d s. (Inr (), filter (\<lambda>(q, _). take (length d) q \<noteq> d) s))"
  "into_writer mem_ext = (\<lambda>_ (k, v, n). ([[k, v], u64_to_le_bytes n], None))"
  "from_reader mem_ext = mem_decode" "size_of_future mem_ext = (\<lambda>_. 256)"
  "size_of_row mem_ext = 64" "size_of_pair mem_ext = 2" "size_of_source mem_ext = 128"
  "size_of_heap_entry mem_ext = 16" "size_of_session mem_ext = 1024" "size_of_reader mem_ext = 96"
  "size_of_writer_and_inner mem_ext = 512" "path_capacity mem_ext = (\<lambda>_. 64)"
  "vec_capacity mem_ext = (\<lambda>n. n)"
  by (simp_all add: mem_ext_def)

lemmas budget_eval =
  budget_reserve_def budget_limit_def budget_new_def budget_release_def limit_now_def reserve_def
  release_def release_opt_def reserve_frame_def frame_working_bytes_def checked_add_def
  checked_mul_def saturating_sub_def Let_def

lemmas act_eval =
  attempt_def ensuring_def ok_or_def ret_def fail_def bail_def modify_def or_raise_def io_def
  perform_def perform_with_def perform_reserved_def perform_reserved_with_def caller_stays_def awaited_def
  detached_def perform_bytes_def join_error_def scope_start_def
  io_guard_drop_def permit_take_def permit_drop_def

lemmas mem_eval =
  mem_world_def mem_fields mem_row_def mem_write_def mem_open_end_def mem_open_def mem_read_def
  mem_decode_def overwrite_def le_bytes_numeral u64_to_le_bytes_def u32_to_le_bytes_def
  u64_from_le_bytes_def u32_from_le_bytes_def

lemmas run_eval =
  budget_eval act_eval mem_eval encode_def counter_write_def frame_writer_write_def length_u32_def
  payload_def row_drop_def frame_drop_def run_writer_create_def run_writer_write_row_def
  run_writer_finish_def run_reader_open_def run_reader_from_position_def read_frame_def
  run_reader_next_row_def

theorem encode_exact_witness:
  "\<exists>w'. encode mem_ext (7, 9, 1) (mem_world 4096 1)
      = (Inr ([7, 9, 1, 0, 0, 0, 0, 0, 0, 0], 62), w')
    \<and> [7, 9, 1, 0, 0, 0, 0, 0, 0, 0] = encoded mem_ext (7, 9, 1)"
proof -
  have run: "\<exists>w'. encode mem_ext (7, 9, 1) (mem_world 4096 1)
      = (Inr ([7, 9, 1, 0, 0, 0, 0, 0, 0, 0], 62), w')"
    by (simp add: run_eval)
  then show ?thesis
    using encode_exact [of mem_ext "(7, 9, 1)" "mem_world 4096 1"] by blast
qed

text \<open>Writing rows to a new run and reading them back, on the instance.\<close>

definition mem_round_trip :: "(u8, u8) run_row list \<Rightarrow> (mem_fs world, (u8, u8) run_row list) act" where
  "mem_round_trip rows =
     and_then (run_writer_create mem_ext [''r'']) (\<lambda>wr.
     and_then (write_rows mem_ext wr rows) (\<lambda>wr.
     and_then (run_writer_finish mem_ext wr) (\<lambda>p.
     and_then (run_reader_open mem_ext [''r'']) (\<lambda>rd.
     read_rows mem_ext (length rows) rd))))"

theorem run_round_trip_witness:
  "\<exists>out. fst (mem_round_trip [mem_row 7 9 0, mem_row 3 4 1] (mem_world 65536 1)) = Inr out
    \<and> map stored out = map stored [mem_row 7 9 0, mem_row 3 4 1]"
proof -
  have "\<exists>out w. mem_round_trip [mem_row 7 9 0, mem_row 3 4 1] (mem_world 65536 1) = (Inr out, w)"
    by (simp add: run_eval mem_round_trip_def)
  then obtain out w where
    run: "mem_round_trip [mem_row 7 9 0, mem_row 3 4 1] (mem_world 65536 1) = (Inr out, w)"
    by blast
  then have "map stored out = map stored [mem_row 7 9 0, mem_row 3 4 1]"
    by (auto simp only: mem_round_trip_def act_ok dest: run_round_trip [OF mem_ext_laws])
  then show ?thesis
    using run by simp
qed

end
