(* ===== verification/MemSession.thy ===== *)
theory MemSession
  imports SortProperties MemFiles
begin

text \<open>
  Sorts run on the in-memory instance: the rewrite rules that evaluate the merge, the session
  and its output, and the concrete runs the witnesses of the session properties use.
\<close>

lemmas merge_eval =
  merge_group_to_file_def merge_state_open_def merge_state_new_def merge_source_open_def
  merge_next.simps merge_turn_def take_head_def charge_key_def emit_or_skip_def copy_rows.simps
  owning_def merge_state_drop_def sources_drop_def source_drop_def heap_push_def heap_pop_def
  less_eq_heap_entry_def less_heap_entry_def cascade.simps cascade_and_stream_def

lemmas guard_eval =
  guard_set_fd_budget_def guard_disarmed_def guard_retain_def guard_arm_def
  guard_take_reservation_def guard_cleanup_def guard_drop_def scope_idle_def

lemmas session_eval =
  session_world_def session_new_def on_world_def updating_def drop_charge_def ensure_usable_def
  reserve_metadata_def grow_buffer_def buffer_limit_def sort_rows_def rows_drop_def
  clear_buffer_def spill_def spill_run_def spill_before_def add_row_def spill_after_def
  push_with_size_def run_row_new_def finish_def merged_stream_def stream_frontier_def
  in_memory_stream_def session_drop_def frontier_Cons

lemmas output_eval =
  drain_sort_def drain.simps value_stream_next_def stream_end_def stream_drop_def
  drain_memory.simps memory_stream_next_def memory_stream_drop_def

lemma levels64: "[0..<64] = 0 # 1 # 2 # 3 # [4..<64::nat]"
  by (simp add: upt_conv_Cons)

lemma slots64: "replicate 64 x = x # x # x # x # replicate 60 x"
  by (simp add: numeral_eq_Suc)

lemma frontier_none: "frontier (replicate n None) = []"
  by (induction n) simp_all

lemmas all_eval =
  run_eval merge_eval guard_eval session_eval output_eval join_def word_le_nat_alt
  word_less_nat_alt less_eq_prod_simp levels64 slots64 frontier_none

text \<open>The whole life of a sort.\<close>

definition mem_sort ::
    "sort_plan \<Rightarrow> bool \<Rightarrow> (u8 \<times> u8 \<times> usize) list
      \<Rightarrow> (fault + unit) list \<times> (fault + (error + u8) list \<times> fault option) \<times> mem_fs world" where
  "mem_sort plan dedup xs =
     (case session_new plan [''d''] dedup of
        Inl e \<Rightarrow> ([], (Inl e, session_world plan []))
      | Inr ss \<Rightarrow>
          (case push_all mem_ext xs (ss, session_world plan []) of
             (rs, s1) \<Rightarrow>
               (case finish mem_ext s1 of
                  (Inl e, w2) \<Rightarrow> (rs, (Inl e, w2))
                | (Inr stream, w2) \<Rightarrow>
                    (case drain_sort mem_ext stream w2 of
                       (out, w3) \<Rightarrow> (rs, (Inr out, w3))))))"

lemma mem_sort_spills:
  "\<exists>w. mem_sort (External 128 2) True [(3, 30, 1), (1, 10, 1), (2, 20, 1), (1, 11, 1), (0, 9, 1)]
     = ([Inr (), Inr (), Inr (), Inr (), Inr ()], Inr ([Inr 9, Inr 10, Inr 20, Inr 30], None), w)"
  by (simp add: mem_sort_def all_eval)

theorem session_sorts_witness:
  "map snd (sorted_rows True fst
     (accepted [(3 :: u8, 30 :: u8, 1), (1, 10, 1), (2, 20, 1), (1, 11, 1), (0, 9, 1)]
       [Inr (), Inr (), Inr (), Inr (), Inr ()])) = [9, 10, 20, 30]"
proof -
  let ?xs = "[(3, 30, 1), (1, 10, 1), (2, 20, 1), (1, 11, 1), (0, 9, 1)]"
  obtain ss rs s1 stream w2 w3 where
    1: "session_new (External 128 2) [''d''] True = Inr ss"
    and 2: "push_all mem_ext ?xs (ss, session_world (External 128 2) []) = (rs, s1)"
    and 3: "finish mem_ext s1 = (Inr stream, w2)"
    and 4: "drain_sort mem_ext stream w2 = ((map Inr [9, 10, 20, 30], None), w3)"
    and rs: "rs = [Inr (), Inr (), Inr (), Inr (), Inr ()]"
    using mem_sort_spills by (auto simp: mem_sort_def split: sum.splits prod.splits)
  show ?thesis
    using session_sorts [OF mem_ext_laws 1 2 3 4] unfolding rs by (metis all_values)
qed



end
