(* ===== verification/DroppedCalls.thy ===== *)
theory DroppedCalls
  imports SessionFrames
begin

text \<open>
  Callers that go away (src/engine/session.rs, src/engine/operation.rs): a call whose future is
  dropped at an await. That any call may be dropped at any await is part of every definition
  (\<open>w_leaves\<close>, theory Operation), so the properties of sorts and replays hold with such callers;
  here is what a dropped push leaves behind.
\<close>

lemma push_gives_back:
  assumes "push_with_size X k v n s = (Inl e, t)"
  shows "same_permits (snd s) (snd t) \<and> within_cap (snd s) (snd t) \<and> beyond t = beyond s"
proof -
  have "same_permits (snd s) (snd t)" "within_cap (snd s) (snd t)"
    using keepsD [OF permit_session.lift_push assms] keepsD [OF cap_session.lift_push assms]
    by (simp_all add: claims_def)
  then show ?thesis
    using conserves_fault [OF push_conserves assms] by simp
qed


end
