(* ===== verification/SmallSorts.thy ===== *)
theory SmallSorts
  imports SortProperties
begin

text \<open>
  Sorts that succeed (src/engine/session.rs, src/engine/session/buffer.rs): with room in the
  budget for its rows, its buffer and its metadata, and rows that fit the buffer of the plan, a
  sort takes every row, and streams all of them from memory. Nothing else of the world is
  touched: no file, no permit, no await.
\<close>

section \<open>Reservations that are granted\<close>

text \<open>Whenever it is asked, the budget answers with a limit of at least \<open>L\<close>.\<close>

definition headroom :: "u64 \<Rightarrow> budget \<Rightarrow> bool" where
  "headroom L b \<longleftrightarrow> (\<forall>t. L \<le> fst (budget_limit (b\<lparr>budget_clock := t\<rparr>)))"

text \<open>\<open>w\<close> is \<open>w0\<close> but for its budget, of which \<open>u\<close> bytes are held.\<close>

definition roomy :: "u64 \<Rightarrow> 'fs world \<Rightarrow> nat \<Rightarrow> 'fs world \<Rightarrow> bool" where
  "roomy L w0 u w \<longleftrightarrow> (\<exists>b. w = w0\<lparr>w_budget := b\<rparr> \<and> headroom L b \<and> unat (budget_used b) = u)"

lemma headroom_now: "headroom L b \<Longrightarrow> L \<le> fst (budget_limit b)"
  unfolding headroom_def by (drule spec [of _ "budget_clock b"]) simp

lemma budget_limit_same:
  "budget_cap b' = budget_cap b \<Longrightarrow> budget_pressure b' = budget_pressure b \<Longrightarrow> budget_clock b' = budget_clock b \<Longrightarrow>
    fst (budget_limit b') = fst (budget_limit b)"
  by (simp add: budget_limit_def Let_def split: option.splits)

lemma headroom_same:
  "headroom L b \<Longrightarrow> budget_cap b' = budget_cap b \<Longrightarrow> budget_pressure b' = budget_pressure b \<Longrightarrow> headroom L b'"
  unfolding headroom_def
  using budget_limit_same [of "b'\<lparr>budget_clock := t\<rparr>" "b\<lparr>budget_clock := t\<rparr>" for t] by auto

lemma budget_limit_pressure [simp]: "budget_pressure (snd (budget_limit b)) = budget_pressure b"
  by (simp add: budget_limit_def Let_def split: option.splits)

lemma roomyE:
  assumes "roomy L w0 u w"
  obtains b where "w = w0\<lparr>w_budget := b\<rparr>" "headroom L b" "unat (budget_used b) = u"
  using assms by (auto simp: roomy_def)

lemma roomy_held: "roomy L w0 u w \<Longrightarrow> unat (held_bytes w) = u"
  by (auto simp: roomy_def held_bytes_def)

lemma roomy_limit:
  assumes "roomy L w0 u w"
  shows "\<exists>l w'. limit_now w = (Inr l, w') \<and> L \<le> l \<and> roomy L w0 u w'"
  using assms
proof (rule roomyE)
  fix b
  assume b: "w = w0\<lparr>w_budget := b\<rparr>" "headroom L b" "unat (budget_used b) = u"
  then show ?thesis
    using headroom_now [OF b(2)] headroom_same [OF b(2), of "snd (budget_limit b)"]
    by (auto simp: limit_now_eq roomy_def)
qed

lemma roomy_reserve:
  assumes "roomy L w0 u w" and "u + unat n \<le> unat L"
  shows "\<exists>w'. reserve n w = (Inr n, w') \<and> roomy L w0 (u + unat n) w'"
  using assms(1)
proof (rule roomyE)
  fix b
  assume b: "w = w0\<lparr>w_budget := b\<rparr>" "headroom L b" "unat (budget_used b) = u"
  show ?thesis
  proof (cases n b rule: budget_reserve_cases)
    case (granted after)
    then show ?thesis
      using b headroom_same [OF b(2)] by (auto simp: reserve_def roomy_def word_facts)
  next
    case refused
    then show ?thesis
      using assms(2) b headroom_now [OF b(2)] by (simp add: word_le_nat_alt)
  qed
qed

lemma roomy_release:
  assumes "roomy L w0 u w" and "unat (charge_bytes c) \<le> u"
  shows "roomy L w0 (u - unat (charge_bytes c)) (release_opt c w)"
  using assms(1)
proof (rule roomyE)
  fix b
  assume b: "w = w0\<lparr>w_budget := b\<rparr>" "headroom L b" "unat (budget_used b) = u"
  then show ?thesis
    using assms(2) headroom_same [OF b(2)]
    by (auto simp: roomy_def release_opt_def release_def budget_release_def charge_bytes_def
      unat_sub word_le_nat_alt split: option.splits)
qed

lemma plan_limit_mono:
  assumes "L \<le> l"
  shows "plan_limit plan L \<le> plan_limit plan l"
proof -
  have "max (L div 8) 1 \<le> max (l div 8) 1"
    using assms by (simp add: word_le_nat_alt max_def unat_div div_le_mono)
  then show ?thesis
    by (auto simp: plan_limit_def intro: min.coboundedI1 split: sort_plan.splits)
qed

section \<open>A session that only buffers\<close>

definition taken_bytes :: "('fs, 'h, 'k, 'v) ext \<Rightarrow> 'k \<times> 'v \<times> usize \<Rightarrow> nat" where
  "taken_bytes X = (\<lambda>(k, v, n). unat (max n (size_of_row X)))"

definition metadata_bytes :: "('fs, 'h, 'k, 'v) ext \<Rightarrow> path \<Rightarrow> nat" where
  "metadata_bytes X dir = (unat (path_capacity X dir) + 128) * 256 + unat (size_of_session X)"

definition charged_row :: "('fs, 'h, 'k, 'v) ext \<Rightarrow> nat \<Rightarrow> 'k \<times> 'v \<times> usize \<Rightarrow> ('k, 'v) run_row" where
  "charged_row X i = (\<lambda>(k, v, n).
     \<lparr>row_key = k, row_value = v, row_ordinal = of_nat i, row_retained = max n (size_of_row X),
      row_charge = Some (max n (size_of_row X))\<rparr>)"

text \<open>
  The session holds exactly the rows \<open>xs\<close>, in its buffer, and has never spilled; the budget is
  charged for them, for the buffer, for the metadata and for \<open>extra\<close> bytes more.
\<close>

definition buffering ::
    "('fs, 'h, 'k, 'v) ext \<Rightarrow> ('k, 'v) session \<Rightarrow> u64 \<Rightarrow> 'fs world \<Rightarrow> ('k \<times> 'v \<times> usize) list \<Rightarrow> nat
      \<Rightarrow> ('k, 'v) session \<times> 'fs world \<Rightarrow> bool" where
  "buffering X ss0 L w0 xs extra s \<longleftrightarrow>
     (let ss = fst s; g = ss_cleanup ss
      in \<not> ss_failed ss \<and> ss_next_run ss = 0
       \<and> ss_plan ss = ss_plan ss0 \<and> ss_dedup ss = ss_dedup ss0 \<and> ss_dir ss = ss_dir ss0
       \<and> cg_dir g = None \<and> (\<not> ss_metadata_reserved ss \<longrightarrow> cg_reservation g = None)
       \<and> ss_buffer ss = map (\<lambda>i. charged_row X i (xs ! i)) [0..<length xs]
       \<and> unat (ss_next_row ss) = length xs
       \<and> unat (ss_buffer_bytes ss) = sum_list (map (taken_bytes X) xs)
       \<and> length xs \<le> unat (ss_capacity ss)
       \<and> unat (charge_bytes (ss_buffer_charge ss)) = unat (ss_capacity ss) * unat (size_of_row X)
       \<and> roomy L w0 (unat (held_bytes w0) + (if ss_metadata_reserved ss then metadata_bytes X (ss_dir ss0) else 0)
           + sum_list (map (taken_bytes X) xs) + unat (ss_capacity ss) * unat (size_of_row X) + extra) (snd s))"

lemma attempt_step: "m s = (Inr x, s') \<Longrightarrow> attempt d m f s = f x s'"
  by (simp add: attempt_def)

lemma on_world_step: "m w = (r, w') \<Longrightarrow> on_world m (ss, w) = (r, (ss, w'))"
  by (simp add: on_world_def)

lemmas step_simps = attempt_step on_world_step

lemma unat_bound: "n \<le> unat (L :: u64) \<Longrightarrow> n < 2 ^ 64"
  using unat_u64 [of L] by linarith

lemma checked_add_fits: "unat a + unat b \<le> unat (L :: u64) \<Longrightarrow> \<exists>c. checked_add a (b :: u64) = Some c \<and> unat c = unat a + unat b"
  by (drule unat_bound) (auto simp: checked_add_def unat_word_ariths)

lemma checked_mul_fits: "unat a * unat b \<le> unat (L :: u64) \<Longrightarrow> \<exists>c. checked_mul a (b :: u64) = Some c \<and> unat c = unat a * unat b"
  by (drule unat_bound) (auto simp: checked_mul_def unat_word_ariths)

lemma metadata_fits:
  assumes "metadata_bytes X dir \<le> unat (L :: u64)"
  obtains p q m where "checked_add (path_capacity X dir) 128 = Some p" "checked_mul p 256 = Some q"
    "checked_add q (size_of_session X) = Some m" "unat m = metadata_bytes X dir"
proof -
  have n: "unat (128 :: u64) = 128" "unat (256 :: u64) = 256" by simp_all
  obtain p where p: "checked_add (path_capacity X dir) 128 = Some p" "unat p = unat (path_capacity X dir) + 128"
    using checked_add_fits [of "path_capacity X dir" 128 L] assms
    unfolding metadata_bytes_def n by fastforce
  obtain q where q: "checked_mul p 256 = Some q" "unat q = unat p * 256"
    using checked_mul_fits [of p 256 L] assms unfolding metadata_bytes_def n p(2) by fastforce
  obtain m where "checked_add q (size_of_session X) = Some m" "unat m = unat q + unat (size_of_session X)"
    using checked_add_fits [of q "size_of_session X" L] assms unfolding metadata_bytes_def q(2) p(2) by fastforce
  then show thesis
    using that [OF p(1) q(1)] p(2) q(2) by (simp add: metadata_bytes_def)
qed

lemma metadata_buffering:
  assumes at: "buffering X ss0 L w0 xs extra s"
    and room: "unat (held_bytes w0) + metadata_bytes X (ss_dir ss0) + sum_list (map (taken_bytes X) xs)
      + unat (ss_capacity (fst s)) * unat (size_of_row X) + extra \<le> unat L"
  shows "\<exists>s'. reserve_metadata X s = (Inr (), s') \<and> buffering X ss0 L w0 xs extra s' \<and> ss_metadata_reserved (fst s')
    \<and> ss_capacity (fst s') = ss_capacity (fst s)"
proof (cases "ss_metadata_reserved (fst s)")
  case True
  then show ?thesis using at by (simp add: reserve_metadata_def ret_def)
next
  case False
  obtain ss w where s: "s = (ss, w)" by fastforce
  let ?u = "unat (held_bytes w0) + sum_list (map (taken_bytes X) xs) + unat (ss_capacity ss) * unat (size_of_row X) + extra"
  have ss: "\<not> ss_metadata_reserved ss" "ss_dir ss = ss_dir ss0" "cg_reservation (ss_cleanup ss) = None"
    "roomy L w0 ?u w"
    using at False by (simp_all add: buffering_def s Let_def)
  have "metadata_bytes X (ss_dir ss) \<le> unat L" using room ss(2) by simp
  then obtain p q m where fits: "checked_add (path_capacity X (ss_dir ss)) 128 = Some p" "checked_mul p 256 = Some q"
    "checked_add q (size_of_session X) = Some m" "unat m = metadata_bytes X (ss_dir ss)"
    by (rule metadata_fits)
  have "?u + unat m \<le> unat L" using room fits(4) ss(2) s by simp
  then obtain w' where w': "reserve m w = (Inr m, w')" "roomy L w0 (?u + unat m) w'"
    using roomy_reserve [OF ss(4)] by blast
  let ?ss' = "ss\<lparr>ss_cleanup := (ss_cleanup ss)\<lparr>cg_reservation := Some m\<rparr>, ss_metadata_reserved := True\<rparr>"
  have "reserve_metadata X s = (Inr (), (?ss', w'))"
    using ss(1,3) by (simp add: s reserve_metadata_def fits ok_or_def ret_def step_simps w'(1)
        guard_retain_def updating_def modify_def attempt_def)
  moreover have "buffering X ss0 L w0 xs extra (?ss', w')"
    using at w'(2) ss(2) fits(4) unfolding buffering_def s Let_def by (simp add: ac_simps)
  ultimately show ?thesis by (simp add: s)
qed

text \<open>With a limit above what the rows take, nothing is spilled.\<close>

lemma buffer_limit_buffering:
  assumes "buffering X ss0 L w0 xs extra s"
  shows "\<exists>l s'. buffer_limit s = (Inr l, s') \<and> plan_limit (ss_plan ss0) L \<le> l
    \<and> buffering X ss0 L w0 xs extra s' \<and> fst s' = fst s"
proof -
  obtain ss w where s: "s = (ss, w)" by fastforce
  obtain u where u: "roomy L w0 u w" using assms by (auto simp: buffering_def s Let_def)
  obtain l w' where l: "limit_now w = (Inr l, w')" "L \<le> l" "\<And>u. roomy L w0 u w \<Longrightarrow> roomy L w0 u w'"
  proof -
    obtain l w' where "limit_now w = (Inr l, w')" "L \<le> l" "roomy L w0 u w'"
      using roomy_limit [OF u] by blast
    moreover have "u' = u" if "roomy L w0 u' w" for u'
      using roomy_held [OF that] roomy_held [OF u] by simp
    ultimately show thesis using that by blast
  qed
  have "buffer_limit s = (Inr (plan_limit (ss_plan ss) l), (ss, w'))"
    by (simp add: buffer_limit_def s step_simps l(1) plan_limit_def ret_def Let_def)
  moreover have "buffering X ss0 L w0 xs extra (ss, w')" "ss_plan ss = ss_plan ss0"
    using assms l(3) by (simp_all add: buffering_def s Let_def)
  ultimately show ?thesis
    using plan_limit_mono [OF l(2), of "ss_plan ss0"] by (simp add: s)
qed

lemma spill_before_buffering:
  assumes at: "buffering X ss0 L w0 xs extra s"
    and small: "sum_list (map (taken_bytes X) xs) + unat b < unat (plan_limit (ss_plan ss0) L)"
  shows "\<exists>s'. spill_before X b s = (Inr (), s') \<and> buffering X ss0 L w0 xs extra s' \<and> fst s' = fst s"
proof (cases "ss_buffer (fst s) = []")
  case True
  then show ?thesis using at by (simp add: spill_before_def ret_def)
next
  case False
  have bytes: "unat (ss_buffer_bytes (fst s)) = sum_list (map (taken_bytes X) xs)"
    using at by (simp add: buffering_def Let_def)
  then obtain after where after: "checked_add (ss_buffer_bytes (fst s)) b = Some after"
    "unat after = sum_list (map (taken_bytes X) xs) + unat b"
    using checked_add_fits [of "ss_buffer_bytes (fst s)" b "plan_limit (ss_plan ss0) L"] small by auto
  obtain l s' where l: "buffer_limit s = (Inr l, s')" "plan_limit (ss_plan ss0) L \<le> l"
    "buffering X ss0 L w0 xs extra s'" "fst s' = fst s"
    using buffer_limit_buffering [OF at] by blast
  have "\<not> l < after" using l(2) small after(2) by (simp add: word_le_nat_alt word_less_nat_alt)
  then have "spill_before X b s = (Inr (), s')"
    using False by (simp add: spill_before_def after(1) step_simps l(1) ret_def)
  then show ?thesis using l(3,4) by blast
qed

lemma spill_after_buffering:
  assumes at: "buffering X ss0 L w0 xs extra s"
    and small: "sum_list (map (taken_bytes X) xs) < unat (plan_limit (ss_plan ss0) L)"
  shows "\<exists>s'. spill_after X s = (Inr (), s') \<and> buffering X ss0 L w0 xs extra s' \<and> fst s' = fst s"
proof -
  obtain l s' where l: "buffer_limit s = (Inr l, s')" "plan_limit (ss_plan ss0) L \<le> l"
    "buffering X ss0 L w0 xs extra s'" "fst s' = fst s"
    using buffer_limit_buffering [OF at] by blast
  have "unat (ss_buffer_bytes (fst s')) = sum_list (map (taken_bytes X) xs)"
    using l(3) by (simp add: buffering_def Let_def)
  then have "\<not> l \<le> ss_buffer_bytes (fst s')" using l(2) small by (simp add: word_le_nat_alt)
  then have "spill_after X s = (Inr (), s')"
    by (simp add: spill_after_def step_simps l(1) ret_def)
  then show ?thesis using l(3,4) by blast
qed

section \<open>The buffer grows\<close>

lemma doubled_fits:
  fixes c r :: u64
  assumes "unat c = n" "0 < r" "k + 3 * Suc n * unat r \<le> unat (L :: u64)"
  obtains cap bytes where "checked_mul (max c 1) 2 = Some cap" "unat cap = max n 1 * 2"
    "checked_mul cap r = Some bytes" "unat bytes = max n 1 * 2 * unat r" "k + n * unat r + unat bytes \<le> unat L"
proof -
  have r: "0 < unat r" using assms(2) by (simp add: word_less_nat_alt)
  have "(max n 1 * 2 + n) * unat r \<le> 3 * Suc n * unat r"
    by (rule mult_le_mono1) simp
  then have grown: "k + n * unat r + max n 1 * 2 * unat r \<le> unat L"
    using assms(3) unfolding add_mult_distrib by linarith
  have c: "unat (max c 1) = max n 1" using assms(1) by (simp add: unat_max)
  have "max n 1 * 2 * 1 \<le> max n 1 * 2 * unat r" by (rule mult_le_mono2) (use r in simp)
  then have "max n 1 * 2 \<le> unat L" using grown by linarith
  then have "unat (max c 1) * unat (2 :: u64) \<le> unat L" unfolding c by simp
  from checked_mul_fits [OF this]
  obtain cap where cap: "checked_mul (max c 1) 2 = Some cap" "unat cap = max n 1 * 2"
    unfolding c by auto
  have "unat cap * unat r \<le> unat L" using grown unfolding cap(2) by linarith
  then obtain bytes where "checked_mul cap r = Some bytes" "unat bytes = max n 1 * 2 * unat r"
    using checked_mul_fits unfolding cap(2) by (metis cap(2))
  then show thesis using that [OF cap] grown by simp
qed

lemma grow_buffering:
  assumes at: "buffering X ss0 L w0 xs extra s" and exact: "\<And>n. vec_capacity X n = n"
    and size: "0 < size_of_row X"
    and used: "ss_metadata_reserved (fst s)" "unat (ss_capacity (fst s)) \<le> 2 * length xs"
    and room: "unat (held_bytes w0) + metadata_bytes X (ss_dir ss0) + sum_list (map (taken_bytes X) xs)
      + extra + 3 * Suc (length xs) * unat (size_of_row X) \<le> unat L"
  shows "\<exists>s'. grow_buffer X s = (Inr (), s') \<and> buffering X ss0 L w0 xs extra s'
    \<and> ss_metadata_reserved (fst s')
    \<and> Suc (length xs) \<le> unat (ss_capacity (fst s')) \<and> unat (ss_capacity (fst s')) \<le> 2 * Suc (length xs)"
proof (cases "length xs < unat (ss_capacity (fst s))")
  case True
  then have "grow_buffer X s = (Inr (), s)"
    using at by (simp add: grow_buffer_def buffering_def Let_def ret_def)
  then show ?thesis using at True used by auto
next
  case False
  obtain ss w where s: "s = (ss, w)" by fastforce
  let ?r = "unat (size_of_row X)" and ?n = "length xs"
  let ?u = "unat (held_bytes w0) + metadata_bytes X (ss_dir ss0) + sum_list (map (taken_bytes X) xs) + extra"
  have ss: "unat (ss_capacity ss) = ?n" "length (ss_buffer ss) = ?n" "roomy L w0 (?u + ?n * ?r) w"
    "unat (charge_bytes (ss_buffer_charge ss)) = ?n * ?r"
    using at False used(1) unfolding buffering_def s Let_def by (simp_all add: ac_simps)
  obtain cap bytes where cap: "checked_mul (max (ss_capacity ss) 1) 2 = Some cap" "unat cap = max ?n 1 * 2"
    and bytes: "checked_mul cap (size_of_row X) = Some bytes" "unat bytes = max ?n 1 * 2 * ?r"
    and fits: "?u + ?n * ?r + unat bytes \<le> unat L"
    by (rule doubled_fits [OF ss(1) size room])
  obtain w1 where w1: "reserve bytes w = (Inr bytes, w1)" "roomy L w0 (?u + ?n * ?r + unat bytes) w1"
    using roomy_reserve [OF ss(3) fits] by blast
  let ?w2 = "release_opt (ss_buffer_charge ss) w1"
  have "roomy L w0 (?u + ?n * ?r + unat bytes - unat (charge_bytes (ss_buffer_charge ss))) ?w2"
    using w1(2) by (rule roomy_release) (simp add: ss(4))
  moreover have "?u + ?n * ?r + unat bytes - unat (charge_bytes (ss_buffer_charge ss)) = ?u + unat bytes"
    by (simp add: ss(4))
  ultimately have w2: "roomy L w0 (?u + unat bytes) ?w2" by (simp only:)
  let ?ss' = "ss\<lparr>ss_capacity := cap, ss_buffer_charge := Some bytes\<rparr>"
  have "grow_buffer X s = (Inr (), (?ss', ?w2))"
    using False ss(2) by (simp add: grow_buffer_def s cap(1) bytes(1) ok_or_def ret_def step_simps w1(1) exact
        updating_def modify_def)
  moreover have "?n \<le> unat cap" "unat bytes = unat cap * ?r" by (simp_all add: cap(2) bytes(2))
  then have "buffering X ss0 L w0 xs extra (?ss', ?w2)"
    using at w2 used(1) unfolding buffering_def s Let_def by (simp add: charge_bytes_def ac_simps)
  ultimately show ?thesis using cap(2) used(1) by (intro exI [of _ "(?ss', ?w2)"]) (simp add: s max_def)
qed

section \<open>A push\<close>

lemma add_row_buffering:
  assumes at: "buffering X ss0 L w0 xs (taken_bytes X (k, v, n)) s"
    and space: "Suc (length xs) \<le> unat (ss_capacity (fst s))" "Suc (length xs) < 2 ^ 64"
    and small: "sum_list (map (taken_bytes X) xs) + taken_bytes X (k, v, n) \<le> unat (L' :: u64)"
  shows "\<exists>s'. add_row X k v (max n (size_of_row X)) (max n (size_of_row X)) s = (Inr (), s')
    \<and> buffering X ss0 L w0 (xs @ [(k, v, n)]) 0 s'
    \<and> ss_metadata_reserved (fst s') = ss_metadata_reserved (fst s) \<and> ss_capacity (fst s') = ss_capacity (fst s)"
proof -
  let ?b = "max n (size_of_row X)"
  obtain ss w where s: "s = (ss, w)" by fastforce
  have ss: "unat (ss_next_row ss) = length xs" "unat (ss_buffer_bytes ss) = sum_list (map (taken_bytes X) xs)"
    using at by (simp_all add: buffering_def s Let_def)
  have b: "unat ?b = taken_bytes X (k, v, n)" by (simp add: taken_bytes_def)
  have row: "ss_next_row ss = of_nat (length xs)" unfolding ss(1) [symmetric] by simp
  obtain next_row where next_row: "checked_add (ss_next_row ss) 1 = Some next_row" "unat next_row = Suc (length xs)"
    using space(2) ss(1) by (auto simp: checked_add_def unat_word_ariths)
  obtain after where after: "checked_add (ss_buffer_bytes ss) ?b = Some after"
    "unat after = sum_list (map (taken_bytes X) xs) + taken_bytes X (k, v, n)"
    using checked_add_fits [of "ss_buffer_bytes ss" ?b L'] small unfolding ss(2) b by auto
  let ?ss' = "ss\<lparr>ss_next_row := next_row, ss_buffer := ss_buffer ss @ [charged_row X (length xs) (k, v, n)],
    ss_buffer_bytes := after\<rparr>"
  have "add_row X k v ?b ?b s = (Inr (), (?ss', w))"
    by (simp add: add_row_def s next_row(1) after(1) ok_or_def ret_def step_simps updating_def modify_def
        charged_row_def run_row_new_def row [symmetric])
  moreover have "map (\<lambda>i. charged_row X i ((xs @ [(k, v, n)]) ! i)) [0..<length xs]
      = map (\<lambda>i. charged_row X i (xs ! i)) [0..<length xs]"
    by (simp add: nth_append)
  then have "buffering X ss0 L w0 (xs @ [(k, v, n)]) 0 (?ss', w)"
    using at space(1) after(2) next_row(2) unfolding buffering_def s Let_def by (simp add: ac_simps)
  ultimately show ?thesis by (simp add: s)
qed

text \<open>What the rows, the buffer that holds them and the metadata take at most.\<close>

definition needed_bytes :: "('fs, 'h, 'k, 'v) ext \<Rightarrow> path \<Rightarrow> ('k \<times> 'v \<times> usize) list \<Rightarrow> nat" where
  "needed_bytes X dir xs = metadata_bytes X dir + sum_list (map (taken_bytes X) xs)
     + 3 * length xs * unat (size_of_row X)"

lemma push_buffering:
  assumes at: "buffering X ss0 L w0 xs 0 s" and cap: "unat (ss_capacity (fst s)) \<le> 2 * length xs"
    and exact: "\<And>n. vec_capacity X n = n" and size: "0 < size_of_row X"
    and room: "unat (held_bytes w0) + needed_bytes X (ss_dir ss0) (xs @ [(k, v, n)]) \<le> unat L"
    and small: "sum_list (map (taken_bytes X) (xs @ [(k, v, n)])) < unat (plan_limit (ss_plan ss0) L)"
  shows "\<exists>s'. push_with_size X k v n s = (Inr (), s') \<and> buffering X ss0 L w0 (xs @ [(k, v, n)]) 0 s'
    \<and> unat (ss_capacity (fst s')) \<le> 2 * length (xs @ [(k, v, n)])"
proof -
  let ?b = "max n (size_of_row X)" and ?r = "unat (size_of_row X)" and ?e = "taken_bytes X (k, v, n)"
  let ?u = "unat (held_bytes w0) + metadata_bytes X (ss_dir ss0) + sum_list (map (taken_bytes X) xs)"
  have b: "unat ?b = ?e" by (simp add: taken_bytes_def)
  have total: "?u + ?e + 3 * Suc (length xs) * ?r \<le> unat L"
    using room by (simp add: needed_bytes_def)
  have "unat (ss_capacity (fst s)) * ?r \<le> 3 * Suc (length xs) * ?r"
    by (rule mult_le_mono1) (use cap in simp)
  then have held: "?u + unat (ss_capacity (fst s)) * ?r + ?e \<le> unat L" using total by linarith
  have usable: "ensure_usable s = (Inr (), s)"
    using at by (simp add: ensure_usable_def buffering_def Let_def ret_def)
  have "?u + unat (ss_capacity (fst s)) * ?r + 0 \<le> unat L" using held by linarith
  then obtain ss1 w1 where 1: "reserve_metadata X s = (Inr (), (ss1, w1))" "buffering X ss0 L w0 xs 0 (ss1, w1)"
    "ss_metadata_reserved ss1" "ss_capacity ss1 = ss_capacity (fst s)"
    using metadata_buffering [OF at] by fastforce
  have "roomy L w0 (?u + unat (ss_capacity ss1) * ?r) w1"
    using 1(2,3) by (simp add: buffering_def Let_def)
  then obtain w2 where w2: "reserve ?b w1 = (Inr ?b, w2)" "roomy L w0 (?u + unat (ss_capacity ss1) * ?r + unat ?b) w2"
    using roomy_reserve [of L w0 _ w1 ?b] held unfolding b 1(4) by blast
  have 2: "buffering X ss0 L w0 xs ?e (ss1, w2)"
    using 1(2,3) w2(2) unfolding b by (simp add: buffering_def Let_def)
  have "sum_list (map (taken_bytes X) xs) + unat ?b < unat (plan_limit (ss_plan ss0) L)"
    using small unfolding b by simp
  then obtain s3 where 3: "spill_before X ?b (ss1, w2) = (Inr (), s3)" "buffering X ss0 L w0 xs ?e s3" "fst s3 = ss1"
    using spill_before_buffering [OF 2, of ?b] by auto
  have "unat (ss_capacity (fst s3)) \<le> 2 * length xs" "ss_metadata_reserved (fst s3)"
    using cap 1(3,4) 3(3) by simp_all
  then obtain s4 where 4: "grow_buffer X s3 = (Inr (), s4)" "buffering X ss0 L w0 xs ?e s4"
    "ss_metadata_reserved (fst s4)" "Suc (length xs) \<le> unat (ss_capacity (fst s4))"
    "unat (ss_capacity (fst s4)) \<le> 2 * Suc (length xs)"
    using grow_buffering [OF 3(2) exact size _ _ total] by blast
  have rows: "Suc (length xs) < 2 ^ 64" using 4(4) unat_u64 [of "ss_capacity (fst s4)"] by linarith
  have "sum_list (map (taken_bytes X) xs) + ?e \<le> unat L" using total by linarith
  then obtain s5 where 5: "add_row X k v ?b ?b s4 = (Inr (), s5)"
    "buffering X ss0 L w0 (xs @ [(k, v, n)]) 0 s5" "ss_capacity (fst s5) = ss_capacity (fst s4)"
    using add_row_buffering [OF 4(2,4) rows] by blast
  obtain s6 where 6: "spill_after X s5 = (Inr (), s6)" "buffering X ss0 L w0 (xs @ [(k, v, n)]) 0 s6" "fst s6 = fst s5"
    using spill_after_buffering [OF 5(2) small] by blast
  have "push_with_size X k v n s = (Inr (), s6)"
    by (simp add: push_with_size_def step_simps usable 1(1) Let_def w2(1) 3(1) 4(1) 5(1) 6(1))
  then show ?thesis using 6(2,3) 5(3) 4(5) by simp
qed

section \<open>All pushes, and the output\<close>

lemma pushes_buffering:
  assumes exact: "\<And>n. vec_capacity X n = n" and size: "0 < size_of_row X"
  shows "buffering X ss0 L w0 xs 0 s \<Longrightarrow> unat (ss_capacity (fst s)) \<le> 2 * length xs \<Longrightarrow>
    unat (held_bytes w0) + needed_bytes X (ss_dir ss0) (xs @ ys) \<le> unat L \<Longrightarrow>
    sum_list (map (taken_bytes X) (xs @ ys)) < unat (plan_limit (ss_plan ss0) L) \<Longrightarrow>
    \<exists>s'. push_all X ys s = (replicate (length ys) (Inr ()), s') \<and> buffering X ss0 L w0 (xs @ ys) 0 s'"
proof (induction ys arbitrary: xs s)
  case Nil
  then show ?case by simp
next
  case (Cons y ys)
  obtain k v n where y: "y = (k, v, n)" by (cases y) auto
  have part: "needed_bytes X (ss_dir ss0) (xs @ [y]) \<le> needed_bytes X (ss_dir ss0) (xs @ y # ys)"
    by (simp add: needed_bytes_def algebra_simps)
  obtain s1 where push: "push_with_size X k v n s = (Inr (), s1)"
    and at: "buffering X ss0 L w0 (xs @ [y]) 0 s1" "unat (ss_capacity (fst s1)) \<le> 2 * length (xs @ [y])"
    using push_buffering [OF Cons.prems(1,2) exact size, of k v n] Cons.prems(3,4) part unfolding y by fastforce
  show ?case
    using Cons.IH [OF at] Cons.prems(3,4) by (auto simp: y push)
qed

lemma buffering_rows:
  assumes "buffering X ss0 L w0 xs 0 s"
  shows "map pair_of (ss_buffer (fst s)) = map (\<lambda>(k, v, n). (k, v)) xs"
    and "sort_rows (ss_buffer (fst s)) = sort_key row_key (ss_buffer (fst s))"
proof -
  have rows: "ss_buffer (fst s) = map (\<lambda>i. charged_row X i (xs ! i)) [0..<length xs]"
    and few: "length xs < 2 ^ 64"
    using assms unat_u64 [of "ss_next_row (fst s)"] by (simp_all add: buffering_def Let_def)
  show "map pair_of (ss_buffer (fst s)) = map (\<lambda>(k, v, n). (k, v)) xs"
    unfolding rows by (rule nth_equalityI) (simp_all add: charged_row_def pair_of_def split_beta)
  have "map (\<lambda>r. unat (row_ordinal r)) ([] @ map stored (ss_buffer (fst s))) = [0..<length xs]"
    unfolding rows
    by (rule nth_equalityI) (use few in \<open>simp_all add: charged_row_def split_beta unsigned_of_nat take_bit_nat_eq_self\<close>)
  then show "sort_rows (ss_buffer (fst s)) = sort_key row_key (ss_buffer (fst s))"
    by (rule sort_rows_stable)
qed

lemma finish_buffering:
  assumes "buffering X ss0 L w0 xs 0 s"
  shows "\<exists>im. finish X s = (Inr (Buffered im), snd s) \<and> im_rows im = sort_rows (ss_buffer (fst s))
    \<and> im_last im = None \<and> im_dedup im = ss_dedup ss0"
  using assms by (cases s; cases "ss_plan (fst s)")
    (auto simp: buffering_def Let_def finish_def ensure_usable_def ret_def attempt_def updating_def modify_def
      in_memory_stream_def guard_take_reservation_def session_drop_def guard_drop_def rows_drop_def release_opt_def)

section \<open>Reading from memory touches nothing but the budget\<close>

definition only_budget :: "'fs world \<Rightarrow> 'fs world \<Rightarrow> bool" where
  "only_budget w w' \<longleftrightarrow> (\<exists>b. w' = w\<lparr>w_budget := b\<rparr>)"

interpretation quiet: frame only_budget
proof
  show "only_budget w w" for w :: "'a world"
    unfolding only_budget_def by (rule exI [of _ "w_budget w"]) simp
qed (auto simp: only_budget_def)

lemma quiet_release: "only_budget w (release_opt c w)"
  using quiet.refl [of w]
  by (cases c) (auto simp: only_budget_def release_opt_def release_def)

lemma quiet_rows_drop: "only_budget w (rows_drop rows w)"
  unfolding rows_drop_def
  by (induction rows arbitrary: w) (auto intro: quiet.refl quiet.trans quiet_release simp: row_drop_def)

lemma quiet_scan: "memory_stream_scan dedup prev rows w = (r, w') \<Longrightarrow> only_budget w w'"
proof (induction dedup prev rows w rule: memory_stream_scan.induct)
  case (2 dedup prev row rows w)
  have dropped: "only_budget w (row_drop row w)" by (simp add: row_drop_def quiet_release)
  show ?case
    using 2 dropped quiet.trans [OF dropped, of w'] quiet_release [of w "Option.bind prev snd"]
    by (auto split: if_splits)
qed (simp add: quiet.refl)

lemma quiet_memory_drop: "only_budget w (memory_stream_drop im w)"
  unfolding memory_stream_drop_def
  by (rule quiet.trans [OF _ quiet_release], rule quiet.trans [OF _ quiet_release],
      rule quiet.trans [OF _ quiet_release], rule quiet_rows_drop)

lemma quiet_next:
  assumes "memory_stream_next im w = (r, w')"
  shows "only_budget w w'"
proof -
  obtain q w1 where scan: "memory_stream_scan (im_dedup im) (im_last im) (im_rows im) w = (q, w1)"
    by (metis surj_pair)
  note start = quiet_scan [OF scan]
  show ?thesis
    using assms start quiet.trans [OF start quiet_memory_drop]
    by (auto simp: memory_stream_next_def scan split: option.splits)
qed

lemma quiet_drain: "drain_memory im w = (out, w') \<Longrightarrow> only_budget w w'"
proof (induction im w arbitrary: out rule: drain_memory.induct)
  case (1 im w)
  obtain r w1 where poll: "memory_stream_next im w = (r, w1)" by (metis surj_pair)
  note start = quiet_next [OF poll]
  show ?case
  proof (cases "\<exists>i im'. r = Inr (Yielded i im')")
    case True
    then obtain i im' where r: "r = Inr (Yielded i im')" by blast
    obtain later where "drain_memory im' w1 = (later, w')"
      using 1(2) unfolding drain_memory.simps [of im w] poll r by (simp split: prod.splits)
    from 1(1) [OF poll [symmetric] r refl this] show ?thesis using start by (rule quiet.trans [rotated])
  next
    case False
    then have "w' = w1"
      using 1(2) unfolding drain_memory.simps [of im w] poll by (simp split: sum.splits pulled.splits)
    then show ?thesis using start by simp
  qed
qed

text \<open>C8. A sort that fits succeeds. Given room in the budget, whatever its pressure source answers,
  for the rows, the buffer and the metadata, and rows that together stay below the buffer of
  the plan, every push returns, \<open>finish\<close> returns, and the stream yields the values of all rows in
  stable key order (with \<open>dedup\<close>, the first of each key) and ends without an error. The charged
  bytes are then as before, and nothing else of the world has changed: no file was touched, no
  permit taken and no operation awaited, so it makes no difference which operations would fail.\<close>

theorem small_sort_succeeds:
  assumes exact: "\<And>n. vec_capacity X n = n" and size: "0 < size_of_row X"
    and new: "session_new plan dir dedup = Inr ss"
    and limit: "headroom L (w_budget w0)"
    and room: "unat (held_bytes w0) + needed_bytes X dir xs \<le> unat L"
    and small: "sum_list (map (taken_bytes X) xs) < unat (plan_limit plan L)"
  shows "\<exists>s1 stream w2 w3.
    push_all X xs (ss, w0) = (replicate (length xs) (Inr ()), s1) \<and> finish X s1 = (Inr stream, w2)
    \<and> drain_sort X stream w2
        = ((map Inr (map snd (sorted_rows dedup fst (map (\<lambda>(k, v, n). (k, v)) xs))), None), w3)
    \<and> held_bytes w3 = held_bytes w0 \<and> w3 = w0\<lparr>w_budget := w_budget w3\<rparr>"
proof -
  have ss: "ss_plan ss = plan" "ss_dir ss = dir" "ss_dedup ss = dedup" "ss_capacity ss = 0"
    using new by (auto simp: session_new_def guard_set_fd_budget_def guard_disarmed_def)
  have "roomy L w0 (unat (held_bytes w0)) w0"
    unfolding roomy_def by (rule exI [of _ "w_budget w0"]) (simp add: limit held_bytes_def)
  then have start: "buffering X ss L w0 [] 0 (ss, w0)"
    using new by (auto simp: session_new_def guard_set_fd_budget_def guard_disarmed_def buffering_def Let_def charge_bytes_def)
  obtain s1 where push: "push_all X xs (ss, w0) = (replicate (length xs) (Inr ()), s1)"
    and at: "buffering X ss L w0 xs 0 s1"
    using pushes_buffering [OF exact size start] room small ss by fastforce
  obtain im where fin: "finish X s1 = (Inr (Buffered im), snd s1)"
    and im: "im_rows im = sort_rows (ss_buffer (fst s1))" "im_last im = None" "im_dedup im = dedup"
    using finish_buffering [OF at] ss(3) by auto
  obtain items e w3 where drained: "drain_memory im (snd s1) = ((items, e), w3)" by (metis surj_pair)
  have "items = map Inr (map row_value (sorted_rows dedup row_key (ss_buffer (fst s1))))" "e = None"
    using drain_memory_spec [OF drained] by (simp_all add: im buffering_rows(2) [OF at] sorted_rows_def)
  then have out: "drain_sort X (Buffered im) (snd s1)
      = ((map Inr (map snd (sorted_rows dedup fst (map (\<lambda>(k, v, n). (k, v)) xs))), None), w3)"
    using drained by (simp add: drain_sort_def sorted_rows_pairs buffering_rows(1) [OF at])
  have "held_bytes w3 = held_bytes w0"
    using budget_back [OF new_session_bytes [OF new] push fin] out by simp
  moreover have "only_budget w0 (snd s1)"
    using at by (auto simp: buffering_def Let_def roomy_def only_budget_def)
  then have "only_budget w0 w3" using quiet_drain [OF drained] by (rule quiet.trans)
  then have "w3 = w0\<lparr>w_budget := w_budget w3\<rparr>" by (auto simp: only_budget_def)
  ultimately show ?thesis using push fin out by blast
qed

end
