(* ===== verification/Reliable.thy ===== *)
theory Reliable
  imports SessionFrames SessionCalm
begin

text \<open>
  A sort over files that do not fail (src/engine/operation.rs, src/engine/codec.rs,
  src/engine/run.rs): which errors are left when every call on an existing file succeeds, the
  serializer accepts every row, permits are free and the caller stays. They are those of the
  budget and of exhausted counters; in particular a run is never missing, short or undecodable
  when it is read.
\<close>

section \<open>Files that do not fail\<close>

text \<open>A call fails only on a missing file, and a read also beyond the end of the file.\<close>

definition reliable_files ::
    "('fs, 'h, 'k, 'v) ext \<Rightarrow> ('fs \<Rightarrow> path \<Rightarrow> u8 list option)
      \<Rightarrow> ('h \<Rightarrow> path) \<Rightarrow> ('h \<Rightarrow> nat) \<Rightarrow> bool" where
  "reliable_files X view hpath hpos \<longleftrightarrow>
     (\<forall>p s m s'. fs_create X p s \<noteq> (Inl m, s')) \<and>
     (\<forall>p s m s'. fs_open X p s = (Inl m, s') \<longrightarrow> view s p = None) \<and>
     (\<forall>p s m s'. fs_open_append X p s = (Inl m, s') \<longrightarrow> view s p = None) \<and>
     (\<forall>p s m s'. fs_open_write_at_end X p s = (Inl m, s') \<longrightarrow> view s p = None) \<and>
     (\<forall>h n s m s'. fs_seek X h n s = (Inl m, s') \<longrightarrow> view s (hpath h) = None) \<and>
     (\<forall>h bs s m s'. fs_write_all X h bs s = (Inl m, s') \<longrightarrow> view s (hpath h) = None) \<and>
     (\<forall>h s m s'. fs_flush X h s = (Inl m, s') \<longrightarrow> view s (hpath h) = None) \<and>
     (\<forall>h n s m s' c. fs_read_exact X h n s = (Inl m, s') \<longrightarrow> view s (hpath h) = Some c \<longrightarrow> length c < hpos h + n) \<and>
     (\<forall>d s m s'. fs_ensure_dir X d s \<noteq> (Inl m, s')) \<and>
     (\<forall>p s m s'. fs_remove_if_exists X p s \<noteq> (Inl m, s')) \<and>
     (\<forall>d s m s'. fs_remove_dir_all X d s \<noteq> (Inl m, s'))"

text \<open>The serializer writes as much as it announces, without an error, and less than 4 GiB.\<close>

definition reliable_codec :: "('fs, 'h, 'k, 'v) ext \<Rightarrow> bool" where
  "reliable_codec X \<longleftrightarrow>
     (\<forall>x. snd (into_writer X Sizing x) = None \<and> snd (into_writer X Encoding x) = None
        \<and> length (concat (fst (into_writer X Sizing x))) = length (encoded X x)
        \<and> length (encoded X x) < 2 ^ 32)"

definition reliable ::
    "('fs, 'h, 'k, 'v) ext \<Rightarrow> ('fs \<Rightarrow> path \<Rightarrow> u8 list option)
      \<Rightarrow> ('h \<Rightarrow> path) \<Rightarrow> ('h \<Rightarrow> nat) \<Rightarrow> bool" where
  "reliable X view hpath hpos \<longleftrightarrow>
     ext_laws X view hpath hpos \<and> reliable_files X view hpath hpos \<and> reliable_codec X
     \<and> (\<forall>n. vec_capacity X n = n)"

lemma reliable_length: "reliable X view hpath hpos \<Longrightarrow> length (encoded X x) < 2 ^ 32"
  unfolding reliable_def reliable_codec_def by blast

lemma reliable_laws: "reliable X view hpath hpos \<Longrightarrow> ext_laws X view hpath hpos"
  by (simp add: reliable_def)

text \<open>The faults of a lack of memory, and of counters at their end.\<close>

definition scarce :: "fault \<Rightarrow> bool" where
  "scarce e \<longleftrightarrow> (case e of
     Raise err \<Rightarrow> (case err of
         RunLimit \<Rightarrow> True | MemoryBudget n a \<Rightarrow> True
       | Encode m \<Rightarrow> m = ''encoded record exceeds byte budget'' | _ \<Rightarrow> False)
   | _ \<Rightarrow> False)"

lemma scarce_simps [simp]: "scarce (Raise RunLimit)" "scarce (Raise (MemoryBudget n a))"
  "scarce (Raise (Encode ''encoded record exceeds byte budget''))" "\<not> scarce (Panic m)"
  by (simp_all add: scarce_def)

section \<open>Callers that stay\<close>

definition patient :: "'fs world \<Rightarrow> 'fs world \<Rightarrow> bool" where
  "patient w w' \<longleftrightarrow> (w_leaves w = [] \<longrightarrow> w_leaves w' = [])"

interpretation patient: frame patient
  by unfold_locales (auto simp: patient_def)

text \<open>A world in which an operation can start, and ends.\<close>

definition settled :: "'fs world \<Rightarrow> bool" where
  "settled w \<longleftrightarrow> 0 < w_permits w \<and> w_pending w = 0 \<and> w_leaves w = []"

lemma settled_step: "settled w \<Longrightarrow> same_permits w w' \<Longrightarrow> patient w w' \<Longrightarrow> settled w'"
  by (simp add: settled_def same_permits_def patient_def)

lemma patient_leaves: "w_leaves w' = w_leaves w \<Longrightarrow> patient w w'"
  by (simp add: patient_def)

lemma leaves_release [simp]: "w_leaves (release c w) = w_leaves w" "w_leaves (release_opt d w) = w_leaves w"
  "w_leaves (row_drop r w) = w_leaves w" "w_leaves (frame_drop fr w) = w_leaves w"
  by (simp_all add: release_def release_opt_def row_drop_def frame_drop_def split: option.splits)

lemma scope_leaves [simp]:
  "w_leaves (scope_start w) = w_leaves w" "w_leaves (io_guard_drop w) = w_leaves w"
  "w_leaves (permit_take w) = w_leaves w" "w_leaves (permit_drop w) = w_leaves w"
  by (simp_all add: scope_start_def io_guard_drop_def permit_take_def permit_drop_def)

lemma patient_basics:
  "keeps patient (reserve n)" "keeps patient limit_now" "keeps patient (io f)" "keeps patient caller_stays"
  "patient w (release c w)"
  by (auto simp: keeps_def patient_def reserve_def limit_now_eq io_def caller_stays_def
      split: prod.splits sum.splits list.splits)

lemma stays_patiently: "w_leaves w = [] \<Longrightarrow> caller_stays w = (Inr (), w)"
  by (simp add: caller_stays_def)

lemma patient_awaited: "keeps patient m \<Longrightarrow> keeps patient (awaited m)"
  unfolding awaited_def by (intro patient.keeps_intros patient_basics)

lemma patient_perform_reserved:
  assumes op: "keeps patient operation" and captured: "\<And>w. patient w (captured w)"
    and lost: "\<And>x w. patient w (lost x w)"
  shows "keeps patient (perform_reserved_with lost captured operation)"
proof (rule keepsI)
  fix w r w'
  assume run: "perform_reserved_with lost captured operation w = (r, w')"
  obtain q u where job: "operation (permit_take (scope_start w)) = (q, u)" by fastforce
  show "patient w w'"
    unfolding patient_def
  proof
    assume stays: "w_leaves w = []"
    then have "w_leaves (captured u) = []" "w_leaves (captured (scope_start w)) = []"
      using keepsD [OF op job] captured [of u] captured [of "scope_start w"] by (simp_all add: patient_def)
    then show "w_leaves w' = []"
      using run stays job
      by (simp add: perform_reserved_with_def Let_def stays_patiently ensuring_def split: if_splits)
        auto
  qed
qed

lemma patient_perform:
  assumes "keeps patient operation" and "\<And>w. patient w (captured w)" and "\<And>x w. patient w (lost x w)"
  shows "keeps patient (perform_with lost captured n m operation)"
  unfolding perform_with_def
  by (intro patient.keeps_intros patient_basics patient_perform_reserved assms)
    (rule patient.trans [OF assms(2) patient_basics(5)])

lemma reserve_scarce: "reserve n w = (Inl e, w') \<Longrightarrow> scarce e"
  by (auto simp: reserve_def budget_reserve_def Let_def split: prod.splits sum.splits option.splits if_splits)

text \<open>An operation of a settled world faults only where its body does, or for lack of memory.\<close>

lemma perform_scarce:
  assumes run: "perform_with lost captured n m operation w = (Inl e, w')" and settled: "settled w"
    and op: "keeps patient operation" and captured: "\<And>w. patient w (captured w)"
    and body: "\<And>u f u'. operation u = (Inl f, u') \<Longrightarrow> w_files u = w_files w \<Longrightarrow> scarce f"
  shows "scarce e"
proof -
  show ?thesis
    using run unfolding perform_with_def attempt_fault ok_or_fault ok_or_ok
  proof (elim disjE exE conjE, goal_cases)
    case (3 bytes u metadata u')
    have free: "0 < w_permits u'" "w_leaves u' = []" "w_files u' = w_files w"
      using 3 settled keepsD [OF reserve_same, of bytes w] keepsD [OF patient_basics(1), of bytes w]
      by (auto simp: settled_def same_but_budget_def patient_def)
    obtain q v where job: "operation (permit_take (scope_start u')) = (q, v)" by fastforce
    have "w_leaves v = []" using keepsD [OF op job] free(2) by (simp add: patient_def)
    then have "w_leaves (captured v) = []" using captured [of v] by (simp add: patient_def)
    then have "join_error q = Inl e"
      using 3 free job by (simp add: perform_reserved_with_def Let_def stays_patiently ensuring_def scope_start_def)
    then obtain f where "q = Inl f" "f = e \<or> (\<exists>m. f = Panic m)"
      by (auto simp: join_error_def split: sum.splits fault.splits)
    moreover from this have "scarce f" using body job free(3) by simp
    ultimately show ?thesis by auto
  qed (auto dest: reserve_scarce)
qed

section \<open>Encoding\<close>

lemma drive_counter_scarce:
  assumes "drive counter_write c bufs None = Inl m" "unat (counter_bytes c) + length (concat bufs) < 2 ^ 64"
  shows "m = ''encoded record exceeds byte budget''"
  using assms
proof (induction bufs arbitrary: c)
  case (Cons b bufs)
  let ?n = "counter_bytes c + of_nat (length b) :: usize"
  have fits: "unat (counter_bytes c) + length b < 2 ^ 64" using Cons.prems(2) by simp
  then have n: "unat ?n = unat (counter_bytes c) + length b"
    by (simp add: unat_word_ariths unat_of_nat)
  show ?case
  proof (cases "counter_limit c < ?n")
    case True
    then show ?thesis using Cons.prems(1) fits by (simp add: counter_write_def Let_def)
  next
    case False
    then have "counter_write c b = Inr (c\<lparr>counter_bytes := ?n\<rparr>)"
      using fits by (simp add: counter_write_def Let_def)
    then have "drive counter_write (c\<lparr>counter_bytes := ?n\<rparr>) bufs None = Inl m"
      using Cons.prems(1) by simp
    then show ?thesis by (rule Cons.IH) (use Cons.prems(2) n in simp)
  qed
qed simp

lemma drive_frame_fits:
  "length (fw_bytes fw) + length (concat bufs) \<le> unat (fw_limit fw) \<Longrightarrow>
    drive frame_writer_write fw bufs None = Inr (fw\<lparr>fw_bytes := fw_bytes fw @ concat bufs\<rparr>)"
proof (induction bufs arbitrary: fw)
  case (Cons b bufs)
  then have "frame_writer_write fw b = Inr (fw\<lparr>fw_bytes := fw_bytes fw @ b\<rparr>)"
    by (simp add: frame_writer_write_def)
  then show ?case using Cons.IH [of "fw\<lparr>fw_bytes := fw_bytes fw @ b\<rparr>"] Cons.prems by simp
qed simp

lemma encode_scarce:
  assumes R: "reliable X view hpath hpos" and run: "encode X value w = (Inl e, w')"
  shows "scarce e"
proof -
  obtain cs ds where writes: "into_writer X Sizing value = (cs, None)" "into_writer X Encoding value = (ds, None)"
    "length (concat cs) = length (concat ds)" "length (concat ds) < 2 ^ 32"
    using R unfolding reliable_def reliable_codec_def encoded_def by (metis prod.collapse)
  have sizing: "scarce f" if "or_raise Encode (drive counter_write \<lparr>counter_bytes = 0, counter_limit = l\<rparr> cs None) u
      = (Inl f, u')" for f l u u'
    using that drive_counter_scarce [of "\<lparr>counter_bytes = 0, counter_limit = l\<rparr>" cs] writes(3,4)
    by (auto simp: or_raise_def act_fault split: sum.splits)
  have frame: "scarce f" if "reserve_frame n u = (Inl f, u')" for f n u u'
    using that by (auto simp: reserve_frame_def act_fault dest: reserve_scarce)
  have written: "drive frame_writer_write \<lparr>fw_bytes = [], fw_limit = counter_bytes count\<rparr> ds None
      = Inr \<lparr>fw_bytes = concat ds, fw_limit = counter_bytes count\<rparr> \<and> length (concat ds) = unat (counter_bytes count)"
    if "drive counter_write \<lparr>counter_bytes = 0, counter_limit = l\<rparr> cs None = Inr count" for l count
    using drive_counter [OF that] drive_frame_fits [of "\<lparr>fw_bytes = [], fw_limit = counter_bytes count\<rparr>" ds] writes(3)
    by simp
  have exact: "vec_capacity X n = n" for n using R by (simp add: reliable_def)
  show ?thesis
    using run
    by (auto simp: encode_def act_fault act_ok limit_now_eq writes(1,2) exact dest: sizing frame)
      (auto simp: or_raise_def act_fault act_ok written split: sum.splits dest!: written)
qed

section \<open>Run files\<close>

lemma io_fault [act_fault]:
  "io f w = (Inl e, w') \<longleftrightarrow> (\<exists>m s. f (w_files w) = (Inl m, s) \<and> e = Raise (Io m) \<and> w' = w\<lparr>w_files := s\<rparr>)"
  by (auto simp: io_def split: prod.splits sum.splits)

lemma reliable_calls:
  assumes "reliable X view hpath hpos"
  shows "fs_create X p s = (Inl m, s') \<Longrightarrow> False"
    and "fs_open X p s = (Inl m, s') \<Longrightarrow> view s p = None"
    and "fs_open_append X p s = (Inl m, s') \<Longrightarrow> view s p = None"
    and "fs_open_write_at_end X p s = (Inl m, s') \<Longrightarrow> view s p = None"
    and "fs_seek X h n s = (Inl m, s') \<Longrightarrow> view s (hpath h) = None"
    and "fs_write_all X h bs s = (Inl m, s') \<Longrightarrow> view s (hpath h) = None"
    and "fs_flush X h s = (Inl m, s') \<Longrightarrow> view s (hpath h) = None"
    and "fs_read_exact X h k s = (Inl m, s') \<Longrightarrow> view s (hpath h) = Some c \<Longrightarrow> length c < hpos h + k"
    and "fs_ensure_dir X p s = (Inl m, s') \<Longrightarrow> False"
    and "fs_remove_if_exists X p s = (Inl m, s') \<Longrightarrow> False"
    and "fs_remove_dir_all X p s = (Inl m, s') \<Longrightarrow> False"
proof -
  have "reliable_files X view hpath hpos" using assms by (simp add: reliable_def)
  note F = this [unfolded reliable_files_def]
  show "fs_create X p s = (Inl m, s') \<Longrightarrow> False" using F by metis
  show "fs_open X p s = (Inl m, s') \<Longrightarrow> view s p = None" using F by metis
  show "fs_open_append X p s = (Inl m, s') \<Longrightarrow> view s p = None" using F by metis
  show "fs_open_write_at_end X p s = (Inl m, s') \<Longrightarrow> view s p = None" using F by metis
  show "fs_seek X h n s = (Inl m, s') \<Longrightarrow> view s (hpath h) = None" using F by metis
  show "fs_write_all X h bs s = (Inl m, s') \<Longrightarrow> view s (hpath h) = None" using F by metis
  show "fs_flush X h s = (Inl m, s') \<Longrightarrow> view s (hpath h) = None" using F by metis
  show "fs_read_exact X h k s = (Inl m, s') \<Longrightarrow> view s (hpath h) = Some c \<Longrightarrow> length c < hpos h + k"
    using F by metis
  show "fs_ensure_dir X p s = (Inl m, s') \<Longrightarrow> False" using F by metis
  show "fs_remove_if_exists X p s = (Inl m, s') \<Longrightarrow> False" using F by metis
  show "fs_remove_dir_all X p s = (Inl m, s') \<Longrightarrow> False" using F by metis
qed

text \<open>\<open>sound P m Q\<close>: started in \<open>P\<close>, \<open>m\<close> faults only for lack of memory, and returns in \<open>Q\<close>.\<close>

definition sound :: "('s \<Rightarrow> bool) \<Rightarrow> ('s, 'a) act \<Rightarrow> ('a \<Rightarrow> 's \<Rightarrow> bool) \<Rightarrow> bool" where
  "sound P m Q \<longleftrightarrow> (\<forall>s r t. P s \<longrightarrow> m s = (r, t) \<longrightarrow> (case r of Inl e \<Rightarrow> scarce e | Inr x \<Rightarrow> Q x t))"

lemma soundI:
  "(\<And>s e t. P s \<Longrightarrow> m s = (Inl e, t) \<Longrightarrow> scarce e) \<Longrightarrow> (\<And>s x t. P s \<Longrightarrow> m s = (Inr x, t) \<Longrightarrow> Q x t) \<Longrightarrow> sound P m Q"
  by (auto simp: sound_def split: sum.splits)

lemma sound_fault: "sound P m Q \<Longrightarrow> P s \<Longrightarrow> m s = (Inl e, t) \<Longrightarrow> scarce e"
  by (fastforce simp: sound_def)

lemma sound_weaken:
  "sound P m Q \<Longrightarrow> (\<And>s. P' s \<Longrightarrow> P s) \<Longrightarrow> (\<And>x s. Q x s \<Longrightarrow> Q' x s) \<Longrightarrow> sound P' m Q'"
  by (fastforce simp: sound_def split: sum.splits)

lemma sound_attempt: "sound P m Q \<Longrightarrow> (\<And>x. sound (Q x) (k x) R) \<Longrightarrow> sound P (attempt d m k) R"
  by (fastforce simp: sound_def attempt_def split: prod.splits sum.splits)

lemma sound_ret: "(\<And>s. P s \<Longrightarrow> Q x s) \<Longrightarrow> sound P (ret x) Q"
  by (simp add: sound_def ret_def)

lemma patient_encode: "keeps patient (encode X value)"
  unfolding encode_def reserve_frame_def
  by (intro patient.keeps_intros patient.keeps_or_raise patient_basics | simp add: split_beta
      patient.keeps_intros patient_basics)+

text \<open>An open file, positioned within what the file holds.\<close>

definition in_file ::
    "('fs \<Rightarrow> path \<Rightarrow> u8 list option) \<Rightarrow> ('h \<Rightarrow> path) \<Rightarrow> ('h \<Rightarrow> nat) \<Rightarrow> 'h \<Rightarrow> 'fs world \<Rightarrow> bool" where
  "in_file view hpath hpos h w \<longleftrightarrow> (\<exists>c. view (w_files w) (hpath h) = Some c \<and> hpos h \<le> length c)"

lemma sound_io:
  assumes R: "reliable X view hpath hpos"
  shows "sound (\<lambda>w. True) (io (fs_create X p)) (in_file view hpath hpos)"
    and "sound (\<lambda>w. view (w_files w) p \<noteq> None) (io (fs_open_append X p)) (in_file view hpath hpos)"
    and "sound (\<lambda>w. view (w_files w) p \<noteq> None) (io (fs_open_write_at_end X p)) (in_file view hpath hpos)"
    and "sound (in_file view hpath hpos h) (io (fs_seek X h 0)) (in_file view hpath hpos)"
    and "sound (in_file view hpath hpos h) (io (fs_write_all X h bs)) (in_file view hpath hpos)"
    and "sound (in_file view hpath hpos h) (io (fs_flush X h)) (\<lambda>_ _. True)"
proof -
  note L = reliable_laws [OF R]
  note calls = reliable_calls [OF R]
  show "sound (\<lambda>w. True) (io (fs_create X p)) (in_file view hpath hpos)"
    by (rule soundI) (auto simp: act_fault act_ok in_file_def dest: calls law_create [OF L])
  show "sound (\<lambda>w. view (w_files w) p \<noteq> None) (io (fs_open_append X p)) (in_file view hpath hpos)"
    by (rule soundI) (auto simp: act_fault act_ok in_file_def dest: calls law_append [OF L])
  show "sound (\<lambda>w. view (w_files w) p \<noteq> None) (io (fs_open_write_at_end X p)) (in_file view hpath hpos)"
    by (rule soundI) (auto simp: act_fault act_ok in_file_def dest: calls law_open_at_end [OF L])
  show "sound (in_file view hpath hpos h) (io (fs_seek X h 0)) (in_file view hpath hpos)"
  proof (rule soundI)
    fix w h' w'
    assume "in_file view hpath hpos h w" "io (fs_seek X h 0) w = (Inr h', w')"
    then show "in_file view hpath hpos h' w'"
      using law_seek(1) [OF L, of h 0 "w_files w"] law_seek(2) [OF L, of h 0 "w_files w" h']
      by (auto simp: act_ok in_file_def)
  qed (auto simp: act_fault in_file_def dest: calls)
  show "sound (in_file view hpath hpos h) (io (fs_write_all X h bs)) (in_file view hpath hpos)"
    by (rule soundI) (auto simp: act_fault act_ok in_file_def overwrite_def dest: calls law_write [OF L])
  show "sound (in_file view hpath hpos h) (io (fs_flush X h)) (\<lambda>_ _. True)"
    by (rule soundI) (auto simp: act_fault act_ok in_file_def dest: calls)
qed

lemma patient_io_chain:
  "(\<And>x. keeps patient (k x)) \<Longrightarrow> keeps patient (and_then (io f) k)"
  by (intro patient.keeps_intros patient_basics)

lemma perform_sound_scarce:
  assumes "perform_with lost captured n m operation w = (Inl e, w')" and "settled w"
    and "sound (\<lambda>u. P (w_files u)) operation Q" and "P (w_files w)"
    and "keeps patient operation" and "\<And>w. patient w (captured w)"
  shows "scarce e"
  using perform_scarce [OF assms(1,2,5,6)] sound_fault [OF assms(3)] assms(4) by metis

lemmas writer_chain = sound_attempt [OF sound_io(5)] sound_attempt [OF sound_io(6)]

lemma create_scarce:
  assumes R: "reliable X view hpath hpos" and run: "run_writer_create X p w = (Inl e, w')" and "settled w"
  shows "scarce e"
proof -
  let ?job = "and_then (io (fs_create X p)) (\<lambda>file.
        and_then (io (fs_write_all X file (u64_to_le_bytes 0))) (\<lambda>file.
        and_then (io (fs_flush X file)) (\<lambda>_. ret ())))"
  obtain u where "perform_with (\<lambda>_ w. w) (\<lambda>w. w) (size_of_future X CreateRun) (path_capacity X p) ?job w = (Inl e, u)"
    using run unfolding run_writer_create_def perform_def attempt_fault ret_fault by blast
  then show ?thesis
    by (rule perform_sound_scarce [where P = "\<lambda>_. True" and Q = "\<lambda>_ _. True"])
      (intro assms(3) sound_attempt [OF sound_io(1) [OF R]] writer_chain [OF R] sound_ret
        patient_io_chain patient.keeps_intros TrueI)+
qed

lemma write_row_scarce:
  assumes R: "reliable X view hpath hpos" and run: "run_writer_write_row X wr row w = (Inl e, w')" and "settled w"
    and at: "view (w_files w) (rw_path wr) \<noteq> None"
  shows "scarce e"
proof -
  let ?job = "\<lambda>bytes len. and_then (io (fs_open_append X (rw_path wr))) (\<lambda>file.
        and_then (io (fs_write_all X file (u32_to_le_bytes len))) (\<lambda>file.
        and_then (io (fs_write_all X file (u64_to_le_bytes (row_retained row)))) (\<lambda>file.
        and_then (io (fs_write_all X file bytes)) (\<lambda>file.
        and_then (io (fs_flush X file)) (\<lambda>_. ret ())))))"
  have job: "scarce f" if "perform_with (\<lambda>_ w. w) (release charge) n m (?job bytes len) u = (Inl f, u')"
    "settled u" "w_files u = w_files w" for charge n m bytes len u f u'
    using that(1,2)
  proof (rule perform_sound_scarce [where P = "\<lambda>s. view s (rw_path wr) \<noteq> None" and Q = "\<lambda>_ _. True"])
    show "view (w_files u) (rw_path wr) \<noteq> None" using at that(3) by simp
  qed (intro sound_attempt [OF sound_io(2) [OF R]] writer_chain [OF R] sound_ret
        patient_io_chain patient.keeps_intros TrueI patient_basics)+
  have after: "settled u \<and> w_files u = w_files w" if "encode X x w = (Inr v, u)" for x v and u
    using keepsD [OF encode_frames(1) that] keepsD [OF patient_encode that] settled_step [OF assms(3)]
    by (simp add: same_but_budget_def same_permits_def)
  have fits: "length_u32 bytes \<noteq> None" if "encode X (payload row) w = (Inr (bytes, charge), u)" for bytes charge u
    using encode_result [OF that] reliable_length [OF R] by (simp add: length_u32_def)
  show ?thesis
    using run encode_scarce [OF R, of "payload row" w] fits after [of "payload row"] job
    unfolding run_writer_write_row_def perform_def
    by (auto simp: attempt_fault ok_or_fault ok_or_ok ret_fault)
qed

lemma finish_scarce:
  assumes R: "reliable X view hpath hpos" and run: "run_writer_finish X wr w = (Inl e, w')" and "settled w"
    and at: "view (w_files w) (rw_path wr) \<noteq> None"
  shows "scarce e"
proof -
  let ?job = "and_then (io (fs_open_write_at_end X (rw_path wr))) (\<lambda>file.
        and_then (io (fs_seek X file 0)) (\<lambda>file.
        and_then (io (fs_write_all X file (u64_to_le_bytes (rw_count wr)))) (\<lambda>file.
        and_then (io (fs_flush X file)) (\<lambda>_. ret ()))))"
  obtain u where "perform_with (\<lambda>_ w. w) (\<lambda>w. w) (size_of_future X FinishRun) (path_capacity X (rw_path wr)) ?job w
      = (Inl e, u)"
    using run unfolding run_writer_finish_def perform_def attempt_fault ret_fault by blast
  then show ?thesis
  proof (rule perform_sound_scarce [where P = "\<lambda>s. view s (rw_path wr) \<noteq> None" and Q = "\<lambda>_ _. True"])
    show "view (w_files w) (rw_path wr) \<noteq> None" by (rule at)
  qed (intro assms(3) sound_attempt [OF sound_io(3) [OF R]] sound_attempt [OF sound_io(4) [OF R]] writer_chain [OF R]
        sound_ret patient_io_chain patient.keeps_intros TrueI)+
qed

section \<open>Reading runs back\<close>

text \<open>The file at \<open>p\<close>, which holds \<open>c\<close>, opened and read up to \<open>k\<close>.\<close>

definition at_byte ::
    "('fs \<Rightarrow> path \<Rightarrow> u8 list option) \<Rightarrow> ('h \<Rightarrow> path) \<Rightarrow> ('h \<Rightarrow> nat) \<Rightarrow> path \<Rightarrow> u8 list \<Rightarrow> nat \<Rightarrow> 'h
      \<Rightarrow> 'fs world \<Rightarrow> bool" where
  "at_byte view hpath hpos p c k h w \<longleftrightarrow> view (w_files w) p = Some c \<and> hpath h = p \<and> hpos h = k"

lemma sound_reads:
  assumes R: "reliable X view hpath hpos"
  shows "sound (\<lambda>w. view (w_files w) p = Some c) (io (fs_open X p)) (at_byte view hpath hpos p c 0)"
    and "sound (at_byte view hpath hpos p c k h) (io (fs_seek X h n)) (at_byte view hpath hpos p c (unat n))"
    and "k + m \<le> length c \<Longrightarrow> sound (at_byte view hpath hpos p c k h) (io (fs_read_exact X h m))
      (\<lambda>(bs, h') w. at_byte view hpath hpos p c (k + m) h' w \<and> bs = take m (drop k c))"
proof -
  note L = reliable_laws [OF R]
  note calls = reliable_calls [OF R]
  show "sound (\<lambda>w. view (w_files w) p = Some c) (io (fs_open X p)) (at_byte view hpath hpos p c 0)"
    by (rule soundI) (auto simp: act_fault act_ok at_byte_def dest: calls law_open [OF L])
  show "sound (at_byte view hpath hpos p c k h) (io (fs_seek X h n)) (at_byte view hpath hpos p c (unat n))"
  proof (rule soundI)
    fix w h' w'
    assume "at_byte view hpath hpos p c k h w" "io (fs_seek X h n) w = (Inr h', w')"
    then show "at_byte view hpath hpos p c (unat n) h' w'"
      using law_seek(1) [OF L, of h n "w_files w"] law_seek(2) [OF L, of h n "w_files w" h']
      by (auto simp: act_ok at_byte_def)
  qed (auto simp: act_fault at_byte_def dest: calls)
  show "sound (at_byte view hpath hpos p c k h) (io (fs_read_exact X h m))
      (\<lambda>(bs, h') w. at_byte view hpath hpos p c (k + m) h' w \<and> bs = take m (drop k c))" if "k + m \<le> length c"
  proof (rule soundI)
    fix w x w'
    assume at: "at_byte view hpath hpos p c k h w" and run: "io (fs_read_exact X h m) w = (Inr x, w')"
    obtain bs h' where x: "x = (bs, h')" by (cases x)
    have "fs_read_exact X h m (w_files w) = (Inr (bs, h'), w_files w')"
      using run x by (auto simp: act_ok)
    then show "(case x of (bs, h') \<Rightarrow> \<lambda>w. at_byte view hpath hpos p c (k + m) h' w \<and> bs = take m (drop k c)) w'"
      using at x law_read(1) [OF L] law_read(2) [OF L] by (fastforce simp: at_byte_def)
  qed (use that in \<open>auto simp: act_fault at_byte_def dest: calls(8)\<close>)
qed

lemma open_scarce:
  assumes R: "reliable X view hpath hpos" and run: "run_reader_open X p w = (Inl e, w')" and "settled w"
    and at: "holds_run X (view (w_files w)) p rows"
  shows "scarce e"
proof -
  let ?c = "run_image X (of_nat (length rows)) rows"
  let ?job = "and_then (io (fs_open X p)) (\<lambda>file.
        and_then (io (fs_read_exact X file 8)) (\<lambda>(count, file). ret (u64_from_le_bytes count)))"
  have c: "view (w_files w) p = Some ?c" "0 + 8 \<le> length ?c"
    using at by (simp_all add: holds_run_def run_image_def)
  obtain u where "perform_with (\<lambda>_ w. w) (\<lambda>w. w) (size_of_future X OpenRun) (path_capacity X p) ?job w = (Inl e, u)"
    using run unfolding run_reader_open_def perform_def attempt_fault ret_fault by blast
  then show ?thesis
  proof (rule perform_sound_scarce [where P = "\<lambda>s. view s p = Some ?c" and Q = "\<lambda>_ _. True"])
    show "sound (\<lambda>u. view (w_files u) p = Some ?c) ?job (\<lambda>_ _. True)"
      by (rule sound_attempt [OF sound_reads(1) [OF R]], rule sound_attempt [OF sound_reads(3) [OF R c(2)]])
        (auto intro: sound_ret)
    show "keeps patient ?job"
      by (intro patient_io_chain) (auto intro: patient.keeps_intros)
  qed (use c(1) assms(3) patient.refl in auto)
qed

lemma sound_reserve:
  "sound (at_byte view hpath hpos p c k h) (reserve n) (\<lambda>_. at_byte view hpath hpos p c k h)"
  "sound (at_byte view hpath hpos p c k h) (reserve_frame n) (\<lambda>_. at_byte view hpath hpos p c k h)"
proof -
  have "scarce e" if "reserve_frame n w = (Inl e, w')" for e and w w' :: "'fs world"
    using that by (auto simp: reserve_frame_def act_fault dest: reserve_scarce)
  then show "sound (at_byte view hpath hpos p c k h) (reserve_frame n) (\<lambda>_. at_byte view hpath hpos p c k h)"
    by (intro soundI) (auto simp: at_byte_def dest: files_reserve_frame)
  show "sound (at_byte view hpath hpos p c k h) (reserve n) (\<lambda>_. at_byte view hpath hpos p c k h)"
    by (intro soundI) (auto simp: at_byte_def dest: files_reserve reserve_scarce)
qed

lemma read_frame_sound:
  assumes R: "reliable X view hpath hpos" and c: "drop (unat offset) c = frame_of X r @ beyond_it"
  shows "sound (\<lambda>w. view (w_files w) p = Some c) (read_frame X p offset) (\<lambda>_ _. True)"
proof -
  let ?e = "encoded X (payload r)" and ?at = "at_byte view hpath hpos p c"
  have short: "unat (of_nat (length ?e) :: u32) = length ?e"
    using reliable_length [OF R, of "payload r"] by (simp add: unat_of_nat)
  have "length (drop (unat offset) c) = 12 + length ?e + length beyond_it"
    unfolding c by (simp add: frame_of_def)
  then have len: "unat offset + 4 \<le> length c" "unat offset + 4 + 8 \<le> length c"
    "unat offset + 4 + 8 + length ?e \<le> length c"
    by simp_all
  have header: "take 4 (drop (unat offset) c) = u32_to_le_bytes (of_nat (length ?e))"
    unfolding c by (simp add: frame_of_def)
  have tail: "sound (\<lambda>w. ?at (unat offset + 4 + 8) h w) (and_then (reserve m) (\<lambda>row_charge.
        attempt (release row_charge) (reserve_frame (ucast (of_nat (length ?e) :: u32))) (\<lambda>frame_charge.
        attempt (\<lambda>w. release row_charge (release frame_charge w))
          (io (fs_read_exact X h (unat (ucast (of_nat (length ?e) :: u32) :: usize)))) (\<lambda>(bytes, file).
        ret \<lparr>fr_bytes = bytes, fr_retained = y,
             fr_row_charge = row_charge, fr_frame_charge = frame_charge\<rparr>)))) (\<lambda>_ _. True)" for h m y
  proof (rule sound_attempt [OF sound_reserve(1)], rule sound_attempt [OF sound_reserve(2)], rule sound_attempt)
    show "sound (?at (unat offset + 4 + 8) h) (io (fs_read_exact X h (unat (ucast (of_nat (length ?e) :: u32) :: usize))))
        (\<lambda>(bs, h') w. ?at (unat offset + 4 + 8 + length ?e) h' w \<and> bs = take (length ?e) (drop (unat offset + 4 + 8) c))"
      using sound_reads(3) [OF R len(3)] by (simp add: short)
  qed (auto intro: sound_ret)
  show ?thesis
    unfolding read_frame_def Let_def
  proof (rule sound_attempt [OF sound_reads(1) [OF R]], rule sound_attempt [OF sound_reads(2) [OF R]],
      rule sound_attempt [OF sound_reads(3) [OF R len(1)]])
    show "sound (\<lambda>w. (case x of (bs, h') \<Rightarrow> \<lambda>w. ?at (unat offset + 4) h' w \<and> bs = take 4 (drop (unat offset) c)) w)
      (case x of (len_bytes, file) \<Rightarrow> and_then (io (fs_read_exact X file 8)) (\<lambda>(weight, file).
        and_then (reserve (max (u64_from_le_bytes weight) (size_of_row X))) (\<lambda>row_charge.
        attempt (release row_charge) (reserve_frame (ucast (u32_from_le_bytes len_bytes))) (\<lambda>frame_charge.
        attempt (\<lambda>w. release row_charge (release frame_charge w))
          (io (fs_read_exact X file (unat (ucast (u32_from_le_bytes len_bytes) :: usize)))) (\<lambda>(bytes, file).
        ret \<lparr>fr_bytes = bytes, fr_retained = u64_from_le_bytes weight,
             fr_row_charge = row_charge, fr_frame_charge = frame_charge\<rparr>))))) (\<lambda>_ _. True)" for x
    proof (cases "fst x = take 4 (drop (unat offset) c)")
      case False
      then show ?thesis by (cases x) (simp add: sound_def)
    next
      case True
      then obtain h where x: "x = (u32_to_le_bytes (of_nat (length ?e)), h)"
        using header by (cases x) simp
      show ?thesis
        unfolding x prod.case u32_le_roundtrip
      proof (rule sound_attempt)
        show "sound (\<lambda>w. ?at (unat offset + 4) h w \<and> u32_to_le_bytes (of_nat (length ?e)) = take 4 (drop (unat offset) c))
            (io (fs_read_exact X h 8)) (\<lambda>(bs, h') w. ?at (unat offset + 4 + 8) h' w)"
          by (rule sound_weaken [OF sound_reads(3) [OF R len(2)]]) auto
        show "sound ((case y of (bs, h') \<Rightarrow> \<lambda>w. ?at (unat offset + 4 + 8) h' w))
            (case y of (weight, file) \<Rightarrow> and_then (reserve (max (u64_from_le_bytes weight) (size_of_row X))) (\<lambda>row_charge.
              attempt (release row_charge) (reserve_frame (ucast (of_nat (length ?e) :: u32))) (\<lambda>frame_charge.
              attempt (\<lambda>w. release row_charge (release frame_charge w))
                (io (fs_read_exact X file (unat (ucast (of_nat (length ?e) :: u32) :: usize)))) (\<lambda>(bytes, file).
              ret \<lparr>fr_bytes = bytes, fr_retained = u64_from_le_bytes weight,
                   fr_row_charge = row_charge, fr_frame_charge = frame_charge\<rparr>)))) (\<lambda>_ _. True)" for y
          by (cases y) (simp only: prod.case tail)
      qed
    qed
  qed
qed

lemma patient_read_frame: "keeps patient (read_frame X p offset)"
  unfolding read_frame_def Let_def reserve_frame_def split_beta
  by (intro patient.keeps_intros patient_basics patient_leaves) simp

lemma or_raise_fault [act_fault]: "or_raise g r s = (Inl e, t) \<longleftrightarrow> (\<exists>m. r = Inl m \<and> e = Raise (g m) \<and> t = s)"
  by (auto simp: or_raise_def ret_fault fail_fault split: sum.splits)

lemma next_row_scarce:
  assumes R: "reliable X view hpath hpos" and run: "run_reader_next_row X rd w = (Inl e, w')" and settled: "settled w"
    and at: "reading_run X (view (w_files w)) rd rows"
  shows "scarce e"
proof -
  note L = reliable_laws [OF R]
  have left: "rd_remaining rd \<noteq> 0" using run by (auto simp: run_reader_next_row_def ret_fault)
  then obtain r rows' where rows: "rows = r # rows'"
    using at by (cases rows) (auto simp: reading_run_def unat_eq_zero)
  obtain c beyond_it where c: "view (w_files w) (rd_path rd) = Some c"
    "drop (unat (rd_offset rd)) c = frame_of X r @ frames_of X rows' @ beyond_it"
    using at by (auto simp: reading_run_def rows)
  have good: "good_row X r" using at by (simp add: reading_run_def rows)
  let ?read = "perform_with frame_drop (\<lambda>w. w) (size_of_future X ReadRow) (path_capacity X (rd_path rd))
    (read_frame X (rd_path rd) (rd_offset rd))"
  have read: "scarce f" if "?read w = (Inl f, u)" for f u
    using that settled read_frame_sound [OF R c(2), of "rd_path rd"] c(1)
    by (rule perform_sound_scarce [where P = "\<lambda>s. view s (rd_path rd) = Some c"])
      (simp_all add: patient_read_frame patient.refl)
  have decoded: "from_reader X (fr_bytes fr) = Inr (payload r)" if frame: "?read w = (Inr fr, u)" for fr u
  proof -
    obtain v v' where "read_frame X (rd_path rd) (rd_offset rd) v = (Inr fr, v')" "w_files v = w_files w"
      using perform_with_files [OF frame] by auto
    then have "fr_bytes fr = encoded X (payload r)"
      using read_frame_files [OF L _ _ _ good, of "rd_path rd" "rd_offset rd" v fr v' c] c by simp
    then show ?thesis using law_codec [OF L, of "payload r"] good by (simp add: good_row_def)
  qed
  show ?thesis
    using run left read decoded
    unfolding run_reader_next_row_def
    by (auto simp: attempt_fault ok_or_fault or_raise_fault modify_fault ret_fault split: prod.splits)
qed

section \<open>The engine leaves a patient caller patient\<close>

lemma patient_runs:
  "keeps patient (run_reader_open X p)" "keeps patient (run_reader_next_row X rd)"
  "keeps patient (run_writer_create X p)" "keeps patient (run_writer_write_row X wr row)"
  "keeps patient (run_writer_finish X wr)"
proof -
  have io: "keeps patient (perform (\<lambda>w. w) n m operation)" if "keeps patient operation" for n m operation
    unfolding perform_def using that by (rule patient_perform) (simp_all add: patient.refl)
  show "keeps patient (run_reader_open X p)" "keeps patient (run_writer_create X p)" "keeps patient (run_writer_finish X wr)"
    unfolding run_reader_open_def run_writer_create_def run_writer_finish_def split_beta
    by (intro patient.keeps_intros io patient_basics)+
  show "keeps patient (run_writer_write_row X wr row)"
    unfolding run_writer_write_row_def perform_def split_beta
    by (intro patient.keeps_intros patient_encode patient_perform patient_basics patient_leaves) simp_all
  show "keeps patient (run_reader_next_row X rd)"
    unfolding run_reader_next_row_def
    by (auto intro!: patient.keeps_intros patient.keeps_or_raise patient_perform patient_read_frame patient_leaves
        split: prod.splits)
qed

interpretation patient_engine: engine_frame patient X "\<lambda>_. True" for X :: "('fs, 'h, 'k::linorder, 'v) ext"
  by unfold_locales (auto intro: patient_basics patient_runs patient_awaited patient.trans)

lemma patient_detached: "patient w (snd (detached m w))"
  by (simp add: detached_def patient_def split: prod.splits)

lemma patient_guards:
  "guard_cleanup X (g, w) = (r, g', w') \<Longrightarrow> patient w w'" "patient w (guard_drop X rt g w)"
proof -
  have remove: "keeps patient (and_then scope_idle (\<lambda>_.
      if \<not> cg_fds g then fail (Panic ''armed scratch has a descriptor budget'')
      else perform_reserved (\<lambda>w. w) (io (fs_remove_dir_all X dir))))" for dir
  proof -
    have "keeps patient scope_idle" by (auto simp: keeps_def scope_idle_def patient_def)
    moreover have "keeps patient (perform_reserved (\<lambda>w. w) (io (fs_remove_dir_all X dir)))"
      unfolding perform_reserved_def
      by (rule patient_perform_reserved) (simp_all add: patient_basics patient.refl)
    ultimately show ?thesis by (auto intro!: patient.keeps_intros)
  qed
  show "guard_cleanup X (g, w) = (r, g', w') \<Longrightarrow> patient w w'"
    using keepsD [OF remove]
    by (auto simp: guard_cleanup_def patient_def patient.refl split: option.splits prod.splits sum.splits)
  show "patient w (guard_drop X rt g w)"
    by (simp add: guard_drop_def patient_def patient_detached [unfolded patient_def] split: option.splits)
qed

interpretation patient_session: session_engine patient X "\<lambda>_. True" "\<lambda>_. True" for X :: "('fs, 'h, 'k::linorder, 'v) ext"
proof unfold_locales
  show "keeps patient (perform (\<lambda>w. w) n m (io (fs_ensure_dir X d)))" for n m d
    unfolding perform_def by (rule patient_perform) (simp_all add: patient_basics patient.refl)
qed (auto intro: patient_basics patient_guards)

end
