(* ===== verification/ReliableMerge.thy ===== *)
theory ReliableMerge
  imports Reliable
begin

text \<open>
  The merge over files that do not fail (src/engine/merge.rs): it faults only for lack of memory.
\<close>

section \<open>Opening\<close>

lemma settled_keeps:
  "settled w \<Longrightarrow> keeps same_permits m \<Longrightarrow> keeps patient m \<Longrightarrow> m w = (r, w') \<Longrightarrow> settled w'"
  using settled_step keepsD by metis

lemma settled_reader:
  assumes "settled w"
  shows "run_reader_open X p w = (q, w') \<Longrightarrow> settled w'" "run_reader_next_row X rd w = (s, w') \<Longrightarrow> settled w'"
    "merge_source_open X p w = (t, w') \<Longrightarrow> settled w'" "reserve n w = (u, w') \<Longrightarrow> settled w'"
    "merge_state_open X ps dedup w = (v, w') \<Longrightarrow> settled w'"
  using settled_keeps [OF assms permit_engine.step_open patient_engine.step_open]
    settled_keeps [OF assms permit_engine.step_next patient_engine.step_next]
    settled_keeps [OF assms permit_engine.step_source_open patient_engine.step_source_open]
    settled_keeps [OF assms permit_engine.step_reserve patient_basics(1)]
    settled_keeps [OF assms permit_engine.step_state_open patient_engine.step_state_open]
  by blast+

lemma source_open_scarce:
  fixes X :: "('fs, 'h, 'k::linorder, 'v) ext"
  assumes R: "reliable X view hpath hpos" and run: "merge_source_open X p w = (Inl e, w')" and settled: "settled w"
    and at: "holds_run X (view (w_files w)) p l"
  shows "scarce e"
proof -
  consider (one) u where "run_reader_open X p w = (Inl e, u)"
    | (two) rd u u' where "run_reader_open X p w = (Inr rd, u)" "run_reader_next_row X rd u = (Inl e, u')"
    using run by (auto simp: merge_source_open_def attempt_fault ret_fault split: option.splits)
  then show ?thesis
  proof cases
    case one
    from open_scarce [OF R this settled at] show ?thesis .
  next
    case two
    have "reading_run X (view (w_files u)) rd l"
      using run_reader_open_spec [OF reliable_laws [OF R] two(1) at] by blast
    from next_row_scarce [OF R two(2) settled_reader(1) [OF settled two(1)] this] show ?thesis .
  qed
qed

lemma open_paths_scarce:
  assumes R: "reliable X view hpath hpos"
  shows "merge_open_paths X ps st w = (Inl e, w') \<Longrightarrow> settled w \<Longrightarrow> holds_runs X (view (w_files w)) ps ms \<Longrightarrow> scarce e"
proof (induction ps arbitrary: st w ms)
  case Nil
  then show ?case by (simp add: ret_fault)
next
  case (Cons p ps)
  obtain l ms' where ms: "ms = l # ms'" "holds_run X (view (w_files w)) p l" "holds_runs X (view (w_files w)) ps ms'"
    using Cons.prems(3) by auto
  show ?case
  proof (cases "merge_source_open X p w")
    case (Pair q w1)
    note settled = settled_reader(3) [OF Cons.prems(2) Pair]
    show ?thesis
    proof (cases q)
      case (Inl f)
      then show ?thesis
        using Cons.prems(1) Pair source_open_scarce [OF R _ Cons.prems(2) ms(2)] by (simp add: attempt_def)
    next
      case (Inr src)
      have v: "view (w_files w1) = view (w_files w)"
        using merge_source_open_spec [OF reliable_laws [OF R] Pair [unfolded Inr] ms(2)] by simp
      have more: "scarce e" if "merge_open_paths X ps st' w2 = (Inl e, w')" "settled w2" "w_files w2 = w_files w1" for st' w2
        using Cons.IH [OF that(1,2), of ms'] ms(3) v that(3) by simp
      show ?thesis
        using Cons.prems(1) Pair Inr more settled reserve_scarce settled_reader(4) [OF settled] files_reserve
        by (fastforce simp: attempt_def Let_def split: option.splits prod.splits sum.splits)
    qed
  qed
qed

lemma state_open_scarce:
  assumes R: "reliable X view hpath hpos" and run: "merge_state_open X ps dedup w = (Inl e, w')" and settled: "settled w"
    and at: "holds_runs X (view (w_files w)) ps ms"
  shows "scarce e"
proof -
  have exact: "vec_capacity X n = n" for n using R by (simp add: reliable_def)
  consider (fresh) u where "merge_state_new X (of_nat (length ps)) dedup w = (Inl e, u)"
    | (paths) st u where "merge_state_new X (of_nat (length ps)) dedup w = (Inr st, u)" "merge_open_paths X ps st u = (Inl e, w')"
    using run by (auto simp: merge_state_open_def attempt_fault)
  then show ?thesis
  proof cases
    case fresh
    then show ?thesis
      by (auto simp: merge_state_new_def exact attempt_fault ok_or_fault ret_fault dest: reserve_scarce)
  next
    case paths
    then obtain n c where c: "reserve n w = (Inr c, u)"
      by (auto simp: merge_state_new_def act_ok split: if_splits)
    show ?thesis
      using open_paths_scarce [OF R paths(2) settled_reader(4) [OF settled c]] at files_reserve [OF c] by simp
  qed
qed

section \<open>Turns\<close>

lemma take_head_scarce:
  assumes R: "reliable X view hpath hpos" and run: "take_head X i (st, w) = (Inl e, s')" and settled: "settled w"
    and at: "merge_without X (view (w_files w)) P i st ls" and l: "ls ! i = r # rs"
  shows "scarce e"
proof -
  obtain row where src: "src_head (ms_sources st ! i) = Some row"
    "reading_run X (view (w_files w)) (src_reader (ms_sources st ! i)) rs"
  proof -
    have "source_at X (view (w_files w)) (ms_sources st ! i) (ls ! i)" using at by (simp add: merge_without_def)
    then show ?thesis using that l by auto
  qed
  then obtain u where "run_reader_next_row X (src_reader (ms_sources st ! i)) w = (Inl e, u)"
    using run by (auto simp: take_head_def Let_def split: prod.splits sum.splits)
  from next_row_scarce [OF R this settled src(2)] show ?thesis .
qed

lemma charge_or_emit_scarce:
  "charge_key i row s = (Inl e, s') \<Longrightarrow> scarce e" "emit_or_skip row s = (Inl e, s') \<Longrightarrow> scarce e"
  by (cases s, auto simp: charge_key_def emit_or_skip_def Let_def dest: reserve_scarce
      split: option.splits prod.splits sum.splits if_splits)+

lemma merge_turn_scarce:
  fixes X :: "('fs, 'h, 'k::linorder, 'v) ext" and st :: "('k, 'v) merge_state" and w :: "'fs world"
  assumes R: "reliable X view hpath hpos" and run: "merge_turn X (st, w) = (Inl e, s')" and settled: "settled w"
    and at: "merge_at X (view (w_files w)) P st ls"
  shows "scarce e"
proof -
  obtain t q where pop: "heap_pop (ms_heap st) = Some (t, q)"
    using run by (cases "heap_pop (ms_heap st)") (auto simp: merge_turn_def)
  obtain i r rs where i: "he_idx t = i" "i < length ls" "ls ! i = r # rs"
    and q: "sorted q" "\<And>l. mset q = image_mset (front (ls[i := l])) (mset_set (busy ls - {i}))"
    using pop_front [OF at pop] by metis
  let ?s = "ms_sources st ! i"
  define st2 where
    "st2 = st\<lparr>ms_heap := q, ms_sources := (ms_sources st)[i := ?s\<lparr>src_key_charge := None\<rparr>]\<rparr>"
  have without: "merge_without X (view (w_files w)) P i st2 ls"
    using at i q by (auto simp: merge_without_def merge_at_def st2_def nth_list_update)
  have "settled (release_opt (src_key_charge ?s) w)"
    using settled settled_step permit_engine.step_release_opt patient_engine.step_release_opt by metis
  moreover have "i < length (ms_sources st)" using at i by (simp add: merge_at_def)
  then have "and_then (take_head X i) (\<lambda>row. and_then (charge_key i row) (\<lambda>_. emit_or_skip row))
      (st2, release_opt (src_key_charge ?s) w) = (Inl e, s')"
    using run pop i(1) unfolding st2_def by (simp add: merge_turn_def Let_def)
  then have "(\<exists>u. take_head X i (st2, release_opt (src_key_charge ?s) w) = (Inl e, u))
      \<or> (\<exists>row (v :: ('k, 'v) merge_state \<times> 'fs world) u. charge_key i row v = (Inl e, u))
      \<or> (\<exists>row (v :: ('k, 'v) merge_state \<times> 'fs world) u. emit_or_skip row v = (Inl e, u))"
    unfolding attempt_fault by blast
  ultimately show ?thesis
    using take_head_scarce [OF R _ _ _ i(3), of st2 "release_opt (src_key_charge ?s) w" e _ P] without
    by (auto dest: charge_or_emit_scarce)
qed

lemma settled_merge: "settled w \<Longrightarrow> merge_turn X (st, w) = (t, st', w') \<Longrightarrow> settled w'"
  "settled (snd s) \<Longrightarrow> settled (snd (snd (merge_next X s)))"
  "settled (snd s) \<Longrightarrow> settled (snd (snd (copy_rows X wr s)))"
  using settled_step permit_engine.step_turn patient_engine.step_turn permit_engine.step_merge_next
    patient_engine.step_merge_next permit_engine.step_copy_rows patient_engine.step_copy_rows
  by metis+

lemma merge_next_scarce:
  "reliable X view hpath hpos \<Longrightarrow> merge_next X s = (Inl e, s') \<Longrightarrow> settled (snd s) \<Longrightarrow>
    merge_at X (view (w_files (snd s))) P (fst s) ls \<Longrightarrow> scarce e"
proof (induction X s arbitrary: ls rule: merge_next.induct)
  case (1 X s)
  note R = 1(2)
  obtain st w where s: "s = (st, w)" by fastforce
  obtain q st1 w1 where turn: "merge_turn X (st, w) = (q, (st1, w1))" by (metis surj_pair)
  show ?case
  proof (cases q)
    case (Inl f)
    then have "f = e" using 1(3) turn s by (subst (asm) merge_next.simps) simp
    then show ?thesis using merge_turn_scarce [OF R turn [unfolded Inl]] 1(4,5) s by simp
  next
    case (Inr t)
    show ?thesis
    proof (cases t)
      case (Return r)
      then show ?thesis using 1(3) turn s Inr by (subst (asm) merge_next.simps) simp
    next
      case Continue
      then have rest: "merge_next X (st1, w1) = (Inl e, s')"
        using 1(3) turn s Inr by (subst (asm) merge_next.simps) simp
      obtain ls1 where "merge_at X (view (w_files w1)) P st1 ls1"
        using merge_turn_spec [OF reliable_laws [OF R] turn [unfolded Inr], of P ls] 1(5) s by auto
      then show ?thesis
        using 1(1) [OF turn [unfolded Inr, folded s, symmetric] refl Continue R rest, of ls1]
          settled_merge(1) [OF _ turn] 1(4) s by simp
    qed
  qed
qed

section \<open>Merging a group\<close>

lemma copy_rows_scarce:
  "reliable X view hpath hpos \<Longrightarrow> copy_rows X wr s = (Inl e, s') \<Longrightarrow> settled (snd s) \<Longrightarrow>
    merge_at X (view (w_files (snd s))) P (fst s) ls \<Longrightarrow>
    writing_run X (view (w_files (snd s))) wr rows \<Longrightarrow> rw_path wr \<notin> P \<Longrightarrow> scarce e"
proof (induction X wr s arbitrary: ls rows rule: copy_rows.induct)
  case (1 X wr s)
  note R = 1(2) and settled = 1(4) and at = 1(5) and writing = 1(6) and apart = 1(7)
  note L = reliable_laws [OF R]
  obtain q st w where next1: "merge_next X s = (q, (st, w))" by (metis surj_pair)
  have sw: "settled w" using settled_merge(2) [OF settled, of X] next1 by simp
  show ?case
  proof (cases q)
    case (Inl f)
    then have "f = e" using 1(3) next1 by (subst (asm) copy_rows.simps) simp
    then show ?thesis using merge_next_scarce [OF R next1 [unfolded Inl] settled at] by simp
  next
    case (Inr out)
    obtain ls' where step: "merge_at X (view (w_files w)) P st ls'" "view (w_files w) = view (w_files (snd s))"
      using merge_next_spec [OF L next1 [unfolded Inr] at] unfolding fst_conv snd_conv by blast
    show ?thesis
    proof (cases out)
      case None
      then show ?thesis using 1(3) next1 Inr by (subst (asm) copy_rows.simps) simp
    next
      case (Some r)
      obtain q1 w1 where put: "run_writer_write_row X wr r w = (q1, w1)" by (metis surj_pair)
      have there: "view (w_files w) (rw_path wr) \<noteq> None"
        using writing step(2) by (simp add: writing_run_def)
      show ?thesis
      proof (cases q1)
        case Inl2: (Inl f)
        then have "f = e" using 1(3) next1 Inr Some put by (subst (asm) copy_rows.simps) simp
        then show ?thesis using write_row_scarce [OF R put [unfolded Inl2] sw there] by simp
      next
        case Inr2: (Inr wr1)
        have more: "copy_rows X wr1 (st, row_drop r w1) = (Inl e, s')"
          using 1(3) next1 Inr Some put Inr2 by (subst (asm) copy_rows.simps) simp
        have put': "writing_run X (view (w_files w1)) wr1 (rows @ [stored r]) \<and> rw_path wr1 = rw_path wr
            \<and> only_at (rw_path wr) (view (w_files w)) (view (w_files w1))"
          using writing_row [OF L put [unfolded Inr2]] writing step(2) by simp
        have at1: "merge_at X (view (w_files w1)) P st ls'"
          by (rule merge_at_elsewhere [OF step(1)]) (use put' apart in \<open>metis only_at_def\<close>)
        have "settled (row_drop r w1)"
          using settled_keeps [OF sw permit_engine.step_write patient_engine.step_write put]
            settled_step permit_engine.step_row_drop patient_engine.step_row_drop by blast
        then show ?thesis
          using 1(1) [OF next1 [unfolded Inr, symmetric] refl refl Some put [unfolded Inr2, symmetric] refl R more _ , of ls' "rows @ [stored r]"]
            at1 put' apart by simp
      qed
    qed
  qed
qed

lemma awaited_remove_scarce:
  assumes R: "reliable X view hpath hpos" and "settled w"
  shows "awaited (io (fs_remove_if_exists X p)) w \<noteq> (Inl e, w')"
proof
  assume "awaited (io (fs_remove_if_exists X p)) w = (Inl e, w')"
  moreover have "w_leaves u = []" if "io (fs_remove_if_exists X p) w = (Inr x, u)" for x u
    using that assms(2) by (auto simp: act_ok settled_def)
  ultimately show False
    using reliable_calls(10) [OF R] by (auto simp: awaited_def act_fault stays_patiently)
qed

lemma remove_all_scarce:
  assumes R: "reliable X view hpath hpos"
  shows "settled w \<Longrightarrow> remove_all X ps w \<noteq> (Inl e, w')"
proof (induction ps arbitrary: w)
  case (Cons p ps)
  show ?case
  proof
    assume "remove_all X (p # ps) w = (Inl e, w')"
    then obtain x u where first: "awaited (io (fs_remove_if_exists X p)) w = (Inr x, u)"
      and rest: "remove_all X ps u = (Inl e, w')"
      using awaited_remove_scarce [OF R Cons.prems] by (auto simp: attempt_fault)
    have "settled u"
      by (rule settled_keeps [OF Cons.prems awaited_same_permits [OF io_same_permits] patient_awaited [OF patient_basics(3)] first])
    then show False using Cons.IH rest by blast
  qed
qed (simp add: ret_fault)

lemma merge_group_scarce:
  assumes R: "reliable X view hpath hpos" and run: "merge_group_to_file X ps out dedup w = (Inl e, w')"
    and settled: "settled w" and at: "holds_runs X (view (w_files w)) ps ms" and apart: "out \<notin> set ps"
  shows "scarce e"
proof (rule ccontr)
  assume bad: "\<not> scarce e"
  note L = reliable_laws [OF R]
  obtain st w1 where 1: "merge_state_open X ps dedup w = (Inr st, w1)"
    using run bad state_open_scarce [OF R _ settled at] unfolding merge_group_to_file_def attempt_fault by blast
  have s1: "settled w1" by (rule settled_reader(5) [OF settled 1])
  obtain wr w2 where 2: "run_writer_create X out w1 = (Inr wr, w2)"
    using run 1 bad create_scarce [OF R _ s1] by (auto simp: merge_group_to_file_def attempt_fault)
  have s2: "settled w2"
    by (rule settled_keeps [OF s1 permit_engine.step_create patient_engine.step_create 2]) simp_all
  obtain ls where st: "merge_at X (view (w_files w1)) (set ps) st ls"
    "view (w_files w1) = view (w_files w)" "pending st ls = sorted_rows dedup row_key (concat ms)"
    using merge_state_open_spec [OF L 1 at] by blast
  have wr: "writing_run X (view (w_files w2)) wr []" "rw_path wr = out"
    "only_at out (view (w_files w1)) (view (w_files w2))"
    using writing_create [OF L 2] by simp_all
  have at2: "merge_at X (view (w_files w2)) (set ps) st ls"
    using st(1) wr(3) apart by (auto simp: only_at_def intro: merge_at_elsewhere)
  obtain wr' st' w3 where 3: "copy_rows X wr (st, w2) = (Inr wr', (st', w3))"
  proof (cases "copy_rows X wr (st, w2)")
    case (fields q st' w3)
    show ?thesis
    proof (cases q)
      case (Inl f)
      then have "f = e" using run 1 2 fields by (simp add: merge_group_to_file_def attempt_def owning_def)
      then show ?thesis
        using copy_rows_scarce [OF R fields [unfolded Inl], of "set ps" ls "[]"] s2 at2 wr apart bad by simp
    qed (use fields that in simp)
  qed
  have s3: "settled w3" using settled_merge(3) [of "(st, w2)" X wr] s2 3 by simp
  have copied: "writing_run X (view (w_files w3)) wr' (pending st ls)" "rw_path wr' = out"
    using copy_rows_spec [OF L 3, of "set ps" ls "[]"] at2 wr apart by auto
  obtain q w4 where 4: "run_writer_finish X wr' w3 = (Inr q, w4)"
    using run 1 2 3 bad finish_scarce [OF R _ s3, of wr'] copied(1)
    by (cases "run_writer_finish X wr' w3"; cases "fst (run_writer_finish X wr' w3)")
      (auto simp: merge_group_to_file_def attempt_def owning_def writing_run_def)
  have "settled w4"
    by (rule settled_keeps [OF s3 permit_engine.step_finish patient_engine.step_finish 4]) simp_all
  then have "settled (merge_state_drop st' w4)"
    using settled_step permit_engine.step_merge_drop patient_engine.step_merge_drop by blast
  from remove_all_scarce [OF R this] show False
    using run 1 2 3 4
    by (auto simp: merge_group_to_file_def attempt_def owning_def modify_def ret_def split: prod.splits sum.splits)
qed

section \<open>The cascade\<close>

lemma merge_groups_scarce:
  fixes X :: "('fs, 'h, 'k::linorder, 'v) ext"
  assumes R: "reliable X view hpath hpos"
  shows "merge_groups X dir pass i gs w = (Inl e, w') \<Longrightarrow> settled w \<Longrightarrow>
    holds_runs X (view (w_files w)) (concat gs) ls \<Longrightarrow> distinct (concat gs) \<Longrightarrow>
    merge_names dir (unat pass) i \<inter> set (concat gs) = {} \<Longrightarrow> scarce e"
proof (induction gs arbitrary: i w ls)
  case Nil
  then show ?case by (simp add: ret_fault)
next
  case (Cons g gs)
  note L = reliable_laws [OF R]
  let ?out = "join dir (merge_name (unat pass) i)"
  let ?one = "if length g = 1 then ret (hd g) else merge_group_to_file X g ?out False"
  obtain l m where ls: "ls = l @ m" "holds_runs X (view (w_files w)) g l"
    "holds_runs X (view (w_files w)) (concat gs) m"
    using Cons.prems(3) by (auto simp: holds_runs_append)
  have fresh: "?out \<notin> set g" "?out \<notin> set (concat gs)"
    "merge_names dir (unat pass) (Suc i) \<inter> set (concat gs) = {}"
    using Cons.prems(5) by (auto simp: merge_names_Suc [of dir "unat pass" i])
  consider (here) u where "?one w = (Inl e, u)"
    | (later) q w1 where "?one w = (Inr q, w1)" "merge_groups X dir pass (Suc i) gs w1 = (Inl e, w')"
    using Cons.prems(1) unfolding merge_groups.simps attempt_fault ret_fault by blast
  then show ?case
  proof cases
    case here
    then have "merge_group_to_file X g ?out False w = (Inl e, u)"
      by (simp add: ret_fault split: if_splits)
    from merge_group_scarce [OF R this Cons.prems(2) ls(2) fresh(1)] show ?thesis .
  next
    case later
    have outside: "view (w_files w1) p = view (w_files w) p" if "p \<notin> insert ?out (set g)" for p
      using merge_one_spec [OF L later(1) ls(2) fresh(1)] that by blast
    have held: "holds_runs X (view (w_files w1)) (concat gs) m"
      using ls(3) by (rule holds_runs_elsewhere) (use Cons.prems(4) fresh in \<open>auto intro!: outside\<close>)
    have one: "keeps same_permits ?one" "keeps patient ?one"
      by (auto intro: permit_engine.step_merge_group patient_engine.step_merge_group permits.keeps_ret patient.keeps_ret)
    from Cons.IH [OF later(2) settled_keeps [OF Cons.prems(2) one later(1)] held _ fresh(3)] Cons.prems(4) show ?thesis by simp
  qed
qed

lemma cascade_scarce:
  fixes X :: "('fs, 'h, 'k::linorder, 'v) ext"
  assumes R: "reliable X view hpath hpos"
  shows "cascade X fan_in dir pass runs w = (Inl e, w') \<Longrightarrow> settled w \<Longrightarrow>
    holds_runs X (view (w_files w)) runs ls \<Longrightarrow> distinct runs \<Longrightarrow>
    (\<And>n. unat pass \<le> n \<Longrightarrow> merge_names dir n 0 \<inter> set runs = {}) \<Longrightarrow>
    unat pass + length runs < 2 ^ 32 \<Longrightarrow> scarce e"
proof (induction "length runs" arbitrary: pass runs w ls rule: less_induct)
  case less
  note L = reliable_laws [OF R]
  let ?c = "chunks (max fan_in 2) runs"
  have long: "\<not> length runs \<le> max fan_in 2"
    using less.prems(1) by (subst (asm) cascade.simps) (simp split: if_splits)
  have chunks: "concat ?c = runs" by (rule concat_chunks) simp
  obtain q w1 where groups: "merge_groups X dir pass 0 ?c w = (q, w1)" by (metis surj_pair)
  show ?case
  proof (cases q)
    case (Inl f)
    then have "f = e" using less.prems(1) groups long by (subst (asm) cascade.simps) simp
    then show ?thesis
      using merge_groups_scarce [OF R groups [unfolded Inl] less.prems(2), of ls] less.prems(3,4,5) unfolding chunks by simp
  next
    case (Inr next_runs)
    note groups = groups [unfolded Inr]
    have rest: "cascade X fan_in dir (pass + 1) next_runs w1 = (Inl e, w')"
      using less.prems(1) groups long by (subst (asm) cascade.simps) simp
    obtain ls1 where ls1: "holds_runs X (view (w_files w1)) next_runs ls1" "distinct next_runs"
      "set next_runs \<subseteq> set runs \<union> merge_names dir (unat pass) 0"
      using merge_groups_spec [OF L groups, of ls] less.prems(3,4,5) unfolding chunks by blast
    have shorter: "length next_runs < length runs" by (rule merge_groups_shrink [OF groups long])
    have pass: "unat (pass + 1) = Suc (unat pass)"
      using less.prems(6) long by (simp add: unat_word_ariths)
    have apart: "merge_names dir n 0 \<inter> set next_runs = {}" if "unat (pass + 1) \<le> n" for n
    proof -
      have "merge_names dir n 0 \<inter> merge_names dir (unat pass) 0 = {}"
        using that pass by (auto simp: merge_names_def)
      moreover have "merge_names dir n 0 \<inter> set runs = {}"
        using less.prems(5) that pass by simp
      ultimately show ?thesis using ls1(3) by blast
    qed
    have "settled w1"
      using settled_keeps [OF less.prems(2) permit_engine.step_merge_groups patient_engine.step_merge_groups groups] by simp
    from less.hyps [OF shorter rest this ls1(1,2) apart] show ?thesis
      using shorter pass less.prems(6) by simp
  qed
qed

lemma cascade_and_stream_scarce:
  fixes X :: "('fs, 'h, 'k::linorder, 'v) ext"
  assumes R: "reliable X view hpath hpos"
    and run: "cascade_and_stream X runs fan_in dir guard dedup hold w = (Inl e, w')" and settled: "settled w"
    and at: "holds_runs X (view (w_files w)) runs ls" "distinct runs" "length runs < 2 ^ 32"
    and fresh: "\<And>n i. join dir (merge_name n i) \<notin> set runs"
  shows "scarce e"
proof -
  note L = reliable_laws [OF R]
  have names: "merge_names dir n 0 \<inter> set runs = {}" for n
    using fresh by (auto simp: merge_names_def)
  consider (here) u where "cascade X fan_in dir 0 runs w = (Inl e, u)"
    | (later) out w1 u where "cascade X fan_in dir 0 runs w = (Inr out, w1)" "merge_state_open X out dedup w1 = (Inl e, u)"
    using run unfolding cascade_and_stream_def attempt_fault ret_fault by blast
  then show ?thesis
  proof cases
    case here
    from cascade_scarce [OF R here settled at(1,2) names] at(3) show ?thesis by simp
  next
    case later
    obtain ls1 where "holds_runs X (view (w_files w1)) out ls1"
      using cascade_spec [OF L later(1) at(1,2) names] at(3) by auto
    moreover have "settled w1"
      using settled_keeps [OF settled permit_engine.step_cascade patient_engine.step_cascade later(1)] by simp
    ultimately show ?thesis using state_open_scarce [OF R later(2)] by blast
  qed
qed

end
