(* ===== verification/ReliableSession.thy ===== *)
theory ReliableSession
  imports ReliableMerge
begin

text \<open>
  A session over files that do not fail (src/engine/session.rs, src/engine/session/buffer.rs,
  src/engine/cleanup.rs): its spills, its pushes, \<open>finish\<close> and the stream it hands out fault
  only for lack of memory.
\<close>

section \<open>Settled sessions\<close>

lemma settled_lift:
  assumes "settled (snd s)"
    and "keeps (claims (\<lambda>_. True) (\<lambda>_. True) same_permits) m" "keeps (claims (\<lambda>_. True) (\<lambda>_. True) patient) m"
    and "m s = (r, t)"
  shows "settled (snd t)"
  using assms(1) keepsD [OF assms(2,4)] keepsD [OF assms(3,4)] by (auto simp: claims_def intro: settled_step)

lemma settled_session:
  assumes "settled (snd s)"
  shows "spill X s = (r, t) \<Longrightarrow> settled (snd t)" "push_with_size X k v n s = (q, t) \<Longrightarrow> settled (snd t)"
  using settled_lift [OF assms permit_session.lift_spill patient_session.lift_spill, of X r t]
    settled_lift [OF assms permit_session.lift_push patient_session.lift_push, of X k v n q t]
  by blast+

lemma sound_on_world:
  assumes "\<And>ss w e w'. P (ss, w) \<Longrightarrow> m w = (Inl e, w') \<Longrightarrow> scarce e"
    and "\<And>ss w x w'. P (ss, w) \<Longrightarrow> m w = (Inr x, w') \<Longrightarrow> Q x (ss, w')"
  shows "sound P (on_world m) Q"
proof (rule soundI)
  show "scarce e" if "P s" "on_world m s = (Inl e, t)" for s e t
    using that assms(1) [of "fst s" "snd s"] by (simp add: act_fault)
  show "Q x t" if "P s" "on_world m s = (Inr x, t)" for s x t
    using that assms(2) [of "fst s" "snd s" x "snd t"] by (cases t) (simp add: act_ok)
qed

lemma sound_reading: "(\<And>ss. sound (\<lambda>s. P s \<and> fst s = ss) (f ss) Q) \<Longrightarrow> sound P (reading f) Q"
  by (fastforce simp: sound_def)

lemma sound_updating: "(\<And>s. P s \<Longrightarrow> Q () (g (fst s), snd s)) \<Longrightarrow> sound P (updating g) Q"
  by (auto simp: sound_def updating_def modify_def split: prod.splits)

lemma sound_ok_or: "(\<And>s x. P s \<Longrightarrow> v = Some x \<Longrightarrow> Q x s) \<Longrightarrow> sound P (ok_or (Raise RunLimit) v) Q"
  by (auto simp: sound_def ok_or_def ret_def fail_def split: option.splits)

section \<open>Spilling\<close>

lemma ensure_dir_scarce:
  assumes R: "reliable X view hpath hpos" and run: "perform (\<lambda>w. w) n m (io (fs_ensure_dir X d)) w = (Inl e, w')"
    and settled: "settled w"
  shows "scarce e"
  using perform_scarce [OF run [unfolded perform_def] settled] reliable_calls(9) [OF R]
  by (auto simp: patient_basics patient.refl act_fault)

lemma write_rows_scarce:
  fixes X :: "('fs, 'h, 'k::linorder, 'v) ext"
  assumes R: "reliable X view hpath hpos"
  shows "write_rows X wr new w = (Inl e, w') \<Longrightarrow> settled w \<Longrightarrow> writing_run X (view (w_files w)) wr rows \<Longrightarrow> scarce e"
proof (induction new arbitrary: wr w rows)
  case (Cons row new)
  note L = reliable_laws [OF R]
  have there: "view (w_files w) (rw_path wr) \<noteq> None" using Cons.prems(3) by (simp add: writing_run_def)
  consider (here) u where "run_writer_write_row X wr row w = (Inl e, u)"
    | (later) wr1 w1 where "run_writer_write_row X wr row w = (Inr wr1, w1)" "write_rows X wr1 new w1 = (Inl e, w')"
    using Cons.prems(1) unfolding write_rows.simps attempt_fault by blast
  then show ?case
  proof cases
    case here
    from write_row_scarce [OF R this Cons.prems(2) there] show ?thesis .
  next
    case later
    have "settled w1"
      by (rule settled_keeps [OF Cons.prems(2) permit_engine.step_write patient_engine.step_write later(1)]) simp_all
    from Cons.IH [OF later(2) this conjunct1 [OF writing_row [OF L later(1) Cons.prems(3)]]] show ?thesis .
  qed
qed (simp add: ret_fault)

lemma carry_scarce:
  fixes X :: "('fs, 'h, 'k::linorder, 'v) ext"
  assumes R: "reliable X view hpath hpos"
  shows "carry X ordinal [l..<l + length slots] run s = (Inl e, s') \<Longrightarrow> settled (snd s) \<Longrightarrow>
    ss_spills (fst s) = replicate l None @ slots \<Longrightarrow>
    holds_runs X (view (w_files (snd s))) (frontier slots @ [run]) (ls @ [rows]) \<Longrightarrow>
    distinct (frontier slots) \<Longrightarrow>
    (\<forall>p \<in> set (frontier slots). spill_name (ss_dir (fst s)) (unat ordinal) p) \<Longrightarrow>
    carried_name (ss_dir (fst s)) ordinal l run \<Longrightarrow>
    counter_value slots + 1 < 2 ^ length slots \<Longrightarrow> scarce e"
proof (induction slots arbitrary: l run s ls rows)
  case Nil
  then show ?case by simp
next
  case (Cons slot slots)
  note L = reliable_laws [OF R]
  obtain ss w where s: "s = (ss, w)" by fastforce
  have levels: "[l..<l + length (slot # slots)] = l # [Suc l..<Suc l + length slots]"
    by (subst upt_conv_Cons) simp_all
  have slot: "ss_spills ss ! l = slot"
    using Cons.prems(3) s by (simp add: nth_append)
  have update: "(ss_spills ss)[l := x] = replicate l None @ x # slots" for x
    using Cons.prems(3) s by (simp add: list_update_append)
  note run = Cons.prems(1) [unfolded levels carry.simps reading_eq, unfolded s fst_conv slot]
  show ?case
  proof (cases slot)
    case None
    then show ?thesis using run by (simp add: updating_fault)
  next
    case (Some older)
    let ?out = "join (ss_dir ss) (carry_name ordinal l)"
    let ?ss = "ss\<lparr>ss_spills := replicate (Suc l) None @ slots\<rparr>"
    have empty: "replicate l None @ None # slots = replicate (Suc l) None @ slots"
      by (simp add: replicate_app_Cons_same)
    have at: "holds_runs X (view (w_files w)) (frontier (Some older # slots) @ [run]) (ls @ [rows])"
      and names: "distinct (frontier (Some older # slots))"
        "\<forall>p \<in> set (frontier (Some older # slots)). spill_name (ss_dir ss) (unat ordinal) p"
        "carried_name (ss_dir ss) ordinal l run"
      using Cons.prems(4-7) Some s by simp_all
    have settled: "settled w" using Cons.prems(2) s by simp
    consider (here) u where "merge_group_to_file X [older, run] ?out False w = (Inl e, u)"
      | (later) merged w1 where "merge_group_to_file X [older, run] ?out False w = (Inr merged, w1)"
          "carry X ordinal [Suc l..<Suc l + length slots] merged (?ss, w1) = (Inl e, s')"
      using run Some by (cases s') (auto simp: attempt_fault updating_fault act_ok on_world_fault update empty)
    then show ?thesis
    proof cases
      case here
      obtain ls1 o1 where "holds_runs X (view (w_files w)) [older, run] [o1, rows]" "?out \<notin> set [older, run]"
        using at names(2,3) by (rule carry_meets)
      from merge_group_scarce [OF R here settled this] show ?thesis .
    next
      case later
      obtain ls1 o1 where lists: "merged = ?out" "ls = ls1 @ [o1]"
        "holds_runs X (view (w_files w1)) (frontier slots @ [merged]) (ls1 @ [sort_key row_key (o1 @ rows)])"
        using L later(1) at names by (rule carry_merges)
      have "settled w1"
        by (rule settled_keeps [OF settled permit_engine.step_merge_group patient_engine.step_merge_group later(1)]) simp_all
      then show ?thesis
        using Cons.IH [OF later(2), of ls1 "sort_key row_key (o1 @ rows)"] lists(1,3) names Cons.prems(8) Some
          carried_name_fresh(4) by simp
    qed
  qed
qed

text \<open>Between the steps of a spill: the marked session, and the run it writes.\<close>

definition spills_at ::
    "('k, 'v) session \<Rightarrow> ('fs \<Rightarrow> path \<Rightarrow> u8 list option) \<Rightarrow> path \<Rightarrow> (path \<Rightarrow> u8 list option)
      \<Rightarrow> ('k, 'v) session \<times> 'fs world \<Rightarrow> bool" where
  "spills_at ss view run files s \<longleftrightarrow>
     fst s = ss \<and> settled (snd s) \<and> only_at run files (view (w_files (snd s)))"

lemma spill_run_sound:
  fixes X :: "('fs, 'h, 'k::linorder, 'v) ext"
  assumes R: "reliable X view hpath hpos"
    and frontier: "holds_runs X files (frontier (ss_spills ss)) ls"
    and names: "distinct (frontier (ss_spills ss))"
      "\<forall>p \<in> set (frontier (ss_spills ss)). spill_name (ss_dir ss) (unat n) p"
    and levels: "length (ss_spills ss) = 64" "counter_value (ss_spills ss) + 1 < 2 ^ 64"
    and sorted: "sorted (map row_key (ss_buffer ss))"
  shows "sound (spills_at ss view (join (ss_dir ss) (run_name n)) files) (spill_run X n (ss_dir ss)) (\<lambda>_ _. True)"
proof -
  note L = reliable_laws [OF R]
  let ?run = "join (ss_dir ss) (run_name n)"
  let ?at = "spills_at ss view ?run files"
  let ?writes = "\<lambda>wr rows s. ?at s \<and> writing_run X (view (w_files (snd s))) wr rows \<and> rw_path wr = ?run"
  let ?wrote = "\<lambda>p (s :: ('k, 'v) session \<times> 'fs world). settled (snd s) \<and> only_at ?run files (view (w_files (snd s)))
    \<and> p = ?run \<and> holds_run X (view (w_files (snd s))) ?run (map stored (ss_buffer ss))
    \<and> ss_spills (fst s) = ss_spills ss \<and> ss_dir (fst s) = ss_dir ss"
  have trans: "only_at q f g \<Longrightarrow> only_at q g h \<Longrightarrow> only_at q f h" for q and f g h :: "path \<Rightarrow> u8 list option"
    by (simp add: only_at_def)
  have ensure: "sound ?at (on_world (perform (\<lambda>w. w) a b (io (fs_ensure_dir X d)))) (\<lambda>_. ?at)" for a b d
  proof (rule sound_on_world)
    fix s w and x :: unit and w'
    assume at: "?at (s, w)" and run: "perform (\<lambda>w. w) a b (io (fs_ensure_dir X d)) w = (Inr x, w')"
    have "settled w'"
      using settled_keeps [OF _ permit_session.step_ensure patient_session.step_ensure run] at by (simp add: spills_at_def)
    then show "?at (s, w')" using at ensure_dir_view [OF L run] by (simp add: spills_at_def)
  qed (auto simp: spills_at_def dest: ensure_dir_scarce [OF R])
  have create: "sound ?at (on_world (run_writer_create X ?run)) (\<lambda>wr. ?writes wr [])"
  proof (rule sound_on_world)
    fix s w wr w'
    assume at: "?at (s, w)" and run: "run_writer_create X ?run w = (Inr wr, w')"
    have "settled w'"
      using settled_keeps [OF _ permit_engine.step_create patient_engine.step_create run] at by (simp add: spills_at_def)
    then show "?writes wr [] (s, w')"
      using at writing_create [OF L run] by (auto simp: spills_at_def intro: trans)
  qed (auto simp: spills_at_def dest: create_scarce [OF R])
  have rows: "sound (?writes wr []) (reading (\<lambda>s. on_world (write_rows X wr (ss_buffer s))))
      (\<lambda>wr. ?writes wr (map stored (ss_buffer ss)))" for wr
  proof (intro sound_reading sound_on_world)
    fix s t w wr' w'
    assume at: "?writes wr [] (t, w) \<and> fst (t, w) = s" and run: "write_rows X wr (ss_buffer s) w = (Inr wr', w')"
    have "settled w'"
      using settled_keeps [OF _ permit_session.step_write_rows patient_session.step_write_rows run] at
      by (simp add: spills_at_def)
    then show "?writes wr' (map stored (ss_buffer ss)) (t, w')"
      using at writing_rows [OF L run, of "[]"] by (auto simp: spills_at_def intro: trans)
  qed (auto simp: spills_at_def dest: write_rows_scarce [OF R])
  have finish: "sound (?writes wr (map stored (ss_buffer ss))) (on_world (run_writer_finish X wr)) ?wrote" for wr
  proof (rule sound_on_world)
    fix s w p w'
    assume at: "?writes wr (map stored (ss_buffer ss)) (s, w)" and run: "run_writer_finish X wr w = (Inr p, w')"
    have "settled w'"
      using settled_keeps [OF _ permit_engine.step_finish patient_engine.step_finish run] at by (simp add: spills_at_def)
    then show "?wrote p (s, w')"
      using at writing_finish [OF L run] by (auto simp: spills_at_def intro: trans)
  qed (auto simp: spills_at_def writing_run_def dest: finish_scarce [OF R])
  have clear: "sound (?wrote p) clear_buffer (\<lambda>_. ?wrote p)" for p
  proof (rule soundI)
    fix s t and x :: unit
    assume at: "?wrote p s" and run: "clear_buffer s = (Inr x, t)"
    have "settled (snd t)"
      using settled_lift [OF _ permit_session.lift_clear_buffer patient_session.lift_clear_buffer run] at by simp
    then show "?wrote p t"
      using at run by (cases s) (auto simp: clear_buffer_def modify_def)
  qed (auto simp: clear_buffer_def modify_def split: prod.splits)
  have carry: "sound (?wrote p) (carry X n [0..<64] p) (\<lambda>_ _. True)" for p
  proof (rule soundI)
    fix s e t
    assume at: "?wrote p s" and run: "carry X n [0..<64] p s = (Inl e, t)"
    have "?run \<notin> set (frontier (ss_spills ss))"
      using names(2) spill_name_fresh(1) by blast
    then have "holds_runs X (view (w_files (snd s))) (frontier (ss_spills ss)) ls"
      using frontier by (elim holds_runs_elsewhere) (use at in \<open>metis only_at_def\<close>)
    then have "holds_runs X (view (w_files (snd s))) (frontier (ss_spills ss) @ [p]) (ls @ [map stored (ss_buffer ss)])"
      using at sorted by (simp add: holds_runs_snoc comp_def)
    moreover have "carry X n [0..<0 + length (ss_spills ss)] p s = (Inl e, t)" using run levels(1) by simp
    ultimately show "scarce e"
      using carry_scarce [OF R, of n 0 "ss_spills ss" p s e t ls] at names levels
      by (simp add: carried_name_def)
  qed auto
  show ?thesis
    unfolding spill_run_def
    by (rule sound_attempt [OF ensure] sound_attempt [OF create] sound_attempt [OF rows]
        sound_attempt [OF finish] sound_attempt [OF clear] carry)+
qed

lemma spill_scarce:
  fixes X :: "('fs, 'h, 'k::linorder, 'v) ext"
  assumes R: "reliable X view hpath hpos" and run: "spill X s = (Inl e, s')" and settled: "settled (snd s)"
    and at: "session_at X (view (w_files (snd s))) (fst s) acc"
  shows "scarce e"
proof -
  obtain ss w where s: "s = (ss, w)" by fastforce
  have some: "ss_buffer ss \<noteq> []" using run s by (auto simp: spill_def ret_fault)
  show ?thesis
  proof (cases "checked_add (ss_next_run ss) 1")
    case None
    then show ?thesis
      using run s some by (auto simp: spill_def Let_def attempt_fault updating_fault ok_or_fault act_ok)
  next
    case (Some n)
    define ss1 where "ss1 = ss\<lparr>ss_failed := True, ss_next_run := n, ss_buffer := sort_rows (ss_buffer ss),
      ss_cleanup := guard_arm (ss_dir ss) (ss_cleanup ss)\<rparr>"
    obtain old ls where acc: "acc = old @ map stored (ss_buffer ss)"
      and frontier: "holds_runs X (view (w_files w)) (frontier (ss_spills ss1)) ls"
      using at s by (auto simp: session_at_def ss1_def)
    have "sorted (map row_key (sort_rows (ss_buffer ss)))"
      using at s sort_rows_stable [of old "ss_buffer ss"] by (simp add: session_at_def acc)
    then have sorted: "sorted (map row_key (ss_buffer ss1))" by (simp add: ss1_def)
    have "spill_run X (ss_next_run ss) (ss_dir ss1) (ss1, w) = (Inl e, s')"
      using run s some Some
      by (simp add: spill_def Let_def attempt_def updating_def modify_def ok_or_def ret_def ss1_def)
    moreover have "spills_at ss1 view (join (ss_dir ss1) (run_name (ss_next_run ss))) (view (w_files w)) (ss1, w)"
      using settled s by (simp add: spills_at_def only_at_def)
    moreover have "unat (ss_next_run ss) + 1 < 2 ^ 64"
      using Some unat_u64 [of n] by (simp add: word_facts)
    then have "counter_value (ss_spills ss1) + 1 < 2 ^ 64"
      using at s by (simp add: session_at_def ss1_def)
    moreover have "distinct (frontier (ss_spills ss1))" "length (ss_spills ss1) = 64"
      "\<forall>p \<in> set (frontier (ss_spills ss1)). spill_name (ss_dir ss1) (unat (ss_next_run ss)) p"
      using at s by (simp_all add: session_at_def ss1_def)
    ultimately show ?thesis
      using sound_fault [OF spill_run_sound [OF R frontier _ _ _ _ sorted, of "ss_next_run ss"]] by blast
  qed
qed

end
