(* ===== verification/OnlyMemory.thy ===== *)
theory OnlyMemory
  imports ReliableSession
begin

text \<open>
  A whole sort over files that do not fail: pushes, \<open>finish\<close> and every poll of the stream fail
  only for lack of memory or at the end of a counter, and a sort that reports no such error
  yields every accepted row.
\<close>

section \<open>Pushing\<close>

definition live ::
    "('fs, 'h, 'k::linorder, 'v) ext \<Rightarrow> ('fs \<Rightarrow> path \<Rightarrow> u8 list option) \<Rightarrow> ('k, 'v) run_row list
      \<Rightarrow> ('k, 'v) session \<times> 'fs world \<Rightarrow> bool" where
  "live X view acc s \<longleftrightarrow>
     settled (snd s) \<and> session_at X (view (w_files (snd s))) (fst s) acc \<and> ready (fst s)"

lemma live_parts:
  "live X view acc s \<Longrightarrow> settled (snd s)" "live X view acc s \<Longrightarrow> ready (fst s)"
  "live X view acc s \<Longrightarrow> session_at X (view (w_files (snd s))) (fst s) acc"
  by (simp_all add: live_def)

lemma reliable_exact: "reliable X view hpath hpos \<Longrightarrow> vec_capacity X n = n"
  by (simp add: reliable_def)

text \<open>A step that never panics, faults otherwise only for lack of memory, and ends as \<open>Q\<close> says.\<close>

lemma live_step:
  assumes calm: "upholds ready m (\<lambda>_. ready) session_ok"
    and frames: "keeps (claims (\<lambda>_. True) (\<lambda>_. True) same_permits) m" "keeps (claims (\<lambda>_. True) (\<lambda>_. True) patient) m"
    and faults: "\<And>s e t. live X view acc s \<Longrightarrow> m s = (Inl e, t) \<Longrightarrow> scarce e \<or> (\<exists>p. e = Panic p)"
    and "\<And>s x t. live X view acc s \<Longrightarrow> G s \<Longrightarrow> m s = (Inr x, t) \<Longrightarrow>
      session_at X (view (w_files (snd t))) (fst t) acc' \<and> H t"
  shows "sound (\<lambda>s. live X view acc s \<and> G s) m (\<lambda>_ s. live X view acc' s \<and> H s)"
proof (rule soundI)
  fix s e t
  assume "live X view acc s \<and> G s" "m s = (Inl e, t)"
  then show "scarce e" using upholds_fault [OF calm] faults live_parts(2) by metis
next
  fix s x t
  assume at: "live X view acc s \<and> G s" and run: "m s = (Inr x, t)"
  have "settled (snd t)" using settled_lift [OF _ frames run] live_parts(1) at by blast
  moreover have "ready (fst t)" using upholds_value [OF calm _ run] live_parts(2) at by blast
  ultimately show "live X view acc' t \<and> H t" using assms(5) [OF _ _ run] at by (simp add: live_def)
qed

lemma live_rows:
  assumes "upholds ready m (\<lambda>_. ready) session_ok"
    and "keeps (claims (\<lambda>_. True) (\<lambda>_. True) same_permits) m" "keeps (claims (\<lambda>_. True) (\<lambda>_. True) patient) m"
    and "\<And>s e t. m s = (Inl e, t) \<Longrightarrow> scarce e \<or> (\<exists>p. e = Panic p)"
    and rows: "keeps same_rows m" and G: "\<And>s t. same_rows s t \<Longrightarrow> G s \<Longrightarrow> G t"
  shows "sound (\<lambda>s. live X view acc s \<and> G s) m (\<lambda>_ s. live X view acc s \<and> G s)"
proof (rule live_step [OF assms(1-4)])
  fix s x t
  assume "live X view acc s" "G s" and run: "m s = (Inr x, t)"
  then show "session_at X (view (w_files (snd t))) (fst t) acc \<and> G t"
    using session_at_same_rows [OF keepsD [OF rows run]] G [OF keepsD [OF rows run]] live_parts(3) by blast
qed

lemma small_faults:
  "reserve_metadata X s = (Inl e, t) \<Longrightarrow> scarce e \<or> (\<exists>p. e = Panic p)"
  "grow_buffer X s = (Inl e, t) \<Longrightarrow> scarce e \<or> (\<exists>p. e = Panic p)"
  "add_row X k v b c s = (Inl e, t) \<Longrightarrow> scarce e \<or> (\<exists>p. e = Panic p)"
  "on_world (reserve n) s = (Inl e, t) \<Longrightarrow> scarce e \<or> (\<exists>p. e = Panic p)"
  by (auto simp: reserve_metadata_def grow_buffer_def add_row_def act_fault ok_or_fault modify_fault ret_fault
      bail_def guard_retain_def dest: reserve_scarce split: if_splits sum.splits)

lemma spill_faults:
  fixes X :: "('fs, 'h, 'k::linorder, 'v) ext"
  assumes R: "reliable X view hpath hpos" and live: "live X view acc s"
  shows "spill_before X b s = (Inl e, t) \<Longrightarrow> scarce e" "spill_after X s = (Inl e, t) \<Longrightarrow> scarce e"
proof -
  have spill: "scarce e" if "spill X u = (Inl e, t)" "same_rows s u" "settled (snd u)" for u
    using spill_scarce [OF R that(1,3)] session_at_same_rows [OF that(2), of X view acc] live_parts(3) [OF live] by blast
  have limit: "\<exists>l. q = Inr l \<and> same_rows s u \<and> settled (snd u)" if "buffer_limit s = (q, u)" for q u
    using buffer_limit_ok [OF that] that
      settled_lift [OF live_parts(1) [OF live] permit_session.lift_buffer_limit patient_session.lift_buffer_limit that]
    by auto
  have self: "same_rows s s" "settled (snd s)" using live_parts(1) [OF live] by (simp_all add: rows.refl)
  have limited: "scarce e" if "buffer_limit s = (Inr l, u)" "spill X u = (Inl e, t)" for l u
    using limit [OF that(1)] spill [OF that(2)] by blast
  have none: "\<not> buffer_limit s = (Inl e, u)" for u
    using limit by blast
  show "spill_before X b s = (Inl e, t) \<Longrightarrow> scarce e"
    using spill [OF _ self] limited none
    by (auto simp: spill_before_def attempt_fault ret_fault split: if_splits option.splits)
  show "spill_after X s = (Inl e, t) \<Longrightarrow> scarce e"
    using limited none by (auto simp: spill_after_def attempt_fault ret_fault split: if_splits)
qed

text \<open>Room for the bytes of the next row in the buffer's count.\<close>

definition counts :: "usize \<Rightarrow> ('k, 'v) session \<times> 'fs world \<Rightarrow> bool" where
  "counts b s \<longleftrightarrow> ss_buffer (fst s) = [] \<or> checked_add (ss_buffer_bytes (fst s)) b \<noteq> None"

lemma push_sound:
  fixes X :: "('fs, 'h, 'k::linorder, 'v) ext"
  assumes R: "reliable X view hpath hpos"
  shows "sound (live X view acc) (push_with_size X k v n)
    (\<lambda>_. live X view (acc @ [accepted_row X (length acc) (k, v, n)]))"
proof -
  note L = reliable_laws [OF R] and exact = reliable_exact [OF R]
  let ?b = "max n (size_of_row X)" and ?acc = "acc @ [accepted_row X (length acc) (k, v, n)]"
  let ?L = "\<lambda>acc s. live X view acc s \<and> True" and ?C = "\<lambda>s. live X view acc s \<and> counts ?b s"
  have same: "same_rows s t \<Longrightarrow> counts b s \<Longrightarrow> counts b t" for b and s t :: "('k, 'v) session \<times> 'fs world"
    by (simp add: same_rows_def counts_def)
  have usable: "sound (live X view acc) ensure_usable (\<lambda>_. ?L acc)"
    by (auto simp: sound_def ensure_usable_def ret_def fail_def live_def session_at_def)
  have metadata: "sound (?L acc) (reserve_metadata X) (\<lambda>_. ?L acc)"
    by (rule live_rows [OF ready_push_steps(2) permit_session.lift_reserve_metadata
          patient_session.lift_reserve_metadata small_faults(1) rows_steps(2)]) simp
  have reserve: "sound (?L acc) (on_world (reserve ?b)) (\<lambda>_. ?L acc)"
    by (rule live_rows [OF ready_on_world [OF calm_reserve] permit_session.lift_on_world [OF permit_engine.step_reserve]
          patient_session.lift_on_world [OF patient_engine.step_reserve] small_faults(4) rows_on_world [OF reserve_same]])
      simp
  have before: "sound (?L acc) (spill_before X ?b) (\<lambda>_. ?C)"
  proof (rule live_step [OF ready_spills(2) [OF exact] permit_session.lift_push_steps(3) patient_session.lift_push_steps(3)])
    fix s t and x :: unit
    assume live: "live X view acc s" and run: "spill_before X ?b s = (Inr x, t)"
    then show "session_at X (view (w_files (snd t))) (fst t) acc \<and> counts ?b t"
      using spill_before_spec [OF L run live_parts(3) [OF live]] by (simp add: counts_def)
  qed (auto dest: spill_faults [OF R])
  have grow: "sound ?C (grow_buffer X) (\<lambda>_. ?C)"
    by (rule live_rows [OF ready_grow_buffer [OF exact] permit_session.lift_push_steps(2)
          patient_session.lift_push_steps(2) small_faults(2) rows_steps(3) same])
  have add: "sound ?C (add_row X k v ?b c) (\<lambda>_. ?L ?acc)" for c
  proof (rule live_step [OF ready_add_row permit_session.lift_push_steps(4) patient_session.lift_push_steps(4)])
    fix s t and x :: unit
    assume live: "live X view acc s" and "counts ?b s" and run: "add_row X k v ?b c s = (Inr x, t)"
    then show "session_at X (view (w_files (snd t))) (fst t) ?acc \<and> True"
      using add_row_spec [OF run, of view acc] live_parts(3) [OF live] by (simp add: counts_def)
  qed (rule small_faults(3))
  have after: "sound (?L ?acc) (spill_after X) (\<lambda>_ s. live X view ?acc s \<and> True)"
  proof (rule live_step [OF ready_spills(3) [OF exact] permit_session.lift_push_steps(5) patient_session.lift_push_steps(5)])
    fix s t and x :: unit
    assume live: "live X view ?acc s" and run: "spill_after X s = (Inr x, t)"
    then show "session_at X (view (w_files (snd t))) (fst t) ?acc \<and> True"
      using spill_after_spec [OF L run live_parts(3) [OF live]] by simp
  qed (auto dest: spill_faults [OF R])
  have "sound (live X view acc) (push_with_size X k v n) (\<lambda>_. ?L ?acc)"
    unfolding push_with_size_def Let_def
    by (rule sound_attempt [OF usable] sound_attempt [OF metadata] sound_attempt [OF reserve]
        sound_attempt [OF before] sound_attempt [OF grow] sound_attempt [OF add] after)+
  then show ?thesis by simp
qed

lemma push_all_scarce:
  fixes X :: "('fs, 'h, 'k::linorder, 'v) ext"
  assumes R: "reliable X view hpath hpos"
  shows "push_all X xs s = (rs, s') \<Longrightarrow> live X view acc s \<Longrightarrow>
    (\<forall>e. Inl e \<in> set rs \<longrightarrow> scarce e \<or> e = Raise SessionFailed \<and> (\<exists>f. Inl f \<in> set rs \<and> scarce f))
    \<and> ((\<exists>f. Inl f \<in> set rs \<and> scarce f) \<and> ss_failed (fst s') \<or> (\<exists>acc'. live X view acc' s'))"
proof (induction xs arbitrary: s rs acc)
  case Nil
  then show ?case by auto
next
  case (Cons x xs)
  note L = reliable_laws [OF R] and exact = reliable_exact [OF R]
  obtain k v n where x: "x = (k, v, n)" by (cases x) auto
  obtain r s1 where push: "push_with_size X k v n s = (r, s1)" by (metis surj_pair)
  obtain rs1 where more: "push_all X xs s1 = (rs1, s')" and rs: "rs = r # rs1"
    using Cons.prems(1) x push by (auto split: prod.splits)
  show ?case
  proof (cases "\<exists>acc1. live X view acc1 s1")
    case True
    then have "(\<forall>e. Inl e \<in> set rs1 \<longrightarrow> scarce e \<or> e = Raise SessionFailed \<and> (\<exists>f. Inl f \<in> set rs1 \<and> scarce f))
      \<and> ((\<exists>f. Inl f \<in> set rs1 \<and> scarce f) \<and> ss_failed (fst s') \<or> (\<exists>acc'. live X view acc' s'))"
      using Cons.IH [OF more] by blast
    moreover have "scarce e" if "r = Inl e" for e
      by (rule sound_fault [OF push_sound [OF R] Cons.prems(2) push [unfolded that]])
    ultimately show ?thesis unfolding rs by auto
  next
    case False
    then obtain e where r: "r = Inl e"
      using push_sound [OF R] Cons.prems(2) push unfolding sound_def by (cases r) fastforce+
    have e: "scarce e" by (rule sound_fault [OF push_sound [OF R] Cons.prems(2) push [unfolded r]])
    have "settled (snd s1)" by (rule settled_session(2) [OF live_parts(1) [OF Cons.prems(2)] push])
    moreover have "session_ok (fst s1)"
      using upholds_fault [OF upholds_push [OF exact] _ push [unfolded r]] ready_ok [OF live_parts(2) [OF Cons.prems(2)]] by blast
    ultimately have failed: "ss_failed (fst s1)"
      using push_spec [OF L push live_parts(3) [OF Cons.prems(2)]] r False
      by (auto simp: live_def ready_def session_ok_def)
    have "\<forall>q \<in> set (fst (push_all X ys s1)). q = Inl (Raise SessionFailed)" for ys
      by (induction ys) (auto simp: push_failed [OF failed] split: prod.splits)
    then show ?thesis
      using more push_all_failed [OF failed, of X xs] failed e r unfolding rs by (metis fst_conv insert_iff list.set(2) snd_conv sum.inject(1))
  qed
qed

section \<open>Finishing\<close>

lemma spill_sorted_fault:
  assumes "spill X (ss\<lparr>ss_buffer := sort_rows (ss_buffer ss)\<rparr>, w) = (Inl e, s')"
  shows "\<exists>t. spill X (ss, w) = (Inl e, t)"
  using assms
  by (cases "checked_add (ss_next_run ss) 1")
    (auto simp: spill_def Let_def attempt_def updating_def modify_def ok_or_def ret_def fail_def split: if_splits)

lemma frontier_scarce:
  fixes X :: "('fs, 'h, 'k::linorder, 'v) ext"
  assumes R: "reliable X view hpath hpos" and run: "stream_frontier X fan (ss, w) = (Inl e, s')"
    and settled: "settled w" and at: "session_at X (view (w_files w)) ss acc"
  shows "scarce e"
proof -
  obtain ls where "holds_runs X (view (w_files w)) (frontier (ss_spills ss)) ls"
    using at by (auto simp: session_at_def)
  moreover have "distinct (frontier (ss_spills ss))" "length (frontier (ss_spills ss)) < 2 ^ 32"
    "\<And>n i. join (ss_dir ss) (merge_name n i) \<notin> set (frontier (ss_spills ss))"
    using at length_frontier [of "ss_spills ss"]
    by (auto simp: session_at_def dest!: bspec dest: spill_name_not_merge)
  moreover obtain u where "cascade_and_stream X (frontier (ss_spills ss)) (max fan 2) (ss_dir ss)
      (ss_cleanup ss) (ss_dedup ss) (ss_hold ss) w = (Inl e, u)"
    using run by (auto simp: stream_frontier_def act_fault updating_fault act_ok ret_fault on_world_fault)
  ultimately show ?thesis
    using cascade_and_stream_scarce [OF R _ settled] by blast
qed

lemma merged_scarce:
  fixes X :: "('fs, 'h, 'k::linorder, 'v) ext"
  assumes R: "reliable X view hpath hpos"
    and run: "merged_stream X fan (ss\<lparr>ss_buffer := sort_rows (ss_buffer ss)\<rparr>, w) = (Inl e, s')"
    and settled: "settled w" and at: "session_at X (view (w_files w)) ss acc"
  shows "scarce e"
proof (cases "ss_buffer ss = []")
  case True
  then have same: "ss\<lparr>ss_buffer := sort_rows (ss_buffer ss)\<rparr> = ss" by simp
  have "stream_frontier X fan (ss, w) = (Inl e, s')"
    using run [unfolded same] True by (simp add: merged_stream_def attempt_def ret_def)
  from frontier_scarce [OF R this settled at] show ?thesis .
next
  case False
  let ?sorted = "ss\<lparr>ss_buffer := sort_rows (ss_buffer ss)\<rparr>"
  consider (here) t where "spill X (?sorted, w) = (Inl e, t)"
    | (later) ss1 w1 where "spill X (?sorted, w) = (Inr (), (ss1, w1))" "stream_frontier X fan (ss1, w1) = (Inl e, s')"
    using run False unfolding merged_stream_def attempt_fault by auto
  then show ?thesis
  proof cases
    case here
    obtain u where "spill X (ss, w) = (Inl e, u)" using spill_sorted_fault [OF here] by blast
    from spill_scarce [OF R this] settled at show ?thesis by simp
  next
    case later
    have spill: "spill X (ss, w) = (Inr (), (ss1, w1))" by (rule spill_sorted [OF later(1) False])
    have "settled w1" using settled_session(1) [OF _ spill] settled by simp
    moreover have "session_at X (view (w_files w1)) ss1 acc"
      using spill_spec [OF reliable_laws [OF R] spill at] by simp
    ultimately show ?thesis by (rule frontier_scarce [OF R later(2)])
  qed
qed

lemma finish_scarce_only:
  fixes X :: "('fs, 'h, 'k::linorder, 'v) ext"
  assumes R: "reliable X view hpath hpos" and run: "finish X (ss, w) = (Inl e, w')" and live: "live X view acc (ss, w)"
  shows "scarce e"
proof -
  let ?sorted = "ss\<lparr>ss_buffer := sort_rows (ss_buffer ss)\<rparr>"
  have "\<not> ss_failed ss" using live by (simp add: live_def session_at_def)
  then obtain t fan where "in_memory_stream (?sorted, w) = (Inl e, t) \<or> merged_stream X fan (?sorted, w) = (Inl e, t)"
    using run by (cases "ss_plan ss") (auto simp: finish_def attempt_def ensure_usable_def updating_def
        modify_def ret_def fail_def split: prod.splits if_splits)
  then show ?thesis
    using merged_scarce [OF R] live
    by (auto simp: live_def in_memory_stream_def Let_def attempt_def updating_def modify_def ret_def split: prod.splits)
qed

section \<open>The stream\<close>

lemma cleanup_succeeds:
  assumes R: "reliable X view hpath hpos" and settled: "settled w" and fds: "cg_fds g"
    and run: "guard_cleanup X (g, w) = (r, t)"
  shows "r = Inr ()"
proof (cases "cg_dir g")
  case None
  then show ?thesis using run by (simp add: guard_cleanup_def)
next
  case (Some dir)
  have "perform_reserved (\<lambda>w. w) (io (fs_remove_dir_all X dir)) w \<noteq> (Inl e, u)" for e u
  proof
    assume "perform_reserved (\<lambda>w. w) (io (fs_remove_dir_all X dir)) w = (Inl e, u)"
    moreover obtain q v where job: "io (fs_remove_dir_all X dir) (permit_take (scope_start w)) = (q, v)" by fastforce
    moreover have "w_leaves v = []"
      using keepsD [OF patient_basics(3) job] settled by (simp add: patient_def settled_def)
    moreover obtain x where "q = Inr x"
      using job reliable_calls(11) [OF R] by (cases q) (auto simp: io_fault)
    ultimately show False
      using settled by (simp add: perform_reserved_def perform_reserved_with_def Let_def settled_def
          stays_patiently ensuring_def scope_start_def join_error_def)
  qed
  then show ?thesis
    using run Some fds settled
    by (auto simp: guard_cleanup_def attempt_def scope_idle_def settled_def split: prod.splits sum.splits)
qed

lemma stream_ends:
  assumes "reliable X view hpath hpos" "settled w" "cg_fds (vs_guard vs)" "stream_end X vs w = (r, w')"
  shows "r = Inr Ended"
proof -
  obtain q g u where clean: "guard_cleanup X (vs_guard vs, w) = (q, g, u)" by (metis surj_pair)
  then have "q = Inr ()" using cleanup_succeeds [OF assms(1-3) clean] by simp
  then show ?thesis using assms(4) clean by (auto simp: stream_end_def)
qed

lemma drain_scarce:
  fixes X :: "('fs, 'h, 'k::linorder, 'v) ext"
  shows "reliable X view hpath hpos \<Longrightarrow> drain X vs w = ((items, fault), w') \<Longrightarrow> settled w \<Longrightarrow> stream_ok (Merging vs) \<Longrightarrow>
    (\<forall>st. vs_state vs = Some st \<longrightarrow> (\<exists>ls. merge_at X (view (w_files w)) P st ls)) \<Longrightarrow>
    fault = None \<and> (\<forall>err. Inl err \<in> set items \<longrightarrow> scarce (Raise err))"
proof (induction X vs w arbitrary: items rule: drain.induct)
  case (1 X vs w)
  note R = 1(2) and run = 1(3) and settled = 1(4) and ok = 1(5) and at = 1(6)
  note L = reliable_laws [OF R]
  obtain r w1 where poll: "value_stream_next X vs w = (r, w1)" by (metis surj_pair)
  have s1: "settled w1"
    by (rule settled_keeps [OF settled permit_session.step_value_next patient_session.step_value_next poll]) simp_all
  have fds: "cg_fds (vs_guard vs)" using ok by (simp add: stream_ok_def)
  have ended: "fault = None \<and> (\<forall>err. Inl err \<in> set items \<longrightarrow> scarce (Raise err))" if "r = Inr Ended"
    using run poll that by (subst (asm) drain.simps) simp
  have later: "fault = None \<and> (\<forall>err. Inl err \<in> set items \<longrightarrow> scarce (Raise err))"
    if r: "r = Inr (Yielded i vs')" and item: "\<And>err. i = Inl err \<Longrightarrow> scarce (Raise err)"
      and at': "\<And>st. vs_state vs' = Some st \<Longrightarrow> \<exists>ls. merge_at X (view (w_files w1)) P st ls" for i vs'
  proof -
    obtain more where rest: "drain X vs' w1 = ((more, fault), w')" "items = i # more"
      using run poll r by (subst (asm) drain.simps) (auto split: prod.splits)
    have "stream_ok (Merging vs')" using value_stream_next_calm [OF ok poll] r by blast
    then show ?thesis
      using 1(1) [OF poll [symmetric] r HOL.refl R rest(1) s1] at' item rest(2) by auto
  qed
  show ?case
  proof (cases "vs_state vs")
    case None
    then have "r = Inr Ended"
      using poll stream_ends [OF R settled fds] by (auto simp: value_stream_next_def split: if_splits)
    then show ?thesis by (rule ended)
  next
    case (Some st)
    obtain ls where ls: "merge_at X (view (w_files w)) P st ls" using at Some by blast
    obtain q st' u where step: "merge_next X (st, w) = (q, (st', u))" by (metis surj_pair)
    have u: "settled u" using settled_merge(2) [of "(st, w)" X] settled step by simp
    show ?thesis
    proof (cases q)
      case (Inl e)
      then have scarce: "scarce e" using merge_next_scarce [OF R step [unfolded Inl]] settled ls by simp
      then obtain err where "e = Raise err" by (cases e) (auto simp: scarce_def)
      then show ?thesis
        using later [of "Inl err" "vs\<lparr>vs_state := None, vs_reported := False\<rparr>"] poll Some step Inl scarce
        by (simp add: value_stream_next_def)
    next
      case (Inr out)
      obtain ls' where next_at: "merge_at X (view (w_files u)) P st' ls'"
        using merge_next_spec [OF L step [unfolded Inr], of P ls] ls unfolding fst_conv snd_conv by blast
      show ?thesis
      proof (cases out)
        case None
        then have "r = Inr Ended"
          using poll Some step Inr stream_ends [OF R u, of "vs\<lparr>vs_state := Some st'\<rparr>"] fds
          by (simp add: value_stream_next_def)
        then show ?thesis by (rule ended)
      next
        case row: (Some row)
        then have polled: "r = Inr (Yielded (Inr (row_value row)) (vs\<lparr>vs_state := Some st', vs_reported := False\<rparr>))"
          "w_files w1 = w_files u"
          using poll Some step Inr by (auto simp: value_stream_next_def)
        show ?thesis
          by (rule later [OF polled(1)]) (use next_at polled(2) in auto)
      qed
    qed
  qed
qed

section \<open>A whole sort\<close>

lemma live_new:
  "session_new plan dir dedup = Inr ss \<Longrightarrow> settled w \<Longrightarrow> live X view [] (ss, w)"
  using session_new_at [of plan dir dedup ss X "view (w_files w)"] session_new_ok [of plan dir dedup ss]
  by (auto simp: live_def ready_def session_ok_def session_at_def)

lemma output_scarce:
  fixes X :: "('fs, 'h, 'k::linorder, 'v) ext"
  assumes R: "reliable X view hpath hpos" and live: "live X view acc s"
    and fin: "finish X s = (Inr stream, w2)" and drained: "drain_sort X stream w2 = ((items, fault), w3)"
  shows "fault = None \<and> (\<forall>err. Inl err \<in> set items \<longrightarrow> scarce (Raise err))"
proof (cases stream)
  case (Buffered im)
  then show ?thesis
    using drained drain_memory_spec [of im w2 items fault w3] by (auto simp: drain_sort_def)
next
  case (Merging vs)
  obtain ss w where s: "s = (ss, w)" by fastforce
  have "stream_due X (view (w_files w2)) (ss_dir ss) stream (map row_value (sorted_rows (ss_dedup ss) row_key acc))"
    using finish_due [OF reliable_laws [OF R] fin [unfolded s]] live s by (simp add: live_def)
  then obtain st P ls where due: "vs_state vs = Some st" "merge_at X (view (w_files w2)) P st ls"
    using Merging by (auto simp: stream_due_def)
  have ok: "stream_ok (Merging vs)"
    using finish_calm [OF reliable_exact [OF R] _ fin] ready_ok [OF live_parts(2) [OF live]] Merging by blast
  have "settled w2"
    using settled_step [OF live_parts(1) [OF live]] permit_session.lift_finish [OF fin] patient_session.lift_finish [OF fin]
    by simp
  then show ?thesis
    using drain_scarce [OF R _ _ ok, of w2 items fault w3 P] drained Merging due(1) exI [of "merge_at X (view (w_files w2)) P st", OF due(2)]
    by (simp add: drain_sort_def)
qed

lemma sort_scarce:
  assumes R: "reliable X view hpath hpos" and "settled w0"
    and new: "session_new plan dir dedup = Inr ss"
    and push: "push_all X xs (ss, w0) = (rs, s1)"
  shows "let short = \<lambda>e. scarce e \<or> e = Raise SessionFailed \<and> (\<exists>f. Inl f \<in> set rs \<and> scarce f)
    in (\<forall>e. Inl e \<in> set rs \<longrightarrow> short e) \<and>
      (case finish X s1 of
         (Inl e, w2) \<Rightarrow> short e
       | (Inr stream, w2) \<Rightarrow> (case drain_sort X stream w2 of ((items, fault), w3) \<Rightarrow>
           fault = None \<and> (\<exists>vals errs. items = map Inr vals @ map Inl errs \<and> (\<forall>err \<in> set errs. scarce (Raise err))
             \<and> (errs = [] \<longrightarrow> vals = map snd (sorted_rows dedup fst (accepted xs rs))))))"
proof -
  note L = reliable_laws [OF R]
  define short where "short = (\<lambda>e. scarce e \<or> e = Raise SessionFailed \<and> (\<exists>f. Inl f \<in> set rs \<and> scarce f))"
  have pushed: "\<forall>e. Inl e \<in> set rs \<longrightarrow> short e"
    "(\<exists>f. Inl f \<in> set rs \<and> scarce f) \<and> ss_failed (fst s1) \<or> (\<exists>acc. live X view acc s1)"
    using push_all_scarce [OF R push live_new [OF new assms(2)]] by (auto simp: short_def)
  obtain q w2 where fin: "finish X s1 = (q, w2)" by (metis surj_pair)
  have "case q of Inl e \<Rightarrow> short e
    | Inr stream \<Rightarrow> (case drain_sort X stream w2 of ((items, fault), w3) \<Rightarrow>
        fault = None \<and> (\<exists>vals errs. items = map Inr vals @ map Inl errs \<and> (\<forall>err \<in> set errs. scarce (Raise err))
          \<and> (errs = [] \<longrightarrow> vals = map snd (sorted_rows dedup fst (accepted xs rs)))))"
  proof (cases "\<exists>acc. live X view acc s1")
    case False
    then have "q = Inl (Raise SessionFailed)" "\<exists>f. Inl f \<in> set rs \<and> scarce f"
      using pushed(2) fin
      by (auto simp: finish_def attempt_def ensure_usable_def fail_def split: prod.splits)
    then show ?thesis by (simp add: short_def)
  next
    case True
    then obtain acc where live: "live X view acc s1" by blast
    show ?thesis
    proof (cases q)
      case (Inl e)
      then have "scarce e"
        using finish_scarce_only [OF R, of "fst s1" "snd s1" e w2 acc] fin live by simp
      then show ?thesis using Inl by (simp add: short_def)
    next
      case (Inr stream)
      obtain items fault w3 where drained: "drain_sort X stream w2 = ((items, fault), w3)" by (metis surj_pair)
      have out: "fault = None" "\<forall>err. Inl err \<in> set items \<longrightarrow> scarce (Raise err)"
        using output_scarce [OF R live fin [unfolded Inr] drained] by auto
      obtain vals errs where items: "items = map Inr vals @ map Inl errs"
        "errs = [] \<longrightarrow> vals = map snd (sorted_rows dedup fst (accepted xs rs))"
        using session_output [OF L new push fin [unfolded Inr] drained] out(1) by blast
      moreover have "\<forall>err \<in> set errs. scarce (Raise err)" using out(2) items(1) by auto
      ultimately show ?thesis using drained out(1) Inr by auto
    qed
  qed
  then show ?thesis
    using pushed(1) fin unfolding short_def [symmetric] Let_def by (cases q) simp_all
qed

text \<open>C9. Only memory can fail. Over files that do not fail, with a serializer that accepts every row,
  vectors of exactly the capacity asked for, free permits and a caller that stays, every error of
  a whole sort, from a push, \<open>finish\<close> or the stream, is a refused memory reservation, a row above
  the encoding budget or a counter at its end, or it is the \<open>SessionFailed\<close> that repeats such an
  error; a run is never missing, short or undecodable when it is read back. If the stream
  reports none, it yields every accepted row.\<close>

theorem only_memory_fails:
  assumes "reliable X view hpath hpos" and "settled w0"
    and "session_new plan dir dedup = Inr ss"
    and "push_all X xs (ss, w0) = (rs, s1)"
  shows "let short = \<lambda>e. scarce e \<or> e = Raise SessionFailed \<and> (\<exists>f. Inl f \<in> set rs \<and> scarce f)
    in (\<forall>e. Inl e \<in> set rs \<longrightarrow> short e) \<and>
      (case finish X s1 of
         (Inl e, w2) \<Rightarrow> short e
       | (Inr stream, w2) \<Rightarrow> (case drain_sort X stream w2 of ((items, fault), w3) \<Rightarrow>
           fault = None \<and> (\<exists>vals errs. items = map Inr vals @ map Inl errs \<and> (\<forall>err \<in> set errs. scarce (Raise err))
             \<and> (errs = [] \<longrightarrow> vals = map snd (sorted_rows dedup fst (accepted xs rs))))))"
  using sort_scarce [OF assms] .

end
