(* ===== verification/MemProperties.thy ===== *)
theory MemProperties
  imports MemSession DroppedCalls SmallSorts OnlyMemory
begin

text \<open>
  Concrete runs on the in-memory instance for the properties of the merge, the session and the
  stream: a world with two run files, sessions driven to a chosen point, and instances whose
  disk refuses one operation.
\<close>

section \<open>Merging two runs\<close>

definition runs_world :: "mem_fs world" where
  "runs_world =
     \<lparr>w_budget = budget_new 65536, w_permits = 2, w_pending = 0, w_leaves = [],
      w_files = [([''a''], run_image mem_ext 2 [mem_row 1 10 0, mem_row 3 30 1]),
                 ([''b''], run_image mem_ext 1 [mem_row 1 11 2])]\<rparr>"

lemmas image_eval =
  runs_world_def run_image_def frames_of_def frame_of_def encoded_def payload_def

lemma runs_world_holds:
  "holds_runs mem_ext (map_of (w_files runs_world)) [[''a''], [''b'']]
     [[mem_row 1 10 0, mem_row 3 30 1], [mem_row 1 11 2]]"
  by (simp add: runs_world_def holds_run_def good_row_def encoded_def mem_fields payload_def mem_row_def
      u64_to_le_bytes_def le_bytes_numeral)

lemma merges_two:
  "\<exists>w'. merge_group_to_file mem_ext [[''a''], [''b'']] [''c''] True runs_world = (Inr [''c''], w')"
  by (simp add: image_eval all_eval)

theorem merged_group_is_sorted_witness:
  "\<exists>w'. merge_group_to_file mem_ext [[''a''], [''b'']] [''c''] True runs_world = (Inr [''c''], w')
    \<and> holds_run mem_ext (map_of (w_files w')) [''c''] [mem_row 1 10 0, mem_row 3 30 1]"
proof -
  obtain w' where run:
    "merge_group_to_file mem_ext [[''a''], [''b'']] [''c''] True runs_world = (Inr [''c''], w')"
    using merges_two by blast
  have "sorted_rows True row_key (concat [[mem_row 1 10 0, mem_row 3 30 1], [mem_row 1 11 2]])
      = [mem_row 1 10 0, mem_row 3 30 1]"
    by (simp add: sorted_rows_def mem_row_def word_le_nat_alt)
  then show ?thesis
    using merged_group_is_sorted [OF mem_ext_laws runs_world_holds _ run] run by simp
qed

lemma streams_two:
  "\<exists>vs w1 w2 st. cascade_and_stream mem_ext [[''a''], [''b'']] 2 [''d''] guard_disarmed False None runs_world
      = (Inr vs, w1) \<and> vs_state vs = Some st \<and> rows_left st = 3
    \<and> drain mem_ext vs w1 = (([Inr 10, Inr 11, Inr 30], None), w2)"
  by (simp add: image_eval all_eval rows_left_def)


section \<open>Sessions\<close>

lemma pushes_three:
  "\<exists>ss ss1 w1. session_new (External 128 2) [''d''] True = Inr ss
    \<and> push_all mem_ext [(3, 30, 1), (1, 10, 1), (2, 20, 1)] (ss, session_world (External 128 2) [])
        = ([Inr (), Inr (), Inr ()], (ss1, w1))
    \<and> \<not> ss_failed ss1 \<and> ss_next_run ss1 = 1"
  by (simp add: all_eval)

theorem frontier_is_binary_counter_witness:
  "\<exists>(ss1 :: (u8, u8) session) (w1 :: mem_fs world) runs. ss_spills ss1 ! 0 \<noteq> None
    \<and> holds_runs mem_ext (map_of (w_files w1)) (frontier (ss_spills ss1)) runs
    \<and> mset (map pair_of (concat runs @ ss_buffer ss1)) = {#(3, 30), (1, 10), (2, 20)#}"
proof -
  obtain ss ss1 w1 where
    1: "session_new (External 128 2) [''d''] True = Inr ss"
    and 2: "push_all mem_ext [(3, 30, 1), (1, 10, 1), (2, 20, 1)] (ss, session_world (External 128 2) [])
        = ([Inr (), Inr (), Inr ()], (ss1, w1))"
    and 3: "\<not> ss_failed ss1" "ss_next_run ss1 = 1"
    using pushes_three by blast
  have "ss_spills ss1 ! 0 \<noteq> None \<longleftrightarrow> bit (1 :: u64) 0"
    using frontier_is_binary_counter [OF mem_ext_laws 1 2 3(1)] 3(2) by fastforce
  moreover obtain runs where "holds_runs mem_ext (map_of (w_files w1)) (frontier (ss_spills ss1)) runs"
    "mset (map pair_of (concat runs @ ss_buffer ss1)) = {#(3, 30), (1, 10), (2, 20)#}"
    using frontier_is_binary_counter [OF mem_ext_laws 1 2 3(1)] by (auto simp: accepted_def)
  moreover have "bit (1 :: u64) 0" by (simp add: bit_0)
  ultimately show ?thesis by blast
qed

text \<open>A push that is dropped while the job that creates the scratch directory runs.\<close>

lemma push_left:
  "\<exists>ss ss1 w1 ss2 w2. session_new (External 128 2) [''d''] True = Inr ss
    \<and> push_all mem_ext [(3, 30, 1)] (ss, (session_world (External 128 2) [])\<lparr>w_leaves := [False, True]\<rparr>)
        = ([Inr ()], (ss1, w1))
    \<and> w_permits w1 = 2
    \<and> push_with_size mem_ext 1 10 1 (ss1, w1) = (Inl Waiting, (ss2, w2)) \<and> ss_failed ss2"
  by (simp add: all_eval)


definition full_disk :: "(mem_fs, mem_handle, u8, u8) ext" where
  "full_disk = mem_ext\<lparr>fs_ensure_dir := \<lambda>_ s. (Inl ''disk full'', s),
     fs_remove_dir_all := \<lambda>_ s. (Inl ''disk full'', s)\<rparr>"

lemma full_disk_fields: "fs_ensure_dir full_disk = (\<lambda>_ s. (Inl ''disk full'', s))"
  "fs_remove_dir_all full_disk = (\<lambda>_ s. (Inl ''disk full'', s))"
  "size_of_future full_disk = (\<lambda>_. 256)" "path_capacity full_disk = (\<lambda>_. 64)"
  by (simp_all add: full_disk_def mem_fields)

lemma spill_fails:
  "\<exists>ss ss1 w1 s'. session_new (External 128 2) [''d''] True = Inr ss
    \<and> push_all mem_ext [(3, 30, 1)] (ss, session_world (External 128 2) []) = ([Inr ()], (ss1, w1))
    \<and> spill full_disk (ss1, w1) = (Inl (Raise (Io ''disk full'')), s')"
  by (simp add: all_eval full_disk_fields)


lemma pushes_then_push:
  "\<exists>ss s1 ss2 w2. session_new (External 128 2) [''d''] True = Inr ss
    \<and> push_all mem_ext [(3, 30, 1), (1, 10, 1)] (ss, session_world (External 128 2) []) = ([Inr (), Inr ()], s1)
    \<and> push_with_size mem_ext 2 20 1 s1 = (Inr (), (ss2, w2)) \<and> ss_buffer_bytes ss2 = 64"
  by (simp add: all_eval)

theorem buffer_stays_small_witness:
  "(64 :: usize) < plan_limit (External 128 2) (256 * 1024 * 1024)"
proof -
  let ?w0 = "session_world (External 128 2) ([] :: mem_fs)"
  obtain ss s1 ss2 w2 where
    1: "session_new (External 128 2) [''d''] True = Inr ss"
    and 2: "push_all mem_ext [(3, 30, 1), (1, 10, 1)] (ss, ?w0) = ([Inr (), Inr ()], s1)"
    and 3: "push_with_size mem_ext 2 20 1 s1 = (Inr (), (ss2, w2))"
    and 4: "ss_buffer_bytes ss2 = 64"
    using pushes_then_push by blast
  have cap: "budget_cap (w_budget ?w0) = 256 * 1024 * 1024"
    by (simp add: session_world_def budget_new_def)
  have "ss_buffer ss2 \<noteq> []"
    using buffer_stays_small [OF 1 2 3] 4 by auto
  then show ?thesis
    using buffer_stays_small [OF 1 2 3] 4 unfolding cap by auto
qed

lemma mem_sort_in_memory:
  "\<exists>w. mem_sort InMemory True [(3, 30, 1), (1, 10, 1), (2, 20, 1), (1, 11, 1), (0, 9, 1)]
     = ([Inr (), Inr (), Inr (), Inr (), Inr ()], Inr (map Inr [9, 10, 20, 30], None), w)"
  by (simp add: mem_sort_def all_eval)

lemma mem_sortE:
  assumes "mem_sort plan dedup xs = (rs, Inr out, w)"
  obtains ss s1 stream w2 where "session_new plan [''d''] dedup = Inr ss"
    and "push_all mem_ext xs (ss, session_world plan []) = (rs, s1)"
    and "finish mem_ext s1 = (Inr stream, w2)" and "drain_sort mem_ext stream w2 = (out, w)"
  using assms by (auto simp: mem_sort_def split: sum.splits prod.splits)

theorem plans_agree_witness:
  "\<exists>vals w w'. mem_sort InMemory True [(3, 30, 1), (1, 10, 1), (2, 20, 1), (1, 11, 1), (0, 9, 1)]
      = ([Inr (), Inr (), Inr (), Inr (), Inr ()], Inr (map Inr vals, None), w)
    \<and> mem_sort (External 128 2) True [(3, 30, 1), (1, 10, 1), (2, 20, 1), (1, 11, 1), (0, 9, 1)]
      = ([Inr (), Inr (), Inr (), Inr (), Inr ()], Inr (map Inr vals, None), w')"
proof -
  let ?xs = "[(3, 30, 1), (1, 10, 1), (2, 20, 1), (1, 11, 1), (0, 9, 1)]"
  let ?rs = "[Inr (), Inr (), Inr (), Inr (), Inr ()]"
  obtain w1 where a: "mem_sort InMemory True ?xs = (?rs, Inr (map Inr [9, 10, 20, 30], None), w1)"
    using mem_sort_in_memory by blast
  obtain w2 where b: "mem_sort (External 128 2) True ?xs = (?rs, Inr (map Inr [9, 10, 20, 30], None), w2)"
    using mem_sort_spills by auto
  obtain vals where vals: "vals = [9, 10, 20, 30 :: u8]" by blast
  have "vals = [9, 10, 20, 30]"
    by (rule mem_sortE [OF a], rule mem_sortE [OF b])
      (use plans_agree [OF mem_ext_laws mem_ext_laws] vals in blast)
  then show ?thesis using a b by blast
qed

theorem dedup_keeps_first_witness:
  "map (\<lambda>k. snd (hd (filter (\<lambda>kv. fst kv = k) [(3, 30), (1, 10), (2, 20), (1, 11), (0 :: u8, 9 :: u8)])))
    (sorted_list_of_set (fst ` set [(3, 30), (1, 10), (2, 20), (1, 11), (0 :: u8, 9 :: u8)])) = [9, 10, 20, 30]"
proof -
  let ?xs = "[(3, 30, 1), (1, 10, 1), (2, 20, 1), (1, 11, 1), (0, 9, 1)]"
  let ?rs = "[Inr (), Inr (), Inr (), Inr (), Inr ()]"
  obtain w where run: "mem_sort (External 128 2) True ?xs = (?rs, Inr (map Inr [9, 10, 20, 30], None), w)"
    using mem_sort_spills by auto
  have acc: "accepted ?xs ?rs = [(3, 30), (1, 10), (2, 20), (1, 11), (0, 9)]"
    by (simp add: accepted_def)
  show ?thesis
    by (rule mem_sortE [OF run], drule (3) dedup_keeps_first [OF mem_ext_laws]) (simp only: acc)
qed

lemma mem_exact: "vec_capacity mem_ext n = n"
  by (simp add: mem_fields)

theorem sort_never_panics_witness:
  "\<exists>out w. mem_sort (External 128 2) True [(3, 30, 1), (1, 10, 1)] = (out, w) \<and> (\<forall>p. Inl (Panic p) \<notin> set out)"
proof -
  obtain rs r w where run: "mem_sort (External 128 2) True [(3, 30, 1), (1, 10, 1)] = (rs, Inr r, w)"
    by (simp add: mem_sort_def all_eval)
  show ?thesis
    by (rule mem_sortE [OF run], drule (2) sort_never_panics [OF mem_exact]) (use run in auto)
qed


text \<open>The files of the instance do not fail.\<close>

lemma mem_reliable: "reliable mem_ext map_of fst snd"
proof -
  have "reliable_files mem_ext map_of fst snd"
    unfolding reliable_files_def mem_fields
    by (auto simp: mem_open_def mem_open_end_def mem_write_def mem_read_def Let_def split: option.splits if_splits)
  moreover have "reliable_codec mem_ext"
    unfolding reliable_codec_def encoded_def mem_fields
    by (auto simp: u64_to_le_bytes_def le_bytes_numeral split: prod.splits)
  ultimately show ?thesis by (simp add: reliable_def mem_ext_laws mem_exact)
qed

theorem only_memory_fails_witness:
  "\<exists>w. mem_sort (External 128 2) True [(3, 30, 1), (1, 10, 1), (2, 20, 1), (1, 11, 1), (0, 9, 1)]
      = ([Inr (), Inr (), Inr (), Inr (), Inr ()], Inr (map Inr
          (map snd (sorted_rows True fst [(3 :: u8, 30 :: u8), (1, 10), (2, 20), (1, 11), (0, 9)])), None), w)"
proof -
  let ?xs = "[(3, 30, 1), (1, 10, 1), (2, 20, 1), (1, 11, 1), (0, 9, 1)] :: (u8 \<times> u8 \<times> usize) list"
  let ?rs = "[Inr (), Inr (), Inr (), Inr (), Inr ()]"
  let ?due = "map snd (sorted_rows True fst (accepted ?xs ?rs))"
  obtain w where run: "mem_sort (External 128 2) True ?xs = (?rs, Inr (map Inr [9, 10, 20, 30], None), w)"
    using mem_sort_spills by auto
  obtain ss s1 stream w2 where
    1: "session_new (External 128 2) [''d''] True = Inr ss"
    and 2: "push_all mem_ext ?xs (ss, session_world (External 128 2) []) = (?rs, s1)"
    and 3: "finish mem_ext s1 = (Inr stream, w2)" and 4: "drain_sort mem_ext stream w2 = ((map Inr [9, 10, 20, 30], None), w)"
    by (rule mem_sortE [OF run])
  have start: "settled (session_world (External 128 2) ([] :: mem_fs))"
    by (simp add: settled_def session_world_def)
  note finished = conjunct2 [OF only_memory_fails [OF mem_reliable start 1 2, unfolded Let_def]]
  note drained = conjunct2 [OF finished [unfolded 3 prod.case sum.case, unfolded 4 prod.case]]
  obtain vals and errs :: "error list" where
    "map Inr [9, 10, 20, 30] = map Inr vals @ map Inl errs" "errs = [] \<longrightarrow> vals = ?due"
    using drained by blast
  then have "?due = [9, 10, 20, 30]"
    using all_values [of "[9, 10, 20, 30]" vals errs] by blast
  moreover have "accepted ?xs ?rs = [(3, 30), (1, 10), (2, 20), (1, 11), (0, 9)]"
    by (simp add: accepted_def)
  ultimately have due: "map snd (sorted_rows True fst [(3 :: u8, 30 :: u8), (1, 10), (2, 20), (1, 11), (0, 9)])
      = [9, 10, 20, 30]"
    by simp
  show ?thesis unfolding due using run by blast
qed

text \<open>A sort in memory, with a caller that would leave at the first await.\<close>

lemma small_room:
  "headroom 65536 (w_budget ((session_world InMemory ([] :: mem_fs))\<lparr>w_leaves := [True]\<rparr>))"
  by (simp add: headroom_def session_world_def budget_new_def budget_limit_def word_le_nat_alt)

theorem small_sort_succeeds_witness:
  "\<exists>s1 stream w2 w3 ss. session_new InMemory [''d''] True = Inr ss
    \<and> push_all mem_ext [(3, 30, 1), (1, 10, 1), (3, 31, 1)]
        (ss, (session_world InMemory [])\<lparr>w_leaves := [True]\<rparr>) = ([Inr (), Inr (), Inr ()], s1)
    \<and> finish mem_ext s1 = (Inr stream, w2)
    \<and> drain_sort mem_ext stream w2 = ((map Inr [10, 30], None), w3) \<and> w_leaves w3 = [True]"
proof -
  let ?w0 = "(session_world InMemory ([] :: mem_fs))\<lparr>w_leaves := [True]\<rparr>"
  let ?xs = "[(3, 30, 1), (1, 10, 1), (3, 31, 1)] :: (u8 \<times> u8 \<times> usize) list"
  obtain ss :: "(u8, u8) session" where new: "session_new InMemory [''d''] True = Inr ss"
    by (simp add: session_new_def guard_eval)
  have out: "map snd (sorted_rows True fst (map (\<lambda>(k, v, n). (k, v)) ?xs)) = [10, 30]"
    by (simp add: sorted_rows_def word_le_nat_alt)
  have size: "0 < size_of_row mem_ext" by (simp add: mem_fields)
  have room: "unat (held_bytes ?w0) + needed_bytes mem_ext [''d''] ?xs \<le> unat (65536 :: u64)"
    by (simp add: needed_bytes_def metadata_bytes_def taken_bytes_def mem_fields held_bytes_def
        session_world_def budget_new_def)
  have small: "sum_list (map (taken_bytes mem_ext) ?xs) < unat (plan_limit InMemory 65536)"
    by (simp add: taken_bytes_def mem_fields plan_limit_def)
  obtain s1 stream w2 w3 where run: "push_all mem_ext ?xs (ss, ?w0) = (replicate (length ?xs) (Inr ()), s1)"
    "finish mem_ext s1 = (Inr stream, w2)" "drain_sort mem_ext stream w2 = ((map Inr [10, 30], None), w3)"
    and w3: "w3 = ?w0\<lparr>w_budget := w_budget w3\<rparr>"
    using small_sort_succeeds [OF mem_exact size new small_room room small] unfolding out by blast
  have "w_leaves w3 = [True]" by (subst w3) simp
  then show ?thesis
    using new run by (intro exI [of _ s1] exI [of _ stream] exI [of _ w2] exI [of _ w3] exI [of _ ss]) simp
qed

section \<open>Cleanup\<close>

definition empty_state :: "(u8, u8) merge_state" where
  "empty_state = \<lparr>ms_sources = [], ms_heap = [], ms_dedup = False, ms_last = None, ms_arrays = 0\<rparr>"

definition scratch_guard :: cleanup_guard where
  "scratch_guard = \<lparr>cg_dir = Some [''d''], cg_reservation = Some 32, cg_fds = True\<rparr>"

definition scratch_world :: "mem_fs world" where
  "scratch_world =
     \<lparr>w_budget = (budget_new 65536)\<lparr>budget_used := 32\<rparr>, w_permits = 2, w_pending = 0, w_leaves = [],
      w_files = [([''d'', ''x''], [1]), ([''e''], [2])]\<rparr>"

lemmas scratch_eval = empty_state_def scratch_guard_def scratch_world_def


end
