(* ===== verification/Replay.thy ===== *)
theory Replay
  imports Session
begin

text \<open>
  Demand-driven and sealed replay (src/engine/replay/): the publication that carries the
  watermark of complete frames and the terminal state of the single writer, the storage that
  writer and cursors share, the writer, and the cursors. The storage is one value next to the
  world; what Rust holds through an \<open>Arc\<close> is counted in it.
\<close>

section \<open>The publication\<close>

datatype pub_state = Writing | Sealed | Failed

record publication =
  pb_rows :: u64
  pb_state :: pub_state

definition publication_new :: publication where
  "publication_new = \<lparr>pb_rows = 0, pb_state = Writing\<rparr>"

definition publication_begin :: "publication \<Rightarrow> fault + unit" where
  "publication_begin p = (if pb_state p \<noteq> Writing then Inl (Raise SessionFailed) else Inr ())"

definition publication_publish :: "u64 \<Rightarrow> publication \<Rightarrow> fault + publication" where
  "publication_publish rows p =
     (if pb_state p \<noteq> Writing then Inl (Raise SessionFailed) else Inr (p\<lparr>pb_rows := rows\<rparr>))"

definition publication_seal :: "publication \<Rightarrow> fault + publication" where
  "publication_seal p =
     (if pb_state p = Writing then Inr (p\<lparr>pb_state := Sealed\<rparr>) else Inl (Raise SessionFailed))"

definition publication_fail :: "publication \<Rightarrow> publication" where
  "publication_fail p = (if pb_state p = Writing then p\<lparr>pb_state := Failed\<rparr> else p)"

definition publication_snapshot :: "publication \<Rightarrow> fault + u64 \<times> bool" where
  "publication_snapshot p =
     (if pb_state p = Failed then Inl (Raise ReplaySourceFailed)
      else Inr (pb_rows p, pb_state p = Sealed))"

section \<open>The storage\<close>

record replay_inner =
  ri_dir :: path
  ri_path :: path
  ri_publication :: publication
  ri_cleanup :: cleanup_guard
  ri_hold :: "resource option"
  ri_owners :: nat

definition replay_inner_new :: "path \<Rightarrow> resource option \<Rightarrow> fault + replay_inner" where
  "replay_inner_new dir lease =
     map_sum (\<lambda>e. e) (\<lambda>g.
       \<lparr>ri_dir = dir, ri_path = join dir ''rows.cbor'', ri_publication = publication_new,
        ri_cleanup = g, ri_hold = lease, ri_owners = 1\<rparr>)
     (guard_set_fd_budget guard_disarmed)"

definition inner_arm :: "memory_charge \<Rightarrow> replay_inner \<Rightarrow> fault + replay_inner" where
  "inner_arm c inner =
     map_sum (\<lambda>e. e) (\<lambda>g. inner\<lparr>ri_cleanup := guard_arm (ri_dir inner) g\<rparr>)
       (guard_retain c (ri_cleanup inner))"

text \<open>Dropping an owner; the last one drops the storage, whose guard removes the scratch.\<close>

definition owner_drop ::
    "('fs, 'h, unit, 'v) ext \<Rightarrow> bool \<Rightarrow> replay_inner \<times> 'fs world \<Rightarrow> replay_inner \<times> 'fs world" where
  "owner_drop X in_runtime = (\<lambda>(inner, w).
     if ri_owners inner = 1
     then (inner\<lparr>ri_owners := 0, ri_cleanup := guard_disarmed\<rparr>, guard_drop X in_runtime (ri_cleanup inner) w)
     else (inner\<lparr>ri_owners := ri_owners inner - 1\<rparr>, w))"

text \<open>Running the cleanup of the guard in place.\<close>

definition on_guard :: "(cleanup_guard \<times> 'fs world, 'a) act \<Rightarrow> (replay_inner \<times> 'fs world, 'a) act" where
  "on_guard m = (\<lambda>(inner, w).
     case m (ri_cleanup inner, w) of (r, (g, w')) \<Rightarrow> (r, (inner\<lparr>ri_cleanup := g\<rparr>, w')))"

section \<open>The writer\<close>

record replay_writer =
  rp_inner :: bool
  rp_writer :: "run_writer option"
  rp_rows :: u64

type_synonym ('fs, 'a) writer_act = "((replay_writer \<times> replay_inner) \<times> 'fs world, 'a) act"

definition replay_writer_new :: "path \<Rightarrow> resource option \<Rightarrow> fault + replay_writer \<times> replay_inner" where
  "replay_writer_new dir lease =
     map_sum (\<lambda>e. e) (Pair \<lparr>rp_inner = True, rp_writer = None, rp_rows = 0\<rparr>) (replay_inner_new dir lease)"

definition writer_with_temp_dir ::
    "path \<Rightarrow> string \<Rightarrow> u64 \<Rightarrow> 'fs \<Rightarrow> fault + (replay_writer \<times> replay_inner) \<times> 'fs world" where
  "writer_with_temp_dir root uuid bytes files =
     map_sum (\<lambda>e. e) (\<lambda>r. (r, \<lparr>w_budget = budget_new bytes, w_permits = 2, w_pending = 0, w_leaves = [], w_files = files\<rparr>))
       (replay_writer_new (join root (''replay-'' @ uuid)) None)"

text \<open>Steps on the two parts of the writer's state.\<close>

definition on_inner :: "(replay_inner \<Rightarrow> fault + replay_inner) \<Rightarrow> ('fs, unit) writer_act" where
  "on_inner f = (\<lambda>((wr, inner), w).
     case f inner of Inl e \<Rightarrow> (Inl e, ((wr, inner), w)) | Inr inner' \<Rightarrow> (Inr (), ((wr, inner'), w)))"

definition on_publication :: "(publication \<Rightarrow> fault + publication) \<Rightarrow> ('fs, unit) writer_act" where
  "on_publication f =
     on_inner (\<lambda>inner. map_sum (\<lambda>e. e) (\<lambda>p. inner\<lparr>ri_publication := p\<rparr>) (f (ri_publication inner)))"

definition active :: "('fs, unit) writer_act" where
  "active = reading (\<lambda>(wr, inner). if rp_inner wr then ret () else fail (Raise SessionFailed))"

text \<open>
  \<open>begin\<close> arms a guard that fails the publication unless the operation completes: whatever
  fault ends the body, and a caller that stops waiting for it, is seen by every reader.
\<close>

definition begin_operation :: "('fs, 'a) writer_act \<Rightarrow> ('fs, 'a) writer_act" where
  "begin_operation body =
     and_then (reading (\<lambda>(wr, inner).
       case publication_begin (ri_publication inner) of Inl e \<Rightarrow> fail e | Inr u \<Rightarrow> ret u)) (\<lambda>_ s.
     case body s of
       (Inl e, ((wr, inner), w)) \<Rightarrow>
         (Inl e, ((wr, inner\<lparr>ri_publication := publication_fail (ri_publication inner)\<rparr>), w))
     | (Inr x, s') \<Rightarrow> (Inr x, s'))"

definition prepare_bytes :: "('fs, 'h, unit, 'v) ext \<Rightarrow> path \<Rightarrow> usize option" where
  "prepare_bytes X dir =
     Option.bind (checked_add (path_capacity X dir) 128) (\<lambda>n.
     Option.bind (checked_mul n 4) (\<lambda>n. checked_add n (size_of_writer_and_inner X + 4096)))"

definition prepare :: "('fs, 'h, unit, 'v) ext \<Rightarrow> ('fs, unit) writer_act" where
  "prepare X = reading (\<lambda>(wr, inner).
     if rp_writer wr \<noteq> None then ret ()
     else
       and_then active (\<lambda>_.
       and_then (ok_or (Raise RunLimit) (prepare_bytes X (ri_dir inner))) (\<lambda>bytes.
       and_then (on_world (reserve bytes)) (\<lambda>c.
       attempt (drop_charge c) (on_inner (inner_arm c)) (\<lambda>_.
       and_then (on_world (perform (\<lambda>w. w) (size_of_future X EnsureReplayDir) (path_capacity X (ri_dir inner))
         (io (fs_ensure_dir X (ri_dir inner))))) (\<lambda>_.
       and_then (on_world (run_writer_create X (ri_path inner))) (\<lambda>w.
       updating (\<lambda>(wr, inner). (wr\<lparr>rp_writer := Some w\<rparr>, inner)))))))))"

definition append_row ::
    "('fs, 'h, unit, 'v) ext \<Rightarrow> (unit, 'v) run_row \<Rightarrow> u64 \<Rightarrow> ('fs, unit) writer_act" where
  "append_row X row next_rows = reading (\<lambda>(wr, inner).
     case rp_writer wr of
       None \<Rightarrow> fail (Panic ''prepared replay writer'')
     | Some w \<Rightarrow>
         and_then (on_world (run_writer_write_row X w row)) (\<lambda>w'.
         and_then (updating (\<lambda>(wr, inner). (wr\<lparr>rp_writer := Some w', rp_rows := next_rows\<rparr>, inner))) (\<lambda>_.
         on_publication (publication_publish next_rows))))"

definition append_with_size ::
    "('fs, 'h, unit, 'v) ext \<Rightarrow> 'v \<Rightarrow> usize \<Rightarrow> ('fs, unit) writer_act" where
  "append_with_size X v retained =
     and_then active (\<lambda>_.
     begin_operation (reading (\<lambda>(wr, inner).
       and_then (ok_or (Raise RunLimit) (checked_add (rp_rows wr) 1)) (\<lambda>next_rows.
       let bytes = max retained (size_of_row X)
       in and_then (on_world (reserve bytes)) (\<lambda>c.
          attempt (drop_charge c) (prepare X) (\<lambda>_.
          attempt (drop_charge c) (append_row X ((run_row_new X () v)
              \<lparr>row_ordinal := rp_rows wr, row_retained := bytes, row_charge := Some c\<rparr>) next_rows) (\<lambda>_.
          modify (drop_charge c))))))))"

definition abort :: "('fs, 'h, unit, 'v) ext \<Rightarrow> ('fs, unit) writer_act" where
  "abort X = reading (\<lambda>(wr, inner).
     if \<not> rp_inner wr then ret ()
     else
       and_then (updating (\<lambda>(wr, inner).
         (wr\<lparr>rp_writer := None\<rparr>, inner\<lparr>ri_publication := publication_fail (ri_publication inner)\<rparr>))) (\<lambda>_.
       if ri_owners inner \<noteq> 1 then fail (Raise ReplayInUse)
       else (\<lambda>((wr, inner), w). case on_guard (guard_cleanup X) (inner, w) of
              (r, (inner', w')) \<Rightarrow> (r, ((wr, inner'), w')))))"

text \<open>\<open>seal\<close> hands the storage to a \<open>Replay\<close>: the writer keeps nothing.\<close>

definition seal :: "('fs, 'h, unit, 'v) ext \<Rightarrow> ('fs, unit) writer_act" where
  "seal X =
     and_then active (\<lambda>_.
     and_then (begin_operation (
       and_then (prepare X) (\<lambda>_. reading (\<lambda>(wr, inner).
       case rp_writer wr of
         None \<Rightarrow> fail (Panic ''prepared replay writer'')
       | Some w \<Rightarrow>
           and_then (updating (\<lambda>(wr, inner). (wr\<lparr>rp_writer := None\<rparr>, inner))) (\<lambda>_.
           and_then (on_world (run_writer_finish X w)) (\<lambda>_.
           on_publication publication_seal)))))) (\<lambda>_.
     updating (\<lambda>(wr, inner). (wr\<lparr>rp_inner := False\<rparr>, inner))))"

definition writer_drop ::
    "('fs, 'h, unit, 'v) ext \<Rightarrow> bool \<Rightarrow> (replay_writer \<times> replay_inner) \<times> 'fs world
      \<Rightarrow> replay_inner \<times> 'fs world" where
  "writer_drop X in_runtime = (\<lambda>((wr, inner), w).
     if rp_inner wr
     then owner_drop X in_runtime (inner\<lparr>ri_publication := publication_fail (ri_publication inner)\<rparr>, w)
     else (inner, w))"

text \<open>\<open>close\<close> consumes the \<open>Replay\<close>; while readers own the storage it only lets go of its share.\<close>

definition replay_close :: "('fs, 'h, unit, 'v) ext \<Rightarrow> (replay_inner \<times> 'fs world, unit) act" where
  "replay_close X = (\<lambda>(inner, w).
     if ri_owners inner \<noteq> 1 then (Inl (Raise ReplayInUse), owner_drop X True (inner, w))
     else case on_guard (guard_cleanup X) (inner, w) of (r, s) \<Rightarrow> (r, owner_drop X True s))"

section \<open>Cursors\<close>

datatype 'v step = Item 'v | AwaitingAppend | Exhausted

record replay_cursor =
  rc_offset :: u64
  rc_position :: u64

type_synonym ('fs, 'a) cursor_act = "((replay_cursor \<times> replay_inner) \<times> 'fs world, 'a) act"

definition cursor_start :: replay_cursor where
  "cursor_start = \<lparr>rc_offset = 8, rc_position = 0\<rparr>"

definition cursor_new :: "replay_inner \<Rightarrow> replay_cursor \<times> replay_inner" where
  "cursor_new inner = (cursor_start, inner\<lparr>ri_owners := ri_owners inner + 1\<rparr>)"

definition cursor_clone :: "replay_cursor \<Rightarrow> replay_inner \<Rightarrow> replay_cursor \<times> replay_inner" where
  "cursor_clone c inner =
     (\<lparr>rc_offset = rc_offset c, rc_position = rc_position c\<rparr>, inner\<lparr>ri_owners := ri_owners inner + 1\<rparr>)"

definition cursor_rewind :: "replay_cursor \<Rightarrow> replay_cursor" where
  "cursor_rewind c = c\<lparr>rc_offset := 8, rc_position := 0\<rparr>"

text \<open>A cursor over the prefix of a writer: the snapshot only checks that it has not failed.\<close>

definition prefix_cursor :: "replay_writer \<times> replay_inner \<Rightarrow> fault + replay_cursor \<times> replay_inner" where
  "prefix_cursor = (\<lambda>(wr, inner).
     if \<not> rp_inner wr then Inl (Raise SessionFailed)
     else case publication_snapshot (ri_publication inner) of
            Inl e \<Rightarrow> Inl e
          | Inr _ \<Rightarrow> Inr (cursor_new inner))"

definition snapshot_now :: "('fs, u64 \<times> bool) cursor_act" where
  "snapshot_now = reading (\<lambda>(c, inner).
     case publication_snapshot (ri_publication inner) of Inl e \<Rightarrow> fail e | Inr x \<Rightarrow> ret x)"

definition cursor_row_drop :: "(unit, 'v) run_row \<Rightarrow> 's \<times> 'fs world \<Rightarrow> 's \<times> 'fs world" where
  "cursor_row_drop row = (\<lambda>(s, w). (s, row_drop row w))"

text \<open>Reading the row at the checkpoint, with the bookkeeping reservation \<open>metadata\<close> held.\<close>

definition read_committed ::
    "('fs, 'h, unit, 'v) ext \<Rightarrow> memory_charge \<Rightarrow> ('fs, 'v step) cursor_act" where
  "read_committed X metadata = reading (\<lambda>(c, inner).
     attempt (drop_charge metadata)
       (on_world (run_reader_next_row X (run_reader_from_position (ri_path inner) (rc_offset c) 1)))
       (\<lambda>(found, reader).
     attempt (drop_charge metadata) (ok_or (Raise (Decode ''committed replay row is missing'')) found) (\<lambda>row.
     let release_both = (\<lambda>s. drop_charge metadata (cursor_row_drop row s))
     in attempt release_both snapshot_now (\<lambda>_.
        attempt release_both (ok_or (Raise RunLimit) (checked_add (rc_position c) 1)) (\<lambda>next_position.
        and_then (updating (\<lambda>(c, inner). (c\<lparr>rc_offset := fst (run_reader_position reader),
          rc_position := next_position\<rparr>, inner))) (\<lambda>_.
        and_then (modify release_both) (\<lambda>_. ret (Item (row_value row)))))))))"

definition next_committed ::
    "('fs, 'h, unit, 'v) ext \<Rightarrow> ('fs, 'v step) cursor_act" where
  "next_committed X =
     and_then snapshot_now (\<lambda>(published, sealed). reading (\<lambda>(c, inner).
     if published \<le> rc_position c then ret (if sealed then Exhausted else AwaitingAppend)
     else and_then (on_world (reserve (path_capacity X (ri_path inner) + size_of_reader X))) (\<lambda>metadata.
          read_committed X metadata)))"

text \<open>
  \<open>next\<close> waits for a change when nothing more is committed. It registers for the change before
  it looks, so the wait ends with the next change after the look.
\<close>

definition cursor_next :: "('fs, 'h, unit, 'v) ext \<Rightarrow> ('fs, 'v option) cursor_act" where
  "cursor_next X =
     and_then (next_committed X) (\<lambda>s.
       case s of
         Item v \<Rightarrow> ret (Some v)
       | Exhausted \<Rightarrow> ret None
       | AwaitingAppend \<Rightarrow> fail Waiting)"

end
