(* ===== verification/ReplaySpec.thy ===== *)
theory ReplaySpec
  imports Replay
begin

text \<open>
  What a replay holds and what its cursors read (src/engine/replay/): the committed prefix in
  the file, the checkpoint of a cursor, and each operation's effect on both.
\<close>

section \<open>Inversion rules\<close>

lemma map_sum_eq [simp]:
  "map_sum f g x = Inr y \<longleftrightarrow> (\<exists>z. x = Inr z \<and> y = g z)"
  "map_sum f g x = Inl e \<longleftrightarrow> (\<exists>d. x = Inl d \<and> e = f d)"
  by (cases x; auto)+

lemma on_inner_ok [act_ok]:
  "on_inner f s = (Inr x, s') \<longleftrightarrow>
     (\<exists>inner. f (snd (fst s)) = Inr inner \<and> s' = ((fst (fst s), inner), snd s))"
  by (cases s) (auto simp: on_inner_def split: prod.splits sum.splits)

lemma on_inner_fault [act_fault]:
  "on_inner f s = (Inl e, s') \<longleftrightarrow> f (snd (fst s)) = Inl e \<and> s' = s"
  by (cases s) (auto simp: on_inner_def split: prod.splits sum.splits)

lemma active_ok [act_ok]: "active s = (Inr x, s') \<longleftrightarrow> rp_inner (fst (fst s)) \<and> s' = s"
  by (auto simp: active_def ret_def fail_def split: prod.splits)

lemma active_fault [act_fault]:
  "active s = (Inl e, s') \<longleftrightarrow> \<not> rp_inner (fst (fst s)) \<and> e = Raise SessionFailed \<and> s' = s"
  by (auto simp: active_def ret_def fail_def split: prod.splits)

text \<open>The publication of a state that a fault ends.\<close>

definition fail_inner :: "(replay_writer \<times> replay_inner) \<times> 'w \<Rightarrow> (replay_writer \<times> replay_inner) \<times> 'w" where
  "fail_inner = (\<lambda>((wr, inner), w). ((wr, inner\<lparr>ri_publication := publication_fail (ri_publication inner)\<rparr>), w))"

definition publication_of :: "(replay_writer \<times> replay_inner) \<times> 'w \<Rightarrow> publication" where
  "publication_of s = ri_publication (snd (fst s))"

lemma begin_operation_eq:
  "begin_operation body s =
     (if pb_state (publication_of s) \<noteq> Writing then (Inl (Raise SessionFailed), s)
      else case body s of (Inl e, t) \<Rightarrow> (Inl e, fail_inner t) | (Inr x, t) \<Rightarrow> (Inr x, t))"
  by (cases s)
    (auto simp: begin_operation_def publication_begin_def publication_of_def attempt_def fail_inner_def
      fail_def ret_def split: prod.splits sum.splits)

lemma begin_operation_ok [act_ok]:
  "begin_operation body s = (Inr x, s') \<longleftrightarrow>
     pb_state (publication_of s) = Writing \<and> body s = (Inr x, s')"
  by (auto simp: begin_operation_eq split: prod.splits sum.splits)

lemma begin_operation_fault [act_fault]:
  "begin_operation body s = (Inl e, s') \<longleftrightarrow>
     pb_state (publication_of s) \<noteq> Writing \<and> e = Raise SessionFailed \<and> s' = s
     \<or> pb_state (publication_of s) = Writing \<and> (\<exists>t. body s = (Inl e, t) \<and> s' = fail_inner t)"
  by (auto simp: begin_operation_eq split: prod.splits sum.splits)

lemma publication_fail_state [simp]: "pb_state (publication_fail p) \<noteq> Writing"
  by (simp add: publication_fail_def)

lemma publication_fail_idle [simp]: "pb_state p \<noteq> Writing \<Longrightarrow> publication_fail p = p"
  by (simp add: publication_fail_def)

lemma publication_of_fail [simp]:
  "publication_of (fail_inner s) = publication_fail (publication_of s)" "snd (fail_inner s) = snd s"
  by (simp_all add: publication_of_def fail_inner_def split: prod.splits)

section \<open>The committed prefix\<close>

text \<open>The file holds eight bytes of header and then the frames of the rows.\<close>

definition holds_prefix ::
    "('fs, 'h, unit, 'v) ext \<Rightarrow> (path \<Rightarrow> u8 list option) \<Rightarrow> path \<Rightarrow> (unit, 'v) run_row list \<Rightarrow> bool" where
  "holds_prefix X files p rows \<longleftrightarrow>
     (\<forall>r \<in> set rows. good_row X r \<and> row_charge r = None)
     \<and> (rows = [] \<or> (\<exists>header. length header = 8 \<and> files p = Some (header @ frames_of X rows)))"

lemma writing_holds_prefix: "writing_run X files wr rows \<Longrightarrow> holds_prefix X files (rw_path wr) rows"
  unfolding writing_run_def holds_prefix_def run_image_def by (auto intro!: exI [of _ "u64_to_le_bytes 0"])

lemma run_holds_prefix: "holds_run X files p rows \<Longrightarrow> holds_prefix X files p rows"
  unfolding holds_run_def holds_prefix_def run_image_def by (auto intro!: exI [of _ "u64_to_le_bytes _"])

text \<open>A checkpoint in front of the rest of the rows.\<close>

definition cursor_at :: "('fs, 'h, unit, 'v) ext \<Rightarrow> replay_cursor \<Rightarrow> (unit, 'v) run_row list \<Rightarrow> bool" where
  "cursor_at X c rows \<longleftrightarrow>
     unat (rc_position c) \<le> length rows
     \<and> unat (rc_offset c) = 8 + length (frames_of X (take (unat (rc_position c)) rows))"

lemma cursor_at_start [simp]: "cursor_at X cursor_start rows" "cursor_at X (cursor_rewind c) rows"
  by (simp_all add: cursor_at_def cursor_start_def cursor_rewind_def)

lemma cursor_at_more: "cursor_at X c rows \<Longrightarrow> cursor_at X c (rows @ later)"
  by (auto simp: cursor_at_def)

lemma prefix_reading:
  assumes "holds_prefix X files p rows" and "cursor_at X c rows"
    and less: "unat (rc_position c) < length rows"
  shows "reading_run X files (run_reader_from_position p (rc_offset c) 1) [rows ! unat (rc_position c)]"
proof -
  let ?n = "unat (rc_position c)"
  obtain header where content: "length header = 8" "files p = Some (header @ frames_of X rows)"
    using assms by (auto simp: holds_prefix_def)
  have "frames_of X rows = frames_of X (take ?n rows) @ frame_of X (rows ! ?n) @ frames_of X (drop (Suc ?n) rows)"
    using less by (metis frames_of_simps(2,3) id_take_nth_drop)
  then have "drop (unat (rc_offset c)) (header @ frames_of X rows)
      = frame_of X (rows ! ?n) @ frames_of X (drop (Suc ?n) rows)"
    using assms(2) content(1) by (simp add: cursor_at_def)
  moreover have "good_row X (rows ! ?n)" "row_charge (rows ! ?n) = None"
    using assms(1) less by (auto simp: holds_prefix_def)
  ultimately show ?thesis
    using content by (auto simp: reading_run_def run_reader_from_position_def)
qed

section \<open>Reading\<close>

lemma snapshot_ok [act_ok]:
  "snapshot_now s = (Inr x, s') \<longleftrightarrow> publication_snapshot (ri_publication (snd (fst s))) = Inr x \<and> s' = s"
  by (cases s) (auto simp: snapshot_now_def fail_def ret_def split: prod.splits sum.splits)

lemma snapshot_fault [act_fault]:
  "snapshot_now s = (Inl e, s') \<longleftrightarrow> publication_snapshot (ri_publication (snd (fst s))) = Inl e \<and> s' = s"
  by (cases s) (auto simp: snapshot_now_def fail_def ret_def split: prod.splits sum.splits)

lemma drop_charge_parts [simp]: "fst (drop_charge c s) = fst s" "w_files (snd (drop_charge c s)) = w_files (snd s)"
  "fst (cursor_row_drop row s) = fst s" "w_files (snd (cursor_row_drop row s)) = w_files (snd s)"
  by (cases s; simp add: drop_charge_def cursor_row_drop_def)+

text \<open>Reading changes no file, whether it succeeds or fails.\<close>

definition same_view :: "('fs \<Rightarrow> path \<Rightarrow> u8 list option) \<Rightarrow> 'fs world \<Rightarrow> 'fs world \<Rightarrow> bool" where
  "same_view view w w' \<longleftrightarrow> view (w_files w') = view (w_files w)"

interpretation viewed: blind_frame "same_view view" for view
  by unfold_locales (auto simp: same_view_def)

lemma viewed_io: "(\<And>s. view (snd (f s)) = view s) \<Longrightarrow> keeps (same_view view) (io f)"
  by (rule keepsI) (auto simp: io_def same_view_def split: prod.splits sum.splits, (metis snd_conv)+)

lemma viewed_same: "keeps same_but_budget m \<Longrightarrow> keeps (same_view view) m"
  by (erule keeps_weaken) (auto simp: same_but_budget_def same_view_def)

lemma viewed_release: "same_view view w (release c w)" "same_view view w (release_opt d w)"
  "same_view view w (frame_drop fr w)"
  by (simp_all add: same_view_def frame_drop_def)

lemma viewed_perform_with:
  assumes "keeps (same_view view) operation" and "\<And>x w. same_view view w (lost x w)"
  shows "keeps (same_view view) (perform_with lost (\<lambda>w. w) n m operation)"
  by (intro viewed.keeps_perform_with viewed_same [OF reserve_same] viewed_release assms viewed.refl)

lemma viewed_perform:
  "keeps (same_view view) operation \<Longrightarrow> keeps (same_view view) (perform (\<lambda>w. w) n m operation)"
  unfolding perform_def by (rule viewed_perform_with) (simp_all add: viewed.refl)

lemma viewed_reader:
  assumes L: "ext_laws X view hpath hpos"
  shows "keeps (same_view view) (run_reader_next_row X rd)"
proof -
  have read: "keeps (same_view view) (io (fs_open X p))" "keeps (same_view view) (io (fs_seek X h n))"
    "keeps (same_view view) (io (fs_read_exact X h k))" for p h n k
    using law_open(1) [OF L] law_seek(1) [OF L] law_read(1) [OF L]
    by (auto intro!: viewed_io) (metis surjective_pairing)+
  have "keeps (same_view view) (read_frame X p offset)" for p offset
    unfolding read_frame_def Let_def
    by (auto intro!: viewed.keeps_intros read viewed_same [OF reserve_same] viewed_same [OF reserve_frame_same]
        viewed_release
        viewed.trans [OF viewed_release(1) viewed_release(1)] split: prod.splits)
  then show ?thesis
    unfolding run_reader_next_row_def
    by (auto intro!: viewed.keeps_intros viewed_perform_with viewed.keeps_or_raise viewed_release split: prod.splits)
qed

text \<open>A read that fails leaves the checkpoint and the shared storage as they were.\<close>

lemma next_committed_fault:
  assumes "next_committed X s = (Inl e, s')"
  shows "fst s' = fst s"
proof -
  obtain c inner w where "s = ((c, inner), w)" by (metis surj_pair)
  then show ?thesis
    using assms
    by (auto simp: next_committed_def read_committed_def act_fault act_ok Let_def split: prod.splits if_splits)
qed

lemma next_committed_inner:
  assumes "next_committed X s = (Inr x, s')"
  shows "snd (fst s') = snd (fst s)"
proof -
  obtain c inner w where "s = ((c, inner), w)" by (metis surj_pair)
  then show ?thesis
    using assms
    by (auto simp: next_committed_def read_committed_def act_ok Let_def split: prod.splits if_splits)
qed

lemma next_committed_position:
  assumes "next_committed X ((c, inner), w) = (Inr x, ((c', inner'), w'))"
  shows "case x of Item v \<Rightarrow> unat (rc_position c') = unat (rc_position c) + 1 | _ \<Rightarrow> c' = c"
  using assms
  by (auto simp: next_committed_def read_committed_def act_ok Let_def word_facts drop_charge_def cursor_row_drop_def
      split: prod.splits if_splits)

interpretation lifted_view: frame "world_rel (same_view view)" for view
  by unfold_locales (auto simp: world_rel_def same_view_def)

lemma next_committed_view:
  assumes L: "ext_laws X view hpath hpos" and run: "next_committed X s = (r, s')"
  shows "view (w_files (snd s')) = view (w_files (snd s))"
proof -
  have drop: "world_rel (same_view view) s (drop_charge c s)"
    "world_rel (same_view view) s (drop_charge c (cursor_row_drop row s))"
    for c s and row :: "(unit, 'v) run_row"
    by (simp_all add: world_rel_def same_view_def)
  have "keeps (world_rel (same_view view)) (updating g)" for g :: "'s \<Rightarrow> 's"
    by (auto simp: keeps_def updating_def modify_def world_rel_def same_view_def)
  note steps = this
  have snap: "keeps (world_rel (same_view view)) snapshot_now"
    unfolding snapshot_now_def
    by (auto intro!: keeps_reading lifted_view.keeps_intros split: prod.splits sum.splits)
  have "keeps (world_rel (same_view view)) (next_committed X)"
    unfolding next_committed_def read_committed_def Let_def
    by (auto intro!: lifted_view.keeps_intros keeps_reading snap steps drop world_rel_on_world
        viewed_reader [OF L] viewed_same [OF reserve_same] split: prod.splits)
  then show ?thesis
    using keepsD run by (fastforce simp: world_rel_def same_view_def)
qed

lemma next_committed_value:
  assumes L: "ext_laws X view hpath hpos"
    and run: "next_committed X ((c, inner), w) = (Inr step, ((c', inner'), w'))"
    and at: "holds_prefix X (view (w_files w)) (ri_path inner) rows" "cursor_at X c rows"
    and rows: "unat (pb_rows (ri_publication inner)) = length rows"
  shows "inner' = inner \<and> pb_state (ri_publication inner) \<noteq> Failed \<and> cursor_at X c' rows
    \<and> view (w_files w') = view (w_files w) \<and>
    (case step of
       Item v \<Rightarrow> unat (rc_position c) < length rows \<and> v = row_value (rows ! unat (rc_position c))
         \<and> unat (rc_position c') = unat (rc_position c) + 1
     | AwaitingAppend \<Rightarrow> unat (rc_position c) = length rows \<and> c' = c \<and> pb_state (ri_publication inner) = Writing
     | Exhausted \<Rightarrow> unat (rc_position c) = length rows \<and> c' = c \<and> pb_state (ri_publication inner) = Sealed)"
proof -
  have live: "pb_state (ri_publication inner) \<noteq> Failed"
    using run by (auto simp: next_committed_def act_ok publication_snapshot_def split: if_splits)
  have snap: "publication_snapshot (ri_publication inner)
      = Inr (pb_rows (ri_publication inner), pb_state (ri_publication inner) = Sealed)"
    using live by (simp add: publication_snapshot_def)
  show ?thesis
  proof (cases "pb_rows (ri_publication inner) \<le> rc_position c")
    case True
    then have "unat (rc_position c) = length rows"
      using at(2) rows by (simp add: cursor_at_def word_le_nat_alt)
    moreover have "step = (if pb_state (ri_publication inner) = Sealed then Exhausted else AwaitingAppend)"
      "c' = c" "inner' = inner" "w' = w"
      using run True snap by (auto simp: next_committed_def act_ok)
    ultimately show ?thesis
      using live at(2) by (cases "pb_state (ri_publication inner)") auto
  next
    case False
    then have less: "unat (rc_position c) < length rows"
      using rows by (simp add: word_le_nat_alt)
    obtain m w1 found reader w2 row n where
      1: "reserve (path_capacity X (ri_path inner) + size_of_reader X) w = (Inr m, w1)"
      and 2: "run_reader_next_row X (run_reader_from_position (ri_path inner) (rc_offset c) 1) w1 = (Inr (Some row, reader), w2)"
      and n: "checked_add (rc_position c) 1 = Some n"
      and out: "step = Item (row_value row)" "inner' = inner"
        "c' = c\<lparr>rc_offset := fst (run_reader_position reader), rc_position := n\<rparr>"
        "w_files w' = w_files w2"
      using run False snap
      by (auto simp: next_committed_def read_committed_def act_ok Let_def cursor_row_drop_def drop_charge_def
          split: prod.splits)
    have w1: "w_files w1 = w_files w"
      using keepsD [OF reserve_same 1] by (simp add: same_but_budget_def)
    have "reading_run X (view (w_files w1)) (run_reader_from_position (ri_path inner) (rc_offset c) 1)
        [rows ! unat (rc_position c)]"
      using prefix_reading [OF at less] w1 by simp
    note read = run_reader_next_row_Some [OF L 2 this]
    have row: "stored row = rows ! unat (rc_position c)" "view (w_files w2) = view (w_files w)"
      "unat (rd_offset reader) = unat (rc_offset c) + length (frame_of X (rows ! unat (rc_position c)))"
      using read w1 by (auto simp: run_reader_from_position_def)
    have "row_value row = row_value (rows ! unat (rc_position c))"
      using row(1) by (metis stored_simps(2))
    moreover have "unat n = Suc (unat (rc_position c))"
      using n by (simp add: word_facts)
    moreover have "cursor_at X c' rows"
      using at(2) less row(3) \<open>unat n = _\<close>
      by (simp add: out cursor_at_def run_reader_position_def take_Suc_conv_app_nth)
    ultimately show ?thesis
      using out less row(2) live by simp
  qed
qed

section \<open>What the operations of the writer leave alone\<close>

definition same_store :: "(replay_writer \<times> replay_inner) \<times> 'w \<Rightarrow> (replay_writer \<times> replay_inner) \<times> 'w \<Rightarrow> bool" where
  "same_store s t \<longleftrightarrow>
     rp_inner (fst (fst t)) = rp_inner (fst (fst s))
     \<and> ri_owners (snd (fst t)) = ri_owners (snd (fst s)) \<and> ri_path (snd (fst t)) = ri_path (snd (fst s))
     \<and> ri_dir (snd (fst t)) = ri_dir (snd (fst s))
     \<and> cg_fds (ri_cleanup (snd (fst t))) = cg_fds (ri_cleanup (snd (fst s)))"

interpretation store: frame same_store
  by unfold_locales (auto simp: same_store_def)

lemma store_on_world: "keeps same_store (on_world m)"
  by (auto simp: keeps_def on_world_def same_store_def split: prod.splits)

lemma store_drop_charge: "same_store s (drop_charge c s)"
  by (simp add: same_store_def)

lemma store_updating:
  "(\<And>wr inner. same_store ((wr, inner), ()) (g (wr, inner), ())) \<Longrightarrow> keeps same_store (updating g)"
  by (auto simp: keeps_def updating_def modify_def same_store_def split: prod.splits)

lemma store_on_inner:
  "(\<And>wr inner inner'. f inner = Inr inner' \<Longrightarrow> same_store ((wr, inner), ()) ((wr, inner'), ())) \<Longrightarrow>
    keeps same_store (on_inner f)"
  by (rule keepsI) (auto simp: on_inner_def same_store_def split: prod.splits sum.splits)

lemma store_on_publication: "keeps same_store (on_publication f)"
  unfolding on_publication_def by (rule store_on_inner) (auto simp: same_store_def split: sum.splits)

lemma store_arm: "keeps same_store (on_inner (inner_arm c))"
  by (rule store_on_inner) (auto simp: inner_arm_def guard_retain_def same_store_def split: if_splits)

lemma store_active: "keeps same_store active"
  unfolding active_def by (auto intro!: keeps_reading store.keeps_intros split: prod.splits)

lemma store_begin:
  assumes "keeps same_store body"
  shows "keeps same_store (begin_operation body)"
proof (rule keepsI)
  fix s r t
  assume run: "begin_operation body s = (r, t)"
  have fail: "same_store u (fail_inner u)" for u :: "(replay_writer \<times> replay_inner) \<times> 'a world"
    by (auto simp: same_store_def fail_inner_def split: prod.splits)
  show "same_store s t"
    using run keepsD [OF assms, of s]
    by (auto simp: begin_operation_eq store.refl split: if_splits prod.splits sum.splits
        intro: store.trans [OF _ fail])
qed

lemmas store_steps =
  store.keeps_intros keeps_reading store_on_world store_drop_charge store_updating store_on_publication
  store_arm store_active store_begin

lemma store_prepare: "keeps same_store (prepare X)"
  unfolding prepare_def by (auto intro!: store_steps simp: same_store_def split: prod.splits)

lemma store_append: "keeps same_store (append_with_size X v n)"
  unfolding append_with_size_def append_row_def Let_def
  by (auto intro!: store_steps store_prepare simp: same_store_def split: prod.splits option.splits)

text \<open>The last part of \<open>seal\<close>.\<close>

definition seal_finish :: "('fs, 'h, unit, 'v) ext \<Rightarrow> ('fs, unit) writer_act" where
  "seal_finish X = reading (\<lambda>(wr, inner).
       case rp_writer wr of
         None \<Rightarrow> fail (Panic ''prepared replay writer'')
       | Some w \<Rightarrow>
           and_then (updating (\<lambda>(wr, inner). (wr\<lparr>rp_writer := None\<rparr>, inner))) (\<lambda>_.
           and_then (on_world (run_writer_finish X w)) (\<lambda>_.
           on_publication publication_seal)))"

lemma seal_eq:
  "seal X = and_then active (\<lambda>_. and_then (begin_operation (and_then (prepare X) (\<lambda>_. seal_finish X)))
     (\<lambda>_. updating (\<lambda>(wr, inner). (wr\<lparr>rp_inner := False\<rparr>, inner))))"
  by (simp add: seal_def seal_finish_def)

lemma store_seal: "keeps same_store (begin_operation (and_then (prepare X) (\<lambda>_. seal_finish X)))"
  unfolding seal_finish_def
  by (auto intro!: store_steps store_prepare simp: same_store_def split: prod.splits option.splits)

section \<open>The storage\<close>

text \<open>
  The storage while its publication has not failed: the committed rows are in the file, the
  watermark counts them, a writer that can still write stands behind the last of them, and a
  sealed storage has no writer. The guard is armed as soon as there may be a file.
\<close>

definition store_at ::
    "('fs, 'h, unit, 'v) ext \<Rightarrow> (path \<Rightarrow> u8 list option) \<Rightarrow> replay_writer option \<Rightarrow> replay_inner
      \<Rightarrow> (unit, 'v) run_row list \<Rightarrow> bool" where
  "store_at X files writer inner rows \<longleftrightarrow>
     holds_prefix X files (ri_path inner) rows
     \<and> unat (pb_rows (ri_publication inner)) = length rows
     \<and> (case pb_state (ri_publication inner) of
          Writing \<Rightarrow>
            (\<exists>wr. writer = Some wr \<and> rp_inner wr \<and> rp_rows wr = pb_rows (ri_publication inner)
              \<and> (case rp_writer wr of
                   None \<Rightarrow> rows = [] \<and> cg_reservation (ri_cleanup inner) = None \<and> cg_dir (ri_cleanup inner) = None
                 | Some w \<Rightarrow> rw_path w = ri_path inner \<and> writing_run X files w rows
                     \<and> cg_dir (ri_cleanup inner) = Some (ri_dir inner)))
        | Sealed \<Rightarrow> (\<forall>wr. writer = Some wr \<longrightarrow> \<not> rp_inner wr) \<and> cg_dir (ri_cleanup inner) = Some (ri_dir inner)
        | Failed \<Rightarrow> False)"

lemma prepare_ok:
  assumes L: "ext_laws X view hpath hpos"
    and run: "prepare X ((wr, inner), w) = (Inr u, ((wr', inner'), w'))"
    and at: "store_at X (view (w_files w)) (Some wr) inner rows"
    and open_state: "pb_state (ri_publication inner) = Writing"
  shows "\<exists>rw. wr' = wr\<lparr>rp_writer := Some rw\<rparr> \<and> inner' = inner\<lparr>ri_cleanup := ri_cleanup inner'\<rparr>
    \<and> rw_path rw = ri_path inner \<and> writing_run X (view (w_files w')) rw rows
    \<and> cg_dir (ri_cleanup inner') = Some (ri_dir inner)"
proof (cases "rp_writer wr")
  case (Some rw)
  then show ?thesis
    using run at open_state
    by (auto simp: prepare_def act_ok store_at_def intro!: exI [of _ rw])
next
  case None
  then obtain m w1 inner1 w2 rw where
    1: "inner_arm m inner = Inr inner1"
    and 2: "run_writer_create X (ri_path inner) w2 = (Inr rw, w')"
    and out: "wr' = wr\<lparr>rp_writer := Some rw\<rparr>" "inner' = inner1"
    using run by (auto simp: prepare_def act_ok split: prod.splits)
  have "rows = []" "cg_dir (ri_cleanup inner) = None" using at open_state None by (simp_all add: store_at_def)
  moreover from this have "inner1 = inner\<lparr>ri_cleanup := ri_cleanup inner1\<rparr>"
    "cg_dir (ri_cleanup inner1) = Some (ri_dir inner)"
    using 1 by (auto simp: inner_arm_def guard_retain_def guard_arm_def split: sum.splits if_splits)
  ultimately show ?thesis
    using writing_create [OF L 2] out by auto
qed

lemma append_store:
  assumes L: "ext_laws X view hpath hpos"
    and run: "append_with_size X v n ((wr, inner), w) = (Inr u, ((wr', inner'), w'))"
    and at: "store_at X (view (w_files w)) (Some wr) inner rows"
  shows "\<exists>row. row_value row = v \<and> store_at X (view (w_files w')) (Some wr') inner' (rows @ [row])"
proof -
  obtain c next_rows w1 wr1 inner1 w2 rw rw' w3 where
    state: "pb_state (ri_publication inner) = Writing" "rp_inner wr"
    and n: "checked_add (rp_rows wr) 1 = Some next_rows"
    and 1: "reserve (max n (size_of_row X)) w = (Inr c, w1)"
    and 2: "prepare X ((wr, inner), w1) = (Inr (), ((wr1, inner1), w2))"
    and rw: "rp_writer wr1 = Some rw"
    and 3: "run_writer_write_row X rw ((run_row_new X () v)\<lparr>row_ordinal := rp_rows wr,
        row_retained := max n (size_of_row X), row_charge := Some c\<rparr>) w2 = (Inr rw', w3)"
    and out: "wr' = wr1\<lparr>rp_writer := Some rw', rp_rows := next_rows\<rparr>"
      "inner' = inner1\<lparr>ri_publication := (ri_publication inner1)\<lparr>pb_rows := next_rows\<rparr>\<rparr>"
      "w_files w' = w_files w3"
    using run
    by (auto simp: append_with_size_def append_row_def act_ok Let_def publication_of_def on_publication_def
        publication_publish_def drop_charge_def split: prod.splits option.splits sum.splits if_splits)
  let ?row = "(run_row_new X () v)\<lparr>row_ordinal := rp_rows wr, row_retained := max n (size_of_row X),
      row_charge := Some c\<rparr>"
  have w1: "w_files w1 = w_files w"
    using keepsD [OF reserve_same 1] by (simp add: same_but_budget_def)
  have ready: "wr1 = wr\<lparr>rp_writer := Some rw\<rparr>" "inner1 = inner\<lparr>ri_cleanup := ri_cleanup inner1\<rparr>"
    "rw_path rw = ri_path inner" "writing_run X (view (w_files w2)) rw rows"
    "cg_dir (ri_cleanup inner1) = Some (ri_dir inner)"
    using prepare_ok [OF L 2, of rows] at state(1) w1 rw by auto
  have written: "writing_run X (view (w_files w3)) rw' (rows @ [stored ?row])" "rw_path rw' = ri_path inner"
    using writing_row [OF L 3 ready(4)] ready(3) by simp_all
  have "unat next_rows = Suc (length rows)"
    using n at state by (auto simp: store_at_def word_facts)
  moreover have "pb_state (ri_publication inner1) = Writing" "ri_path inner1 = ri_path inner"
    "ri_dir inner1 = ri_dir inner"
    by (subst ready(2), simp add: state)+
  moreover have "holds_prefix X (view (w_files w3)) (ri_path inner) (rows @ [stored ?row])"
    using writing_holds_prefix [OF written(1)] written(2) by simp
  ultimately have "store_at X (view (w_files w')) (Some wr') inner' (rows @ [stored ?row])"
    using written state(2) ready(1,5) by (simp add: store_at_def out)
  then show ?thesis
    by (intro exI [of _ "stored ?row"]) (simp add: run_row_new_def)
qed

text \<open>Until an operation ends, the state of the publication is the one it began with.\<close>

definition same_state :: "(replay_writer \<times> replay_inner) \<times> 'w \<Rightarrow> (replay_writer \<times> replay_inner) \<times> 'w \<Rightarrow> bool" where
  "same_state s t \<longleftrightarrow> pb_state (publication_of t) = pb_state (publication_of s)"

interpretation state: frame same_state
  by unfold_locales (auto simp: same_state_def)

lemma state_on_world: "keeps same_state (on_world m)"
  by (auto simp: keeps_def on_world_def same_state_def publication_of_def split: prod.splits)

lemma state_drop_charge: "same_state s (drop_charge c s)"
  by (simp add: same_state_def publication_of_def)

lemma state_updating:
  "(\<And>wr inner. ri_publication (snd (g (wr, inner))) = ri_publication inner) \<Longrightarrow> keeps same_state (updating g)"
  by (auto simp: keeps_def updating_def modify_def same_state_def publication_of_def split: prod.splits)

lemma state_arm: "keeps same_state (on_inner (inner_arm c))"
  by (auto simp: keeps_def on_inner_def inner_arm_def same_state_def publication_of_def split: prod.splits sum.splits)

lemma state_active: "keeps same_state active"
  unfolding active_def by (auto intro!: keeps_reading state.keeps_intros split: prod.splits)

lemma state_publish: "keeps same_state (on_publication (publication_publish n))"
  by (auto simp: keeps_def on_publication_def on_inner_def publication_publish_def same_state_def
      publication_of_def split: prod.splits)

lemmas state_steps =
  state.keeps_intros keeps_reading state_on_world state_drop_charge state_updating state_arm
  state_active state_publish

lemma state_prepare: "keeps same_state (prepare X)"
  unfolding prepare_def by (auto intro!: state_steps split: prod.splits)

lemma state_append_row: "keeps same_state (append_row X row n)"
  unfolding append_row_def by (auto intro!: state_steps split: prod.splits option.splits)

lemma fail_state: "pb_state (publication_of s) = Writing \<Longrightarrow> pb_state (publication_of (fail_inner s)) = Failed"
  by (simp add: publication_fail_def)

lemma guarded_fault:
  assumes "and_then active (\<lambda>_. begin_operation body) s = (Inl e, s')"
  shows "if rp_inner (fst (fst s)) \<and> pb_state (publication_of s) = Writing
    then \<exists>t. body s = (Inl e, t) \<and> s' = fail_inner t else e = Raise SessionFailed \<and> s' = s"
  using assms by (auto simp: act_fault act_ok)

text \<open>The part of an append that the operation guards.\<close>

definition append_body ::
    "('fs, 'h, unit, 'v) ext \<Rightarrow> 'v \<Rightarrow> usize \<Rightarrow> ('fs, unit) writer_act" where
  "append_body X v n = reading (\<lambda>(wr, inner).
       and_then (ok_or (Raise RunLimit) (checked_add (rp_rows wr) 1)) (\<lambda>next_rows.
       let bytes = max n (size_of_row X)
       in and_then (on_world (reserve bytes)) (\<lambda>c.
          attempt (drop_charge c) (prepare X) (\<lambda>_.
          attempt (drop_charge c) (append_row X ((run_row_new X () v)
              \<lparr>row_ordinal := rp_rows wr, row_retained := bytes, row_charge := Some c\<rparr>) next_rows) (\<lambda>_.
          modify (drop_charge c))))))"

lemma append_eq: "append_with_size X v n = and_then active (\<lambda>_. begin_operation (append_body X v n))"
  by (simp only: append_with_size_def append_body_def)

lemma state_append_body: "keeps same_state (append_body X v n)"
  unfolding append_body_def Let_def
  by (auto intro!: state_steps state_prepare state_append_row split: prod.splits)

lemma append_fault:
  assumes "append_with_size X v n s = (Inl e, s')"
  shows "if rp_inner (fst (fst s)) \<and> pb_state (publication_of s) = Writing
    then pb_state (publication_of s') = Failed else e = Raise SessionFailed \<and> s' = s"
proof -
  have "pb_state (publication_of t) = pb_state (publication_of s)" if "append_body X v n s = (Inl e, t)" for t
    using keepsD [OF state_append_body that] by (simp add: same_state_def)
  then show ?thesis
    using guarded_fault [OF assms [unfolded append_eq]] fail_state by metis
qed

lemma seal_finish_fault:
  assumes "seal_finish X s = (Inl e, t)"
  shows "pb_state (publication_of t) = pb_state (publication_of s)"
proof -
  obtain wr inner w where "s = ((wr, inner), w)" by (metis surj_pair)
  then show ?thesis
    using assms
    by (auto simp: seal_finish_def act_fault act_ok on_publication_def publication_seal_def publication_of_def
        split: prod.splits option.splits if_splits)
qed

lemma seal_guarded:
  assumes "seal X s = (Inl e, s')"
  shows "and_then active (\<lambda>_. begin_operation (and_then (prepare X) (\<lambda>_. seal_finish X))) s = (Inl e, s')"
  using assms unfolding seal_eq
  by (auto simp: attempt_def updating_def modify_def split: sum.splits prod.splits)

lemma seal_fault:
  assumes "seal X s = (Inl e, s')"
  shows "if rp_inner (fst (fst s)) \<and> pb_state (publication_of s) = Writing
    then pb_state (publication_of s') = Failed else e = Raise SessionFailed \<and> s' = s"
proof -
  let ?body = "and_then (prepare X) (\<lambda>_. seal_finish X)"
  have "and_then active (\<lambda>_. begin_operation ?body) s = (Inl e, s')"
    by (rule seal_guarded [OF assms])
  moreover have "pb_state (publication_of t) = Writing"
    if open_state: "pb_state (publication_of s) = Writing" and t: "?body s = (Inl e, t)" for t
  proof -
    obtain r u where u: "prepare X s = (r, u)" by (metis surj_pair)
    have "pb_state (publication_of u) = Writing"
      using keepsD [OF state_prepare u] open_state by (simp add: same_state_def)
    then show ?thesis
      using t u seal_finish_fault [of X u e t] by (cases r) (auto simp: attempt_def)
  qed
  ultimately show ?thesis using guarded_fault [of ?body s e s'] fail_state by metis
qed

lemma seal_store:
  assumes L: "ext_laws X view hpath hpos"
    and run: "seal X ((wr, inner), w) = (Inr u, ((wr', inner'), w'))"
    and at: "store_at X (view (w_files w)) (Some wr) inner rows"
  shows "store_at X (view (w_files w')) (Some wr') inner' rows \<and> \<not> rp_inner wr'
    \<and> pb_state (ri_publication inner') = Sealed"
proof -
  obtain wr1 inner1 w1 rw p where
    state: "pb_state (ri_publication inner) = Writing" "rp_inner wr"
    and 1: "prepare X ((wr, inner), w) = (Inr (), ((wr1, inner1), w1))"
    and rw: "rp_writer wr1 = Some rw"
    and 2: "run_writer_finish X rw w1 = (Inr p, w')"
    and out: "wr' = wr1\<lparr>rp_writer := None, rp_inner := False\<rparr>"
      "inner' = inner1\<lparr>ri_publication := (ri_publication inner1)\<lparr>pb_state := Sealed\<rparr>\<rparr>"
    using run
    by (auto simp: seal_def act_ok publication_of_def on_publication_def publication_seal_def
        split: prod.splits option.splits sum.splits if_splits)
  have ready: "inner1 = inner\<lparr>ri_cleanup := ri_cleanup inner1\<rparr>"
    "rw_path rw = ri_path inner" "writing_run X (view (w_files w1)) rw rows"
    "cg_dir (ri_cleanup inner1) = Some (ri_dir inner)"
    using prepare_ok [OF L 1 at state(1)] rw by auto
  have "holds_run X (view (w_files w')) (ri_path inner) rows"
    using writing_finish [OF L 2 ready(3)] ready(2) by auto
  moreover have "ri_path inner1 = ri_path inner" "ri_publication inner1 = ri_publication inner"
    "ri_dir inner1 = ri_dir inner"
    by (subst ready(1), simp)+
  ultimately show ?thesis
    using at ready(4) run_holds_prefix by (auto simp: store_at_def out)
qed

end
