(* ===== verification/ReplaySystem.thy ===== *)
theory ReplaySystem
  imports ReplaySpec
begin

text \<open>
  A replay in use: one writer, any number of cursors and, once sealed, a \<open>Replay\<close>, over one
  storage, as a step relation with one step per public operation and steps of the rest of the
  process in between. Reachable states satisfy an invariant from which the properties of
  src/engine/replay/ follow: cursors read exactly the committed prefix.
\<close>

section \<open>Steps\<close>

record replay_system =
  sy_writer :: "replay_writer option"
  sy_inner :: replay_inner
  sy_replay :: bool
  sy_cursors :: "replay_cursor option list"

datatype 'v replay_event =
    Append 'v "fault + unit"
  | Seal "fault + unit"
  | Abort "fault + unit"
  | DropWriter
  | Cursor
  | Clone nat
  | Rewind nat
  | Pull nat "fault + 'v step"
  | DropCursor nat
  | Close "fault + unit"
  | DropReplay
  | Outside

text \<open>
  \<open>Outside\<close> stands for everything else the process does: it may take and return memory and
  permits and change any file but the replay's own.
\<close>

inductive replay_step ::
    "('fs, 'h, unit, 'v) ext \<Rightarrow> ('fs \<Rightarrow> path \<Rightarrow> u8 list option) \<Rightarrow> replay_system \<times> 'fs world
      \<Rightarrow> 'v replay_event \<Rightarrow> replay_system \<times> 'fs world \<Rightarrow> bool"
  for X view where
  append: "sy_writer s = Some wr \<Longrightarrow>
    append_with_size X v n ((wr, sy_inner s), w) = (r, ((wr', inner'), w')) \<Longrightarrow>
    replay_step X view (s, w) (Append v r) (s\<lparr>sy_writer := Some wr', sy_inner := inner'\<rparr>, w')"
| seal: "sy_writer s = Some wr \<Longrightarrow>
    seal X ((wr, sy_inner s), w) = (r, ((wr', inner'), w')) \<Longrightarrow>
    replay_step X view (s, w) (Seal r)
      (s\<lparr>sy_writer := Some wr', sy_inner := inner', sy_replay := (r = Inr ()) \<or> sy_replay s\<rparr>, w')"
| abort: "sy_writer s = Some wr \<Longrightarrow>
    abort X ((wr, sy_inner s), w) = (r, ((wr', inner'), w')) \<Longrightarrow>
    replay_step X view (s, w) (Abort r) (s\<lparr>sy_writer := Some wr', sy_inner := inner'\<rparr>, w')"
| drop_writer: "sy_writer s = Some wr \<Longrightarrow> writer_drop X rt ((wr, sy_inner s), w) = (inner', w') \<Longrightarrow>
    replay_step X view (s, w) DropWriter (s\<lparr>sy_writer := None, sy_inner := inner'\<rparr>, w')"
| prefix: "sy_writer s = Some wr \<Longrightarrow> prefix_cursor (wr, sy_inner s) = Inr (c, inner') \<Longrightarrow>
    replay_step X view (s, w) Cursor (s\<lparr>sy_inner := inner', sy_cursors := sy_cursors s @ [Some c]\<rparr>, w)"
| cursor: "sy_replay s \<Longrightarrow> cursor_new (sy_inner s) = (c, inner') \<Longrightarrow>
    replay_step X view (s, w) Cursor (s\<lparr>sy_inner := inner', sy_cursors := sy_cursors s @ [Some c]\<rparr>, w)"
| clone: "i < length (sy_cursors s) \<Longrightarrow> sy_cursors s ! i = Some c \<Longrightarrow>
    cursor_clone c (sy_inner s) = (c', inner') \<Longrightarrow>
    replay_step X view (s, w) (Clone i) (s\<lparr>sy_inner := inner', sy_cursors := sy_cursors s @ [Some c']\<rparr>, w)"
| rewind: "i < length (sy_cursors s) \<Longrightarrow> sy_cursors s ! i = Some c \<Longrightarrow>
    replay_step X view (s, w) (Rewind i)
      (s\<lparr>sy_cursors := (sy_cursors s)[i := Some (cursor_rewind c)]\<rparr>, w)"
| pull: "i < length (sy_cursors s) \<Longrightarrow> sy_cursors s ! i = Some c \<Longrightarrow>
    next_committed X ((c, sy_inner s), w) = (r, ((c', inner'), w')) \<Longrightarrow>
    replay_step X view (s, w) (Pull i r)
      (s\<lparr>sy_inner := inner', sy_cursors := (sy_cursors s)[i := Some c']\<rparr>, w')"
| drop_cursor: "i < length (sy_cursors s) \<Longrightarrow> sy_cursors s ! i = Some c \<Longrightarrow>
    owner_drop X rt (sy_inner s, w) = (inner', w') \<Longrightarrow>
    replay_step X view (s, w) (DropCursor i)
      (s\<lparr>sy_inner := inner', sy_cursors := (sy_cursors s)[i := None]\<rparr>, w')"
| close: "sy_replay s \<Longrightarrow> replay_close X (sy_inner s, w) = (r, (inner', w')) \<Longrightarrow>
    replay_step X view (s, w) (Close r) (s\<lparr>sy_inner := inner', sy_replay := False\<rparr>, w')"
| drop_replay: "sy_replay s \<Longrightarrow> owner_drop X rt (sy_inner s, w) = (inner', w') \<Longrightarrow>
    replay_step X view (s, w) DropReplay (s\<lparr>sy_inner := inner', sy_replay := False\<rparr>, w')"
| outside: "view (w_files w') (ri_path (sy_inner s)) = view (w_files w) (ri_path (sy_inner s)) \<Longrightarrow>
    replay_step X view (s, w) Outside (s, w')"

text \<open>Reachable states, with the events that led to them.\<close>

inductive replay_run ::
    "('fs, 'h, unit, 'v) ext \<Rightarrow> ('fs \<Rightarrow> path \<Rightarrow> u8 list option) \<Rightarrow> 'v replay_event list
      \<Rightarrow> replay_system \<times> 'fs world \<Rightarrow> bool"
  for X view where
  start: "replay_writer_new dir lease = Inr (wr, inner) \<Longrightarrow>
    replay_run X view [] (\<lparr>sy_writer = Some wr, sy_inner = inner, sy_replay = False, sy_cursors = []\<rparr>, w)"
| step: "replay_run X view evs s \<Longrightarrow> replay_step X view s e t \<Longrightarrow> replay_run X view (evs @ [e]) t"

text \<open>The values whose append returned, in order.\<close>

definition appended :: "'v replay_event list \<Rightarrow> 'v list" where
  "appended evs = concat (map (\<lambda>e. case e of Append v (Inr _) \<Rightarrow> [v] | _ \<Rightarrow> []) evs)"

lemma appended_snoc: "appended (evs @ [e]) = appended evs @ appended [e]"
  by (simp add: appended_def)

section \<open>The invariant\<close>

definition live_cursors :: "replay_system \<Rightarrow> nat" where
  "live_cursors s = length (filter (\<lambda>c. c \<noteq> None) (sy_cursors s))"

definition holders :: "replay_system \<Rightarrow> nat" where
  "holders s =
     (case sy_writer s of None \<Rightarrow> 0 | Some wr \<Rightarrow> if rp_inner wr then 1 else 0)
     + (if sy_replay s then 1 else 0) + live_cursors s"

definition system_ok ::
    "('fs, 'h, unit, 'v) ext \<Rightarrow> ('fs \<Rightarrow> path \<Rightarrow> u8 list option) \<Rightarrow> 'v list
      \<Rightarrow> replay_system \<times> 'fs world \<Rightarrow> bool" where
  "system_ok X view vals = (\<lambda>(s, w).
     ri_owners (sy_inner s) = holders s
     \<and> (\<forall>wr. sy_writer s = Some wr \<and> sy_replay s \<longrightarrow> \<not> rp_inner wr)
     \<and> (0 < holders s \<longrightarrow> cg_fds (ri_cleanup (sy_inner s)))
     \<and> (0 < holders s \<and> pb_state (ri_publication (sy_inner s)) \<noteq> Failed \<longrightarrow>
          (\<exists>rows. map row_value rows = vals
             \<and> store_at X (view (w_files w)) (sy_writer s) (sy_inner s) rows
             \<and> (\<forall>c. Some c \<in> set (sy_cursors s) \<longrightarrow> cursor_at X c rows))))"

lemma live_cursor_pos: "Some c \<in> set (sy_cursors s) \<Longrightarrow> 0 < live_cursors s"
  unfolding live_cursors_def by (auto simp: filter_empty_conv)

lemma live_cursors_update:
  assumes "i < length (sy_cursors s)" and "sy_cursors s ! i = Some c"
  shows "live_cursors (s\<lparr>sy_cursors := (sy_cursors s)[i := Some c']\<rparr>) = live_cursors s"
    and "live_cursors (s\<lparr>sy_cursors := (sy_cursors s)[i := None]\<rparr>) + 1 = live_cursors s"
  using filter_update [OF assms(1), of "\<lambda>c. c \<noteq> None" "Some c'"]
    filter_update [OF assms(1), of "\<lambda>c. c \<noteq> None" None] assms(2)
  by (simp_all add: live_cursors_def)

text \<open>The invariant depends on the replay's file alone, and only until the publication fails.\<close>

lemma holds_prefix_cong: "f p = g p \<Longrightarrow> holds_prefix X f p rows = holds_prefix X g p rows"
  by (simp add: holds_prefix_def)

lemma store_at_cong:
  assumes "f (ri_path inner) = g (ri_path inner)" and "store_at X f wr inner rows"
  shows "store_at X g wr inner rows"
proof (cases wr)
  case None
  then show ?thesis
    using assms holds_prefix_cong [of f "ri_path inner" g X rows]
    by (auto simp: store_at_def split: pub_state.splits)
next
  case (Some wra)
  then show ?thesis
    using assms holds_prefix_cong [of f "ri_path inner" g X rows]
    by (cases "rp_writer wra") (auto simp: store_at_def writing_run_def split: pub_state.splits)
qed

lemma store_at_owners [simp]: "store_at X f wr (inner\<lparr>ri_owners := n\<rparr>) rows = store_at X f wr inner rows"
  by (simp add: store_at_def split: pub_state.splits option.splits)

lemma on_guard_inner:
  assumes "on_guard m (inner, w) = (r, (inner', w'))"
  shows "\<exists>g. inner' = inner\<lparr>ri_cleanup := g\<rparr>"
  using assms by (auto simp: on_guard_def split: prod.splits)

lemma guard_cleanup_fds: "guard_cleanup X (g, w) = (r, g', w') \<Longrightarrow> cg_fds g' = cg_fds g"
  by (auto simp: guard_cleanup_def split: option.splits prod.splits sum.splits)

lemma on_guard_cleanup:
  assumes "on_guard (guard_cleanup X) (inner, w) = (r, (inner', w'))"
  shows "ri_owners inner' = ri_owners inner" "cg_fds (ri_cleanup inner') = cg_fds (ri_cleanup inner)"
    "ri_publication inner' = ri_publication inner"
  using assms by (auto simp: on_guard_def dest: guard_cleanup_fds split: prod.splits)

lemma owner_drop_more:
  "owner_drop X rt (inner, w) = (inner', w') \<Longrightarrow> ri_owners inner \<noteq> 1 \<Longrightarrow>
    inner' = inner\<lparr>ri_owners := ri_owners inner - 1\<rparr> \<and> w' = w"
  by (simp add: owner_drop_def)

lemma owner_drop_last:
  "owner_drop X rt (inner, w) = (inner', w') \<Longrightarrow> ri_owners inner = 1 \<Longrightarrow> ri_owners inner' = 0"
  by (auto simp: owner_drop_def)

section \<open>Each step keeps the invariant\<close>

lemma system_okI:
  assumes "ri_owners (sy_inner s) = holders s"
    and "\<And>wr. sy_writer s = Some wr \<Longrightarrow> sy_replay s \<Longrightarrow> \<not> rp_inner wr"
    and "0 < holders s \<Longrightarrow> cg_fds (ri_cleanup (sy_inner s))"
    and "0 < holders s \<Longrightarrow> pb_state (ri_publication (sy_inner s)) \<noteq> Failed \<Longrightarrow>
      \<exists>rows. map row_value rows = vals \<and> store_at X (view (w_files w)) (sy_writer s) (sy_inner s) rows
        \<and> (\<forall>c. Some c \<in> set (sy_cursors s) \<longrightarrow> cursor_at X c rows)"
  shows "system_ok X view vals (s, w)"
  using assms by (auto simp: system_ok_def)

lemma append_ok:
  assumes L: "ext_laws X view hpath hpos" and ok: "system_ok X view vals (s, w)"
    and wr: "sy_writer s = Some wr"
    and run: "append_with_size X v n ((wr, sy_inner s), w) = (r, ((wr', inner'), w'))"
  shows "system_ok X view (vals @ (case r of Inl e \<Rightarrow> [] | Inr u \<Rightarrow> [v]))
    (s\<lparr>sy_writer := Some wr', sy_inner := inner'\<rparr>, w')"
proof -
  have same: "rp_inner wr' = rp_inner wr" "ri_owners inner' = ri_owners (sy_inner s)"
    "cg_fds (ri_cleanup inner') = cg_fds (ri_cleanup (sy_inner s))"
    using keepsD [OF store_append run] by (auto simp: same_store_def)
  have holders: "holders (s\<lparr>sy_writer := Some wr', sy_inner := inner'\<rparr>) = holders s"
    using same wr by (simp add: holders_def live_cursors_def)
  show ?thesis
  proof (cases r)
    case (Inl e)
    then have "pb_state (ri_publication inner') = Failed \<or> ((wr', inner'), w') = ((wr, sy_inner s), w)"
      using append_fault [of X v n "((wr, sy_inner s), w)"] run by (force simp: publication_of_def split: if_splits)
    then show ?thesis
      using ok holders same wr Inl by (intro system_okI) (auto simp: system_ok_def)
  next
    case (Inr u)
    have live: "rp_inner wr" "pb_state (ri_publication (sy_inner s)) = Writing"
      using run Inr by (auto simp: append_with_size_def act_ok publication_of_def)
    then have "0 < holders s" using wr by (simp add: holders_def)
    then obtain rows where rows: "map row_value rows = vals"
        "store_at X (view (w_files w)) (Some wr) (sy_inner s) rows"
        "\<forall>c. Some c \<in> set (sy_cursors s) \<longrightarrow> cursor_at X c rows"
      using ok live wr by (auto simp: system_ok_def)
    obtain row where "row_value row = v" "store_at X (view (w_files w')) (Some wr') inner' (rows @ [row])"
      using append_store [OF L _ rows(2)] run Inr by blast
    then show ?thesis
      using ok holders same wr rows Inr
      by (intro system_okI)
        (auto simp: system_ok_def cursor_at_more intro!: exI [of _ "rows @ [row]"])
  qed
qed

lemma seal_keeps:
  assumes "seal X ((wr, inner), w) = (r, ((wr', inner'), w'))"
  shows "ri_owners inner' = ri_owners inner \<and> cg_fds (ri_cleanup inner') = cg_fds (ri_cleanup inner)
    \<and> (rp_inner wr' \<longleftrightarrow> rp_inner wr \<and> r \<noteq> Inr ()) \<and> (r = Inr () \<longrightarrow> rp_inner wr)"
proof (cases "rp_inner wr")
  case False
  then show ?thesis using assms by (auto simp: seal_def active_def attempt_def fail_def)
next
  case True
  let ?m = "begin_operation (and_then (prepare X) (\<lambda>_. seal_finish X))"
  obtain q u where q: "?m ((wr, inner), w) = (q, u)" by (metis surj_pair)
  obtain wr1 inner1 w1 where u: "u = ((wr1, inner1), w1)" by (metis surj_pair)
  have "same_store ((wr, inner), w) u" using keepsD [OF store_seal q] .
  moreover have "r = q" "inner' = inner1" "wr' = (if q = Inr () then wr1\<lparr>rp_inner := False\<rparr> else wr1)"
    using assms q u True
    by (auto simp: seal_eq active_def attempt_def reading_def ret_def updating_def modify_def
        split: sum.splits)
  ultimately show ?thesis using True u by (auto simp: same_store_def)
qed

lemma seal_ok:
  assumes L: "ext_laws X view hpath hpos" and ok: "system_ok X view vals (s, w)"
    and wr: "sy_writer s = Some wr"
    and run: "seal X ((wr, sy_inner s), w) = (r, ((wr', inner'), w'))"
  shows "system_ok X view vals
    (s\<lparr>sy_writer := Some wr', sy_inner := inner', sy_replay := (r = Inr ()) \<or> sy_replay s\<rparr>, w')"
proof -
  note same = seal_keeps [OF run]
  have holders: "holders (s\<lparr>sy_writer := Some wr', sy_inner := inner', sy_replay := (r = Inr ()) \<or> sy_replay s\<rparr>) = holders s"
    using same wr ok by (auto simp: holders_def live_cursors_def system_ok_def)
  show ?thesis
  proof (cases r)
    case (Inl e)
    then have "pb_state (ri_publication inner') = Failed \<or> ((wr', inner'), w') = ((wr, sy_inner s), w)"
      using seal_fault [of X "((wr, sy_inner s), w)"] run by (force simp: publication_of_def split: if_splits)
    then show ?thesis
      using ok holders same wr Inl by (intro system_okI) (auto simp: system_ok_def)
  next
    case (Inr u)
    have live: "rp_inner wr" "pb_state (ri_publication (sy_inner s)) = Writing"
      using run Inr by (auto simp: seal_def act_ok publication_of_def)
    then have "0 < holders s" using wr by (simp add: holders_def)
    then obtain rows where rows: "map row_value rows = vals"
        "store_at X (view (w_files w)) (Some wr) (sy_inner s) rows"
        "\<forall>c. Some c \<in> set (sy_cursors s) \<longrightarrow> cursor_at X c rows"
      using ok live wr by (auto simp: system_ok_def)
    have "store_at X (view (w_files w')) (Some wr') inner' rows"
      using seal_store [OF L _ rows(2)] run Inr by blast
    then show ?thesis
      using ok holders same wr rows Inr
      by (intro system_okI) (auto simp: system_ok_def intro!: exI [of _ rows])
  qed
qed

lemma live_writer_fails:
  assumes "system_ok X view vals (s, w)" and "sy_writer s = Some wr" and "rp_inner wr"
  shows "pb_state (publication_fail (ri_publication (sy_inner s))) = Failed"
proof -
  have "0 < holders s" using assms by (simp add: holders_def)
  then have "pb_state (ri_publication (sy_inner s)) \<noteq> Sealed"
    using assms by (auto simp: system_ok_def store_at_def)
  then show ?thesis by (cases "pb_state (ri_publication (sy_inner s))") (auto simp: publication_fail_def)
qed

lemma abort_eq:
  "abort X ((wr, inner), w) =
     (if \<not> rp_inner wr then (Inr (), ((wr, inner), w))
      else let wr1 = wr\<lparr>rp_writer := None\<rparr>;
               inner1 = inner\<lparr>ri_publication := publication_fail (ri_publication inner)\<rparr>
           in if ri_owners inner \<noteq> 1 then (Inl (Raise ReplayInUse), ((wr1, inner1), w))
              else case on_guard (guard_cleanup X) (inner1, w) of (r, (inner', w')) \<Rightarrow> (r, ((wr1, inner'), w')))"
  by (simp add: abort_def reading_def attempt_def updating_def modify_def fail_def ret_def Let_def)

lemma abort_live:
  assumes run: "abort X ((wr, inner), w) = (r, ((wr', inner'), w'))" and live: "rp_inner wr"
  shows "wr' = wr\<lparr>rp_writer := None\<rparr> \<and> ri_owners inner' = ri_owners inner
    \<and> cg_fds (ri_cleanup inner') = cg_fds (ri_cleanup inner)
    \<and> ri_publication inner' = publication_fail (ri_publication inner)
    \<and> (ri_owners inner \<noteq> 1 \<longrightarrow> r = Inl (Raise ReplayInUse) \<and> w' = w \<and> ri_cleanup inner' = ri_cleanup inner)"
proof (cases "ri_owners inner = 1")
  case False
  then show ?thesis
    using run live by (auto simp: abort_eq Let_def)
next
  case one: True
  obtain q g u where q: "on_guard (guard_cleanup X)
      (inner\<lparr>ri_publication := publication_fail (ri_publication inner)\<rparr>, w) = (q, (g, u))"
    by (metis surj_pair)
  then have "inner' = g" "wr' = wr\<lparr>rp_writer := None\<rparr>"
    using run live one by (simp_all add: abort_eq Let_def)
  then show ?thesis
    using on_guard_cleanup [OF q] one by simp
qed

lemma abort_ok:
  assumes ok: "system_ok X view vals (s, w)" and wr: "sy_writer s = Some wr"
    and run: "abort X ((wr, sy_inner s), w) = (r, ((wr', inner'), w'))"
  shows "system_ok X view vals (s\<lparr>sy_writer := Some wr', sy_inner := inner'\<rparr>, w')"
proof (cases "rp_inner wr")
  case False
  then have "wr' = wr" "inner' = sy_inner s" "w' = w"
    using run by (auto simp: abort_def reading_def ret_def)
  then show ?thesis using ok wr by (cases s) simp
next
  case True
  note out = abort_live [OF run True] and failed = live_writer_fails [OF ok wr True]
  have holders: "holders (s\<lparr>sy_writer := Some wr', sy_inner := inner'\<rparr>) = holders s"
    using out wr by (simp add: holders_def live_cursors_def)
  show ?thesis
    using ok wr failed holders out
    by (intro system_okI) (auto simp: system_ok_def)
qed

text \<open>Letting go of one share of the storage.\<close>

lemma owner_drop_ok:
  assumes ok: "system_ok X view vals (s, w)" and run: "owner_drop X rt (sy_inner s, w) = (inner', w')"
    and less: "holders t + 1 = holders s" and writer: "sy_writer t = sy_writer s"
    and replay: "sy_replay t \<Longrightarrow> sy_replay s" and cursors: "\<And>c. Some c \<in> set (sy_cursors t) \<Longrightarrow> Some c \<in> set (sy_cursors s)"
  shows "system_ok X view vals (t\<lparr>sy_inner := inner'\<rparr>, w')"
proof -
  have holders: "holders (t\<lparr>sy_inner := inner'\<rparr>) = holders t" by (simp add: holders_def live_cursors_def)
  show ?thesis
  proof (cases "ri_owners (sy_inner s) = 1")
    case True
    then have "holders t = 0" using ok less by (simp add: system_ok_def)
    then show ?thesis
      using owner_drop_last [OF run True] holders writer replay ok
      by (intro system_okI) (auto simp: system_ok_def)
  next
    case False
    then have out: "inner' = (sy_inner s)\<lparr>ri_owners := ri_owners (sy_inner s) - 1\<rparr>" "w' = w"
      using owner_drop_more [OF run] by simp_all
    have "ri_owners (sy_inner s) = holders t + 1" "0 < holders s" using ok less by (auto simp: system_ok_def)
    then show ?thesis
      using ok holders writer replay cursors unfolding out
      by (intro system_okI) (auto simp: system_ok_def)
  qed
qed

lemma drop_writer_ok:
  assumes ok: "system_ok X view vals (s, w)" and wr: "sy_writer s = Some wr"
    and run: "writer_drop X rt ((wr, sy_inner s), w) = (inner', w')"
  shows "system_ok X view vals (s\<lparr>sy_writer := None, sy_inner := inner'\<rparr>, w')"
proof (cases "rp_inner wr")
  case False
  then have "inner' = sy_inner s" "w' = w" using run by (auto simp: writer_drop_def)
  moreover have "holders (s\<lparr>sy_writer := None, sy_inner := inner'\<rparr>) = holders s"
    using wr False by (simp add: holders_def live_cursors_def)
  ultimately show ?thesis
    using ok wr False
    by (intro system_okI) (auto simp: system_ok_def store_at_def split: pub_state.splits)
next
  case True
  let ?failed = "(sy_inner s)\<lparr>ri_publication := publication_fail (ri_publication (sy_inner s))\<rparr>"
  let ?s = "s\<lparr>sy_writer := Some (wr\<lparr>rp_inner := False\<rparr>), sy_inner := inner'\<rparr>"
  have failed: "system_ok X view vals (s\<lparr>sy_inner := ?failed\<rparr>, w)"
    using ok live_writer_fails [OF ok wr True]
    by (intro system_okI) (auto simp: system_ok_def holders_def live_cursors_def)
  have drop: "owner_drop X rt (?failed, w) = (inner', w')"
    using run True by (simp add: writer_drop_def)
  have less: "holders (s\<lparr>sy_writer := None, sy_inner := inner'\<rparr>) + 1 = holders s"
    using wr True by (simp add: holders_def live_cursors_def)
  show ?thesis
  proof (cases "ri_owners (sy_inner s) = 1")
    case one: True
    then show ?thesis
      using owner_drop_last [of X rt ?failed w] drop less ok by (intro system_okI) (auto simp: system_ok_def)
  next
    case False
    then show ?thesis
      using owner_drop_more [of X rt ?failed w] drop less ok live_writer_fails [OF ok wr True]
      by (intro system_okI) (auto simp: system_ok_def)
  qed
qed

lemma add_cursor_ok:
  assumes ok: "system_ok X view vals (s, w)" and live: "0 < holders s"
    and at: "\<And>rows. (\<forall>c. Some c \<in> set (sy_cursors s) \<longrightarrow> cursor_at X c rows) \<Longrightarrow> cursor_at X c' rows"
  shows "system_ok X view vals
    (s\<lparr>sy_inner := (sy_inner s)\<lparr>ri_owners := ri_owners (sy_inner s) + 1\<rparr>, sy_cursors := sy_cursors s @ [Some c']\<rparr>, w)"
proof -
  have "holders (s\<lparr>sy_inner := (sy_inner s)\<lparr>ri_owners := ri_owners (sy_inner s) + 1\<rparr>,
      sy_cursors := sy_cursors s @ [Some c']\<rparr>) = holders s + 1"
    by (simp add: holders_def live_cursors_def split: option.splits)
  then show ?thesis
    using ok live at by (intro system_okI) (auto simp: system_ok_def)
qed

lemma replace_cursor_ok:
  assumes ok: "system_ok X view vals (s, w)" and i: "i < length (sy_cursors s)" "sy_cursors s ! i = Some c"
    and files: "view (w_files w') = view (w_files w)"
    and at: "\<And>rows. map row_value rows = vals \<Longrightarrow> cursor_at X c rows \<Longrightarrow>
      store_at X (view (w_files w)) (sy_writer s) (sy_inner s) rows \<Longrightarrow> cursor_at X c' rows"
  shows "system_ok X view vals (s\<lparr>sy_cursors := (sy_cursors s)[i := Some c']\<rparr>, w')"
proof -
  have here: "Some c \<in> set (sy_cursors s)" using i nth_mem by metis
  have "holders (s\<lparr>sy_cursors := (sy_cursors s)[i := Some c']\<rparr>) = holders s"
    using live_cursors_update(1) [OF i] by (simp add: holders_def)
  moreover have "Some d \<in> set (sy_cursors s) \<or> d = c'" if "Some d \<in> set ((sy_cursors s)[i := Some c'])" for d
    using that set_update_subset_insert [of "sy_cursors s" i "Some c'"] by auto
  ultimately show ?thesis
    using ok here at files by (intro system_okI) (auto simp: system_ok_def, metis+)
qed

lemma pull_ok:
  assumes L: "ext_laws X view hpath hpos" and ok: "system_ok X view vals (s, w)"
    and i: "i < length (sy_cursors s)" "sy_cursors s ! i = Some c"
    and run: "next_committed X ((c, sy_inner s), w) = (r, ((c', inner'), w'))"
  shows "system_ok X view vals (s\<lparr>sy_inner := inner', sy_cursors := (sy_cursors s)[i := Some c']\<rparr>, w')"
    and "pb_state (ri_publication (sy_inner s)) \<noteq> Failed \<Longrightarrow> r = Inr u \<Longrightarrow>
      (case u of
         Item v \<Rightarrow> unat (rc_position c) < length vals \<and> v = vals ! unat (rc_position c)
           \<and> unat (rc_position c') = unat (rc_position c) + 1
       | AwaitingAppend \<Rightarrow> unat (rc_position c) = length vals \<and> c' = c \<and> pb_state (ri_publication (sy_inner s)) = Writing
       | Exhausted \<Rightarrow> unat (rc_position c) = length vals \<and> c' = c \<and> pb_state (ri_publication (sy_inner s)) = Sealed)"
proof -
  have here: "Some c \<in> set (sy_cursors s)" using i nth_mem by metis
  then have live: "0 < holders s" using live_cursor_pos by (simp add: holders_def)
  have files: "view (w_files w') = view (w_files w)"
    using next_committed_view [OF L run] by simp
  have at: "\<exists>rows. map row_value rows = vals \<and> store_at X (view (w_files w)) (sy_writer s) (sy_inner s) rows \<and> cursor_at X c rows"
    if "pb_state (ri_publication (sy_inner s)) \<noteq> Failed"
    using ok live here that by (auto simp: system_ok_def)
  have read: "inner' = sy_inner s \<and> cursor_at X c' rows \<and>
      (case u of
         Item v \<Rightarrow> unat (rc_position c) < length vals \<and> v = vals ! unat (rc_position c)
           \<and> unat (rc_position c') = unat (rc_position c) + 1
       | AwaitingAppend \<Rightarrow> unat (rc_position c) = length vals \<and> c' = c \<and> pb_state (ri_publication (sy_inner s)) = Writing
       | Exhausted \<Rightarrow> unat (rc_position c) = length vals \<and> c' = c \<and> pb_state (ri_publication (sy_inner s)) = Sealed)"
    if "r = Inr u" "map row_value rows = vals" "cursor_at X c rows"
      "store_at X (view (w_files w)) (sy_writer s) (sy_inner s) rows" for u rows
  proof -
    have *: "holds_prefix X (view (w_files w)) (ri_path (sy_inner s)) rows"
      "unat (pb_rows (ri_publication (sy_inner s))) = length rows"
      using that(4) by (simp_all add: store_at_def)
    show ?thesis
      using next_committed_value [OF L _ *(1) that(3) *(2)] run that(1,2) by (fastforce split: step.splits)
  qed
  show "system_ok X view vals (s\<lparr>sy_inner := inner', sy_cursors := (sy_cursors s)[i := Some c']\<rparr>, w')"
  proof (cases r)
    case (Inl e)
    then have "c' = c" "inner' = sy_inner s" using next_committed_fault run by fastforce+
    then show ?thesis using replace_cursor_ok [OF ok i files, of c] by simp
  next
    case (Inr u)
    have "pb_state (ri_publication (sy_inner s)) \<noteq> Failed"
      using run Inr by (auto simp: next_committed_def act_ok publication_snapshot_def split: if_splits)
    then have "inner' = sy_inner s" using at read Inr by metis
    then show ?thesis using replace_cursor_ok [OF ok i files, of c'] read Inr by simp
  qed
  show "case u of
         Item v \<Rightarrow> unat (rc_position c) < length vals \<and> v = vals ! unat (rc_position c)
           \<and> unat (rc_position c') = unat (rc_position c) + 1
       | AwaitingAppend \<Rightarrow> unat (rc_position c) = length vals \<and> c' = c \<and> pb_state (ri_publication (sy_inner s)) = Writing
       | Exhausted \<Rightarrow> unat (rc_position c) = length vals \<and> c' = c \<and> pb_state (ri_publication (sy_inner s)) = Sealed"
    if "pb_state (ri_publication (sy_inner s)) \<noteq> Failed" "r = Inr u"
    using at [OF that(1)] read [OF that(2)] by blast
qed

lemma close_ok:
  assumes ok: "system_ok X view vals (s, w)" and replay: "sy_replay s"
    and run: "replay_close X (sy_inner s, w) = (r, (inner', w'))"
  shows "system_ok X view vals (s\<lparr>sy_inner := inner', sy_replay := False\<rparr>, w')"
proof -
  let ?t = "s\<lparr>sy_replay := False\<rparr>"
  have less: "holders ?t + 1 = holders s" using replay by (simp add: holders_def live_cursors_def)
  show ?thesis
  proof (cases "ri_owners (sy_inner s) = 1")
    case False
    then have "owner_drop X True (sy_inner s, w) = (inner', w')"
      using run by (simp add: replay_close_def)
    from owner_drop_ok [OF ok this less] show ?thesis by (cases s) simp
  next
    case True
    obtain q g u where q: "on_guard (guard_cleanup X) (sy_inner s, w) = (q, (g, u))" by (metis surj_pair)
    then have "ri_owners inner' = 0"
      using run True on_guard_cleanup(1) [OF q] owner_drop_last [of X True g u]
      by (auto simp: replay_close_def)
    moreover have "holders (s\<lparr>sy_inner := inner', sy_replay := False\<rparr>) = 0"
      using True less ok by (simp add: system_ok_def holders_def live_cursors_def)
    ultimately show ?thesis by (intro system_okI) auto
  qed
qed

lemma outside_ok:
  assumes ok: "system_ok X view vals (s, w)"
    and files: "view (w_files w') (ri_path (sy_inner s)) = view (w_files w) (ri_path (sy_inner s))"
  shows "system_ok X view vals (s, w')"
proof -
  have "store_at X (view (w_files w')) (sy_writer s) (sy_inner s) rows"
    if "store_at X (view (w_files w)) (sy_writer s) (sy_inner s) rows" for rows
    using store_at_cong [of "view (w_files w)" "sy_inner s" "view (w_files w')"] files that by simp
  then show ?thesis using ok unfolding system_ok_def by fastforce
qed

lemma prefix_cursor_ok:
  "prefix_cursor (wr, inner) = Inr (c, inner') \<Longrightarrow>
    rp_inner wr \<and> c = cursor_start \<and> inner' = inner\<lparr>ri_owners := ri_owners inner + 1\<rparr>
    \<and> pb_state (ri_publication inner) \<noteq> Failed"
  by (auto simp: prefix_cursor_def cursor_new_def publication_snapshot_def split: if_splits sum.splits)

lemma replay_step_ok:
  assumes L: "ext_laws X view hpath hpos"
    and step: "replay_step X view s e t" and ok: "system_ok X view vals s"
  shows "system_ok X view (vals @ appended [e]) t"
  using step ok
proof cases
  case (append s wr v n w r wr' inner' w')
  then show ?thesis
    using append_ok [OF L] ok by (cases r) (fastforce simp: appended_def)+
next
  case (seal s wr w r wr' inner' w')
  then show ?thesis using seal_ok [OF L] ok by (simp add: appended_def)
next
  case (abort s wr w r wr' inner' w')
  then show ?thesis using abort_ok ok by (simp add: appended_def)
next
  case (drop_writer s wr rt w inner' w')
  then show ?thesis using drop_writer_ok ok by (simp add: appended_def)
next
  case (prefix s wr c inner' w)
  then have "rp_inner wr" "c = cursor_start" "inner' = (sy_inner s)\<lparr>ri_owners := ri_owners (sy_inner s) + 1\<rparr>"
    by (auto simp: prefix_cursor_def cursor_new_def split: if_splits sum.splits)
  then show ?thesis
    using add_cursor_ok [of X view vals s w cursor_start] prefix ok by (simp add: appended_def holders_def)
next
  case (cursor s c inner' w)
  then show ?thesis
    using add_cursor_ok [of X view vals s w cursor_start] ok
    by (auto simp: appended_def holders_def cursor_new_def)
next
  case (clone i s c c' inner' w)
  have here: "Some c \<in> set (sy_cursors s)" using clone nth_mem by metis
  then have "0 < holders s" using live_cursor_pos by (simp add: holders_def)
  moreover have "c' = c" "inner' = (sy_inner s)\<lparr>ri_owners := ri_owners (sy_inner s) + 1\<rparr>"
    using clone by (auto simp: cursor_clone_def)
  ultimately show ?thesis
    using add_cursor_ok [of X view vals s w c] here clone ok by (simp add: appended_def)
next
  case (rewind i s c w)
  then show ?thesis using replace_cursor_ok [of X view vals s w i c w] ok by (simp add: appended_def)
next
  case (pull i s c w r c' inner' w')
  then show ?thesis using pull_ok(1) [OF L] ok by (simp add: appended_def)
next
  case (drop_cursor i s c rt w inner' w')
  let ?t = "s\<lparr>sy_cursors := (sy_cursors s)[i := None]\<rparr>"
  have "holders ?t + 1 = holders s"
    using live_cursors_update(2) [OF drop_cursor(4,5)] by (simp add: holders_def)
  moreover have "Some d \<in> set (sy_cursors s)" if "Some d \<in> set ((sy_cursors s)[i := None])" for d
    using that set_update_subset_insert [of "sy_cursors s" i None] by auto
  ultimately show ?thesis
    using owner_drop_ok [of X view vals s w rt inner' w' ?t] drop_cursor ok by (cases s) (simp add: appended_def)
next
  case (close s w r inner' w')
  then show ?thesis using close_ok ok by (simp add: appended_def)
next
  case (drop_replay s rt w inner' w')
  let ?t = "s\<lparr>sy_replay := False\<rparr>"
  have "holders ?t + 1 = holders s" using drop_replay by (simp add: holders_def live_cursors_def)
  then show ?thesis
    using owner_drop_ok [of X view vals s w rt inner' w' ?t] drop_replay ok by (cases s) (simp add: appended_def)
next
  case (outside w' s w)
  then show ?thesis using outside_ok ok by (simp add: appended_def)
qed

lemma replay_run_ok:
  assumes L: "ext_laws X view hpath hpos" and run: "replay_run X view evs s"
  shows "system_ok X view (appended evs) s"
  using run
proof induction
  case (start dir lease wr inner w)
  then show ?case
    by (auto simp: replay_writer_new_def replay_inner_new_def guard_set_fd_budget_def guard_disarmed_def
        publication_new_def system_ok_def holders_def live_cursors_def store_at_def holds_prefix_def
        appended_def split: if_splits)
next
  case (step evs s e t)
  then show ?case using replay_step_ok [OF L] by (simp add: appended_snoc)
qed

end
