(* ===== verification/ReplayLog.thy ===== *)
theory ReplayLog
  imports ReplaySystem
begin

text \<open>
  What a replay promises: an append-only log with a terminal state and counting readers, as an
  executable automaton on the events of theory ReplaySystem, and the refinement: it accepts the
  events of every reachable state. The laws of the terminal states are proved on the automaton.
\<close>

section \<open>The log\<close>

record 'v replay_log =
  lg_values :: "'v list"
  lg_state :: pub_state
  lg_writer :: bool
  lg_replay :: bool
  lg_cursors :: "nat option list"

definition log_new :: "'v replay_log" where
  "log_new = \<lparr>lg_values = [], lg_state = Writing, lg_writer = True, lg_replay = False, lg_cursors = []\<rparr>"

definition log_cursor :: "nat \<Rightarrow> 'v replay_log \<Rightarrow> nat option" where
  "log_cursor i l = (if i < length (lg_cursors l) then lg_cursors l ! i else None)"

definition log_readers :: "'v replay_log \<Rightarrow> bool" where
  "log_readers l = (\<exists>c \<in> set (lg_cursors l). c \<noteq> None)"

text \<open>A fault of the writer: fatal while it can write, \<open>SessionFailed\<close> without effect afterwards.\<close>

definition log_fault :: "fault \<Rightarrow> 'v replay_log \<Rightarrow> 'v replay_log option" where
  "log_fault f l =
     (if lg_writer l \<and> lg_state l = Writing then Some (l\<lparr>lg_state := Failed\<rparr>)
      else if f = Raise SessionFailed then Some l else None)"

definition log_pull :: "nat \<Rightarrow> nat \<Rightarrow> fault + 'v step \<Rightarrow> 'v replay_log \<Rightarrow> 'v replay_log option" where
  "log_pull i p r l =
     (case r of
        Inl f \<Rightarrow> if lg_state l = Failed \<and> f \<noteq> Raise ReplaySourceFailed then None else Some l
      | Inr (Item v) \<Rightarrow>
          if lg_state l \<noteq> Failed \<and> p < length (lg_values l) \<and> lg_values l ! p = v
          then Some (l\<lparr>lg_cursors := (lg_cursors l)[i := Some (p + 1)]\<rparr>) else None
      | Inr AwaitingAppend \<Rightarrow> if lg_state l = Writing \<and> p = length (lg_values l) then Some l else None
      | Inr Exhausted \<Rightarrow> if lg_state l = Sealed \<and> p = length (lg_values l) then Some l else None)"

fun log_step :: "'v replay_log \<Rightarrow> 'v replay_event \<Rightarrow> 'v replay_log option" where
  "log_step l (Append v (Inr u)) =
     (if lg_writer l \<and> lg_state l = Writing then Some (l\<lparr>lg_values := lg_values l @ [v]\<rparr>) else None)"
| "log_step l (Append v (Inl f)) = log_fault f l"
| "log_step l (Seal (Inr u)) =
     (if lg_writer l \<and> lg_state l = Writing
      then Some (l\<lparr>lg_state := Sealed, lg_writer := False, lg_replay := True\<rparr>) else None)"
| "log_step l (Seal (Inl f)) = log_fault f l"
| "log_step l (Abort r) =
     (if \<not> lg_writer l then if r = Inr () then Some l else None
      else if log_readers l \<and> r \<noteq> Inl (Raise ReplayInUse) then None
      else Some (l\<lparr>lg_state := Failed\<rparr>))"
| "log_step l DropWriter =
     Some (if lg_writer l then l\<lparr>lg_writer := False, lg_state := Failed\<rparr> else l)"
| "log_step l Cursor =
     (if lg_replay l \<or> lg_writer l \<and> lg_state l \<noteq> Failed
      then Some (l\<lparr>lg_cursors := lg_cursors l @ [Some 0]\<rparr>) else None)"
| "log_step l (Clone i) =
     map_option (\<lambda>p. l\<lparr>lg_cursors := lg_cursors l @ [Some p]\<rparr>) (log_cursor i l)"
| "log_step l (Rewind i) =
     map_option (\<lambda>_. l\<lparr>lg_cursors := (lg_cursors l)[i := Some 0]\<rparr>) (log_cursor i l)"
| "log_step l (Pull i r) = Option.bind (log_cursor i l) (\<lambda>p. log_pull i p r l)"
| "log_step l (DropCursor i) =
     map_option (\<lambda>_. l\<lparr>lg_cursors := (lg_cursors l)[i := None]\<rparr>) (log_cursor i l)"
| "log_step l (Close r) =
     (if \<not> lg_replay l \<or> log_readers l \<and> r \<noteq> Inl (Raise ReplayInUse) then None
      else Some (l\<lparr>lg_replay := False\<rparr>))"
| "log_step l DropReplay = (if lg_replay l then Some (l\<lparr>lg_replay := False\<rparr>) else None)"
| "log_step l Outside = Some l"

fun log_run :: "'v replay_log \<Rightarrow> 'v replay_event list \<Rightarrow> 'v replay_log option" where
  "log_run l [] = Some l"
| "log_run l (e # evs) = Option.bind (log_step l e) (\<lambda>l'. log_run l' evs)"

lemma log_run_append: "log_run l (evs @ evs') = Option.bind (log_run l evs) (\<lambda>l'. log_run l' evs')"
  by (induction evs arbitrary: l) (auto simp: Option.bind_assoc split: Option.bind_splits)

section \<open>The simulation\<close>

definition log_of :: "'v list \<Rightarrow> replay_system \<Rightarrow> 'v replay_log" where
  "log_of vals s =
     \<lparr>lg_values = vals, lg_state = pb_state (ri_publication (sy_inner s)),
      lg_writer = (case sy_writer s of None \<Rightarrow> False | Some wr \<Rightarrow> rp_inner wr),
      lg_replay = sy_replay s, lg_cursors = map (map_option (\<lambda>c. unat (rc_position c))) (sy_cursors s)\<rparr>"

lemma log_of_cursor:
  "i < length (sy_cursors s) \<Longrightarrow> sy_cursors s ! i = Some c \<Longrightarrow>
    log_cursor i (log_of vals s) = Some (unat (rc_position c))"
  by (simp add: log_cursor_def log_of_def)

lemma log_of_readers: "log_readers (log_of vals s) \<longleftrightarrow> 0 < live_cursors s"
  by (auto simp: log_readers_def log_of_def live_cursors_def filter_empty_conv)

lemma owner_drop_publication:
  "owner_drop X rt (inner, w) = (inner', w') \<Longrightarrow> ri_publication inner' = ri_publication inner"
  by (auto simp: owner_drop_def split: if_splits)

lemma log_of_simps [simp]:
  "lg_values (log_of vals s) = vals" "lg_state (log_of vals s) = pb_state (ri_publication (sy_inner s))"
  "lg_replay (log_of vals s) = sy_replay s" "sy_writer s = Some wr \<Longrightarrow> lg_writer (log_of vals s) = rp_inner wr"
  by (simp_all add: log_of_def)

lemma log_of_eqI:
  assumes "lg_values l = vals" "lg_state l = pb_state (ri_publication (sy_inner s))"
    "lg_writer l = (case sy_writer s of None \<Rightarrow> False | Some wr \<Rightarrow> rp_inner wr)" "lg_replay l = sy_replay s"
    "lg_cursors l = map (map_option (\<lambda>c. unat (rc_position c))) (sy_cursors s)"
  shows "l = log_of vals s"
  using assms by (simp add: log_of_def)

lemma append_log:
  assumes run: "append_with_size X v n ((wr, sy_inner s), w) = (r, ((wr', inner'), w'))"
    and wr: "sy_writer s = Some wr"
  shows "log_step (log_of vals s) (Append v r)
    = Some (log_of (vals @ appended [Append v r]) (s\<lparr>sy_writer := Some wr', sy_inner := inner'\<rparr>))"
proof -
  have same: "rp_inner wr' = rp_inner wr"
    using keepsD [OF store_append run] by (auto simp: same_store_def)
  show ?thesis
  proof (cases r)
    case (Inl f)
    note append_fault [OF run [unfolded Inl]]
    then show ?thesis
      using wr same Inl
      by (auto simp: log_fault_def appended_def publication_of_def split: if_splits intro!: log_of_eqI) (simp_all add: log_of_def)
  next
    case (Inr u)
    have "rp_inner wr" "pb_state (ri_publication (sy_inner s)) = Writing"
      using run Inr by (auto simp: append_eq act_ok publication_of_def)
    moreover from this have "pb_state (ri_publication inner') = Writing"
      using keepsD [OF state_append_body, of X v n "((wr, sy_inner s), w)"] run Inr
      by (fastforce simp: append_eq act_ok same_state_def publication_of_def)
    ultimately show ?thesis
      using wr same Inr by (auto simp: appended_def log_of_def)
  qed
qed

lemma seal_log:
  assumes L: "ext_laws X view hpath hpos"
    and run: "seal X ((wr, sy_inner s), w) = (r, ((wr', inner'), w'))" and wr: "sy_writer s = Some wr"
    and ok: "system_ok X view vals (s, w)"
  shows "log_step (log_of vals s) (Seal r)
    = Some (log_of vals (s\<lparr>sy_writer := Some wr', sy_inner := inner', sy_replay := (r = Inr ()) \<or> sy_replay s\<rparr>))"
proof (cases r)
  case (Inl f)
  note seal_fault [OF run [unfolded Inl]] seal_keeps [OF run]
  then show ?thesis
    using wr Inl by (auto simp: log_fault_def log_of_def publication_of_def split: if_splits)
next
  case (Inr u)
  have live: "rp_inner wr" "pb_state (ri_publication (sy_inner s)) = Writing"
    using run Inr by (auto simp: seal_eq act_ok publication_of_def)
  then have "0 < holders s" using wr by (simp add: holders_def)
  then obtain rows where "store_at X (view (w_files w)) (Some wr) (sy_inner s) rows"
    using ok live wr by (auto simp: system_ok_def)
  then have "pb_state (ri_publication inner') = Sealed"
    using seal_store [OF L _] run Inr by blast
  then show ?thesis
    using wr Inr live seal_keeps [OF run] by (auto simp: log_of_def)
qed

lemma replace_log:
  assumes "i < length (sy_cursors s)" "sy_cursors s ! i = Some c"
  shows "log_of vals (s\<lparr>sy_inner := sy_inner s, sy_cursors := (sy_cursors s)[i := Some c]\<rparr>) = log_of vals s"
proof -
  have "(sy_cursors s)[i := Some c] = sy_cursors s" using assms(2) by (metis list_update_id)
  then show ?thesis by (simp add: log_of_def)
qed

lemma readers_own:
  assumes ok: "system_ok X view vals (s, w)" and readers: "0 < live_cursors s"
    and owner: "sy_replay s \<or> sy_writer s = Some wr \<and> rp_inner wr"
  shows "ri_owners (sy_inner s) \<noteq> 1"
  using assms by (auto simp: system_ok_def holders_def)

lemma abort_log:
  assumes run: "abort X ((wr, sy_inner s), w) = (r, ((wr', inner'), w'))" and wr: "sy_writer s = Some wr"
    and ok: "system_ok X view vals (s, w)"
  shows "log_step (log_of vals s) (Abort r)
    = Some (log_of vals (s\<lparr>sy_writer := Some wr', sy_inner := inner'\<rparr>))"
proof (cases "rp_inner wr")
  case False
  then have "wr' = wr" "inner' = sy_inner s" "w' = w" "r = Inr ()"
    using run by (auto simp: abort_def reading_def ret_def)
  then show ?thesis using wr False by (simp add: log_of_def)
next
  case True
  note out = abort_live [OF run True] and failed = live_writer_fails [OF ok wr True]
  have "r = Inl (Raise ReplayInUse)" if "log_readers (log_of vals s)"
    using readers_own [OF ok _ disjI2] wr True that out by (simp add: log_of_readers)
  then show ?thesis
    using out failed wr True by (auto simp: log_of_def)
qed

lemma drop_writer_log:
  assumes run: "writer_drop X rt ((wr, sy_inner s), w) = (inner', w')" and wr: "sy_writer s = Some wr"
    and ok: "system_ok X view vals (s, w)"
  shows "log_step (log_of vals s) DropWriter = Some (log_of vals (s\<lparr>sy_writer := None, sy_inner := inner'\<rparr>))"
proof (cases "rp_inner wr")
  case False
  then show ?thesis using run wr by (simp add: writer_drop_def log_of_def)
next
  case True
  then have "ri_publication inner' = publication_fail (ri_publication (sy_inner s))"
    using owner_drop_publication run by (fastforce simp: writer_drop_def)
  then show ?thesis using live_writer_fails [OF ok wr True] wr True by (simp add: log_of_def)
qed

lemma next_committed_failed:
  "pb_state (ri_publication (snd (fst s))) = Failed \<Longrightarrow>
    next_committed X s = (Inl (Raise ReplaySourceFailed), s)"
  by (cases s) (auto simp: next_committed_def snapshot_now_def attempt_def reading_def publication_snapshot_def
      fail_def split: prod.splits)

lemma pull_log:
  assumes L: "ext_laws X view hpath hpos" and ok: "system_ok X view vals (s, w)"
    and i: "i < length (sy_cursors s)" "sy_cursors s ! i = Some c"
    and run: "next_committed X ((c, sy_inner s), w) = (r, ((c', inner'), w'))"
  shows "log_step (log_of vals s) (Pull i r)
    = Some (log_of vals (s\<lparr>sy_inner := inner', sy_cursors := (sy_cursors s)[i := Some c']\<rparr>))"
proof (cases "pb_state (ri_publication (sy_inner s)) = Failed")
  case True
  then show ?thesis
    using next_committed_failed [of "((c, sy_inner s), w)" X] run log_of_cursor [OF i, of vals] replace_log [OF i, of vals]
    by (auto simp: log_pull_def)
next
  case live: False
  show ?thesis
  proof (cases r)
    case (Inl f)
    then have "c' = c" "inner' = sy_inner s" using next_committed_fault run by fastforce+
    then show ?thesis
      using Inl live log_of_cursor [OF i, of vals] replace_log [OF i, of vals] by (simp add: log_pull_def)
  next
    case (Inr u)
    have "pull": "case u of
         Item v \<Rightarrow> unat (rc_position c) < length vals \<and> v = vals ! unat (rc_position c)
           \<and> unat (rc_position c') = unat (rc_position c) + 1
       | AwaitingAppend \<Rightarrow> unat (rc_position c) = length vals \<and> c' = c \<and> pb_state (ri_publication (sy_inner s)) = Writing
       | Exhausted \<Rightarrow> unat (rc_position c) = length vals \<and> c' = c \<and> pb_state (ri_publication (sy_inner s)) = Sealed"
      by (rule pull_ok(2) [OF L ok i run live Inr])
    have "inner' = sy_inner s" using next_committed_inner run Inr by fastforce
    then show ?thesis
      using "pull" Inr live i log_of_cursor [OF i, of vals]
        replace_log [OF i, of vals]
      by (cases u) (auto simp: log_pull_def map_update intro!: log_of_eqI, simp_all add: log_of_def map_update)
  qed
qed

lemma close_log:
  assumes run: "replay_close X (sy_inner s, w) = (r, (inner', w'))" and replay: "sy_replay s"
    and ok: "system_ok X view vals (s, w)"
  shows "log_step (log_of vals s) (Close r)
    = Some (log_of vals (s\<lparr>sy_inner := inner', sy_replay := False\<rparr>))"
proof -
  obtain q g u where q: "on_guard (guard_cleanup X) (sy_inner s, w) = (q, (g, u))" by (metis surj_pair)
  have "ri_publication inner' = ri_publication (sy_inner s)"
    using run q on_guard_cleanup(3) [OF q] owner_drop_publication
    by (fastforce simp: replay_close_def split: if_splits)
  moreover have "r = Inl (Raise ReplayInUse)" if "log_readers (log_of vals s)"
    using readers_own [OF ok _ disjI1] replay that run by (simp add: log_of_readers replay_close_def)
  ultimately show ?thesis using replay by (auto simp: log_of_def)
qed

lemma replay_step_log:
  assumes L: "ext_laws X view hpath hpos"
    and step: "replay_step X view (s, w) e (t, w')" and ok: "system_ok X view vals (s, w)"
  shows "log_step (log_of vals s) e = Some (log_of (vals @ appended [e]) t)"
  using step
proof cases
  case (append wr v n r wr' inner')
  then show ?thesis using append_log by simp
next
  case (seal wr r wr' inner')
  then show ?thesis using seal_log [OF L] ok by (simp add: appended_def)
next
  case (abort wr r wr' inner')
  then show ?thesis using abort_log ok by (simp add: appended_def del: log_step.simps)
next
  case (drop_writer wr rt inner')
  then show ?thesis using drop_writer_log ok by (simp add: appended_def del: log_step.simps)
next
  case (prefix wr c inner')
  then show ?thesis
    by (auto simp: prefix_cursor_def cursor_new_def cursor_start_def log_of_def appended_def
        publication_snapshot_def split: if_splits sum.splits)
next
  case (cursor c inner')
  then show ?thesis
    by (auto simp: cursor_new_def cursor_start_def log_of_def appended_def)
next
  case (clone i c c' inner')
  then show ?thesis
    using log_of_cursor [OF clone(4,5)] by (auto simp: cursor_clone_def log_of_def appended_def)
next
  case (rewind i c)
  then show ?thesis
    using log_of_cursor [OF rewind(4,5), of vals]
    by (auto simp: cursor_rewind_def appended_def map_update intro!: log_of_eqI) (simp_all add: log_of_def map_update)
next
  case (pull i c r c' inner')
  then show ?thesis using pull_log [OF L ok] by (simp add: appended_def del: log_step.simps)
next
  case (drop_cursor i c rt inner')
  then show ?thesis
    using log_of_cursor [OF drop_cursor(3,4), of vals] owner_drop_publication [OF drop_cursor(5)]
    by (auto simp: appended_def map_update intro!: log_of_eqI) (simp_all add: log_of_def map_update)
next
  case (close r inner')
  then show ?thesis using close_log ok by (simp add: appended_def del: log_step.simps)
next
  case (drop_replay rt inner')
  then show ?thesis
    using owner_drop_publication [OF drop_replay(4)] by (auto simp: log_of_def appended_def)
next
  case outside
  then show ?thesis by (simp add: appended_def)
qed

lemma replay_run_log:
  assumes L: "ext_laws X view hpath hpos" and run: "replay_run X view evs (s, w)"
  shows "log_run log_new evs = Some (log_of (appended evs) s)"
  using run
proof (induction evs "(s, w)" arbitrary: s w)
  case (start dir lease wr inner w)
  then show ?case
    by (auto simp: replay_writer_new_def replay_inner_new_def guard_set_fd_budget_def guard_disarmed_def
        publication_new_def log_of_def log_new_def appended_def split: if_splits)
next
  case (step evs s e t w)
  obtain s' w' where s: "s = (s', w')" by (metis surj_pair)
  have "log_step (log_of (appended evs) s') e = Some (log_of (appended evs @ appended [e]) t)"
    using replay_step_log [OF L] step s replay_run_ok [OF L] by blast
  then show ?case
    using step s by (simp add: log_run_append appended_snoc)
qed

section \<open>Terminal states\<close>

text \<open>The steps by which a writer that has not sealed gives up.\<close>

fun gives_up :: "'v replay_event \<Rightarrow> bool" where
  "gives_up (Append v (Inl f)) = (f \<noteq> Raise SessionFailed)"
| "gives_up (Seal (Inl f)) = (f \<noteq> Raise SessionFailed)"
| "gives_up (Abort r) = True"
| "gives_up DropWriter = True"
| "gives_up _ = False"

text \<open>What can still happen in a terminal state.\<close>

fun after_end :: "pub_state \<Rightarrow> 'v replay_event \<Rightarrow> bool" where
  "after_end st (Append v r) = (r = Inl (Raise SessionFailed))"
| "after_end st (Seal r) = (r = Inl (Raise SessionFailed))"
| "after_end st (Pull i r) =
     (if st = Failed then r = Inl (Raise ReplaySourceFailed) else r \<noteq> Inr AwaitingAppend)"
| "after_end st _ = True"

definition log_ok :: "'v replay_log \<Rightarrow> bool" where
  "log_ok l \<longleftrightarrow>
     (lg_writer l \<longrightarrow> lg_state l \<noteq> Sealed) \<and> (\<not> lg_writer l \<longrightarrow> lg_state l \<noteq> Writing)
     \<and> (lg_replay l \<longrightarrow> lg_state l = Sealed)"

lemma log_fault_ok: "log_fault f l = Some l' \<Longrightarrow> log_ok l \<Longrightarrow> log_ok l' \<and> lg_values l' = lg_values l"
  by (auto simp: log_fault_def log_ok_def split: if_splits)

lemma log_pull_same: "log_pull i p r l = Some l' \<Longrightarrow>
    lg_values l' = lg_values l \<and> lg_state l' = lg_state l \<and> lg_writer l' = lg_writer l \<and> lg_replay l' = lg_replay l"
  by (auto simp: log_pull_def split: sum.splits step.splits if_splits)

lemma log_step_ok: "log_step l e = Some l' \<Longrightarrow> log_ok l \<Longrightarrow> log_ok l'"
  using log_fault_ok
  by (induction l e rule: log_step.induct)
    (auto simp: log_ok_def dest!: log_pull_same split: if_splits Option.bind_splits)

lemma pub_state_Failed: "st \<noteq> Sealed \<Longrightarrow> st \<noteq> Writing \<Longrightarrow> Failed = st"
  by (cases st) simp_all

lemma log_step_end:
  "log_step l e = Some l' \<Longrightarrow> log_ok l \<Longrightarrow> lg_state l \<noteq> Writing \<Longrightarrow>
    lg_state l' = lg_state l \<and> lg_values l' = lg_values l \<and> after_end (lg_state l) e"
  by (induction l e rule: log_step.induct)
    (auto simp: log_ok_def log_fault_def log_pull_def
      split: if_splits Option.bind_splits sum.splits step.splits intro: pub_state_Failed)

lemma log_run_end:
  "log_run l evs = Some l' \<Longrightarrow> log_ok l \<Longrightarrow> lg_state l \<noteq> Writing \<Longrightarrow>
    lg_state l' = lg_state l \<and> lg_values l' = lg_values l \<and> (\<forall>e \<in> set evs. after_end (lg_state l) e)"
proof (induction evs arbitrary: l)
  case (Cons e evs)
  then obtain l1 where 1: "log_step l e = Some l1" "log_run l1 evs = Some l'"
    by (auto split: Option.bind_splits)
  note log_step_end [OF 1(1) Cons.prems(2,3)] log_step_ok [OF 1(1) Cons.prems(2)]
  then show ?case using Cons.IH [OF 1(2)] Cons.prems(3) by simp
qed simp

lemma log_run_ok: "log_run l evs = Some l' \<Longrightarrow> log_ok l \<Longrightarrow> log_ok l'"
  by (induction evs arbitrary: l) (auto dest: log_step_ok split: Option.bind_splits)

lemma log_run_sealed:
  "log_run l evs = Some l' \<Longrightarrow> lg_state l' = Sealed \<Longrightarrow> lg_state l \<noteq> Sealed \<Longrightarrow> Seal (Inr ()) \<in> set evs"
proof (induction evs arbitrary: l)
  case (Cons e evs)
  then obtain l1 where 1: "log_step l e = Some l1" "log_run l1 evs = Some l'"
    by (auto split: Option.bind_splits)
  have "e = Seal (Inr ()) \<or> lg_state l1 \<noteq> Sealed"
    using 1(1) Cons.prems(3)
    by (induction l e rule: log_step.induct)
      (auto simp: log_fault_def log_pull_def split: if_splits Option.bind_splits sum.splits step.splits)
  then show ?case using Cons 1(2) by auto
qed simp

lemma log_gives_up:
  "log_step l e = Some l' \<Longrightarrow> gives_up e \<Longrightarrow> log_ok l \<Longrightarrow> lg_state l \<noteq> Sealed \<Longrightarrow> lg_state l' = Failed"
  by (induction l e rule: log_step.induct)
    (auto simp: log_ok_def log_fault_def split: if_splits, (metis pub_state.exhaust)+)

lemma log_new_ok [simp]: "log_ok log_new" "lg_state log_new = Writing" "lg_values log_new = []"
  by (simp_all add: log_ok_def log_new_def)


lemma log_step_values: "log_step l e = Some l' \<Longrightarrow> lg_values l' = lg_values l @ appended [e]"
  by (induction l e rule: log_step.induct)
    (auto simp: appended_def log_fault_def log_pull_def split: if_splits Option.bind_splits sum.splits step.splits)

lemma log_run_values: "log_run log_new evs = Some l \<Longrightarrow> lg_values l = appended evs"
proof -
  have "log_run l0 evs = Some l \<Longrightarrow> lg_values l = lg_values l0 @ appended evs" for l0 :: "'a replay_log"
    by (induction evs arbitrary: l0) (auto simp: appended_def dest!: log_step_values split: Option.bind_splits)
  from this [of log_new] show "log_run log_new evs = Some l \<Longrightarrow> lg_values l = appended evs" by simp
qed

lemma log_gives_up_values: "log_step l e = Some l' \<Longrightarrow> gives_up e \<Longrightarrow> lg_values l' = lg_values l"
  using log_step_values [of l e l'] by (induction e rule: gives_up.induct) (auto simp: appended_def)

lemma replay_is_sealed:
  assumes "ext_laws X view hpath hpos" and "replay_run X view evs (s, w)" and "sy_replay s"
  shows "pb_state (ri_publication (sy_inner s)) = Sealed"
proof -
  have "log_ok (log_of (appended evs) s)"
    using log_run_ok [OF replay_run_log [OF assms(1,2)]] by simp
  then show ?thesis using assms(3) by (simp add: log_ok_def)
qed

section \<open>Properties\<close>

text \<open>C3. A replay behaves as an append-only log: every sequence of appends, seals, aborts, cursor
  operations, drops and steps of the rest of the process, from a new writer on, is one the log
  automaton accepts. Its cursors read exactly the values whose append returned, each once and in
  order; they wait only at the end of a log still written and end only at the end of a sealed one;
  a fault of the live writer fails the log. The final log has the appended values and the
  positions and state of the model.\<close>

theorem replay_refines_log:
  assumes "ext_laws X view hpath hpos" and "replay_run X view evs (s, w)"
  shows "log_run log_new evs
    = Some \<lparr>lg_values = appended evs, lg_state = pb_state (ri_publication (sy_inner s)),
        lg_writer = (case sy_writer s of None \<Rightarrow> False | Some wr \<Rightarrow> rp_inner wr),
        lg_replay = sy_replay s, lg_cursors = map (map_option (\<lambda>c. unat (rc_position c))) (sy_cursors s)\<rparr>"
  using replay_run_log [OF assms] by (simp add: log_of_def)

text \<open>C18. An end of input is final: once any cursor has returned \<open>Exhausted\<close>, the log has been
  sealed, no later append or seal succeeds or changes what was written, and no cursor is ever
  asked to wait again.\<close>

theorem exhausted_is_final:
  assumes L: "ext_laws X view hpath hpos"
    and run: "replay_run X view (evs @ Pull i (Inr Exhausted) # evs') s"
  shows "Seal (Inr ()) \<in> set evs \<and> appended (evs @ Pull i (Inr Exhausted) # evs') = appended evs
    \<and> (\<forall>e \<in> set evs'. after_end Sealed e)"
proof -
  let ?evs = "evs @ Pull i (Inr Exhausted) # evs'"
  obtain t w where s: "s = (t, w)" by (metis surj_pair)
  obtain l l1 where l: "log_run log_new evs = Some l" and l1: "log_step l (Pull i (Inr Exhausted)) = Some l1"
    and l2: "log_run l1 evs' = Some (log_of (appended ?evs) t)"
    using replay_run_log [OF L, of ?evs t w] run s by (auto simp: log_run_append split: Option.bind_splits)
  have "lg_state l = Sealed" "l1 = l"
    using l1 by (auto simp: log_pull_def split: Option.bind_splits if_splits)
  moreover have "log_ok l" using log_run_ok [OF l] by simp
  ultimately have "lg_values (log_of (appended ?evs) t) = lg_values l" "\<forall>e \<in> set evs'. after_end Sealed e"
    "Seal (Inr ()) \<in> set evs"
    using log_run_end [OF l2] log_run_sealed [OF l] by auto
  then show ?thesis using log_run_values [OF l] by simp
qed

text \<open>C17. A writer that gives up is seen by everyone: after an append or seal that fails for
  another reason than being over, and after an abort or a drop of a writer that has not sealed,
  no append or seal ever succeeds and every read of every cursor fails with \<open>ReplaySourceFailed\<close>,
  so an incomplete log is never taken for a complete one.\<close>

theorem failed_writer_is_final:
  assumes L: "ext_laws X view hpath hpos"
    and run: "replay_run X view (evs @ e # evs') s"
    and e: "gives_up e" "Seal (Inr ()) \<notin> set evs"
  shows "appended (evs @ e # evs') = appended evs \<and> (\<forall>e' \<in> set evs'. after_end Failed e')"
proof -
  let ?evs = "evs @ e # evs'"
  obtain t w where s: "s = (t, w)" by (metis surj_pair)
  obtain l l1 where l: "log_run log_new evs = Some l" and l1: "log_step l e = Some l1"
    and l2: "log_run l1 evs' = Some (log_of (appended ?evs) t)"
    using replay_run_log [OF L, of ?evs t w] run s by (auto simp: log_run_append split: Option.bind_splits)
  have ok: "log_ok l" using log_run_ok [OF l] by simp
  have "lg_state l \<noteq> Sealed" using log_run_sealed [OF l] e(2) by auto
  then have "lg_state l1 = Failed" "lg_values l1 = lg_values l"
    using log_gives_up [OF l1 e(1) ok] log_gives_up_values [OF l1 e(1)] by simp_all
  then have "appended ?evs = lg_values l" "\<forall>e' \<in> set evs'. after_end Failed e'"
    using log_run_end [OF l2 log_step_ok [OF l1 ok]] by simp_all
  then show ?thesis using log_run_values [OF l] by simp
qed

end
