(* ===== verification/ReplaySafety.thy ===== *)
theory ReplaySafety
  imports ReplayLog SessionCalm
begin

text \<open>
  What a replay holds and what can go wrong in it (src/engine/replay/): the accounts of its
  operations, the absence of panics, and what close and abort leave on the disk.
\<close>

section \<open>Accounts\<close>

text \<open>The bytes charged beyond the reservation that the guard of the storage keeps.\<close>

definition spare :: "('s \<times> replay_inner) \<times> 'fs world \<Rightarrow> u64" where
  "spare s = held_bytes (snd s) - charge_bytes (cg_reservation (ri_cleanup (snd (fst s))))"

lemma spare_on_world:
  assumes "conserves held_bytes a m b"
  shows "conserves spare a (on_world m) b"
proof (rule conservesI)
  fix s :: "('x \<times> replay_inner) \<times> 'a world" and e t
  assume "on_world m s = (Inl e, t)"
  then show "spare t = spare s - a"
    using conserves_fault [OF assms] by (auto simp: on_world_def spare_def split: prod.splits)
next
  fix s :: "('x \<times> replay_inner) \<times> 'a world" and x t
  assume "on_world m s = (Inr x, t)"
  then show "spare t = spare s - a + b x"
    using conserves_value [OF assms] by (auto simp: on_world_def spare_def split: prod.splits)
qed

lemma spare_updating:
  "(\<And>wr inner. cg_reservation (ri_cleanup (snd (g (wr, inner)))) = cg_reservation (ri_cleanup inner)) \<Longrightarrow>
    conserves spare 0 (updating g) (\<lambda>_. 0)"
  by (auto simp: conserves_def updating_def modify_def spare_def split: prod.splits)

lemma spare_drop [simp]:
  "spare (drop_charge c s) = spare s - c" "spare (cursor_row_drop row s) = spare s - charge_bytes (row_charge row)"
  by (cases s; simp add: drop_charge_def cursor_row_drop_def spare_def held_release held_drops)+

lemma spare_on_publication: "conserves spare 0 (on_publication f) (\<lambda>_. 0)"
  by (rule conservesI) (auto simp: on_publication_def on_inner_def spare_def split: prod.splits sum.splits)

text \<open>Arming moves a charge from the operation to the guard.\<close>

lemma spare_arm:
  assumes f: "\<And>x. conserves spare 0 (f x) b"
  shows "conserves spare c (attempt (drop_charge c) (on_inner (inner_arm c)) f) b"
proof (rule conservesI)
  fix s :: "(replay_writer \<times> replay_inner) \<times> 'a world" and e t
  assume run: "attempt (drop_charge c) (on_inner (inner_arm c)) f s = (Inl e, t)"
  then show "spare t = spare s - c"
    using conserves_fault [OF f, of _ _ e t] spare_drop(1) [of c s]
    by (auto simp: act_fault act_ok inner_arm_def guard_retain_def split: if_splits)
      (simp add: spare_def charge_bytes_def)
next
  fix s :: "(replay_writer \<times> replay_inner) \<times> 'a world" and x t
  assume run: "attempt (drop_charge c) (on_inner (inner_arm c)) f s = (Inr x, t)"
  then show "spare t = spare s - c + b x"
    using conserves_value [OF f, of _ _ x t]
    by (auto simp: act_ok inner_arm_def guard_retain_def spare_def charge_bytes_def split: if_splits)
qed

lemma active_conserves: "conserves spare 0 active (\<lambda>_. 0)"
  unfolding active_def by (auto intro!: conserves_reading conserves_ret conserves_fail split: prod.splits)

lemma prepare_conserves: "conserves spare 0 (prepare X) (\<lambda>_. 0)"
  unfolding prepare_def
  by (auto intro!: conserves_reading conserves_ret conserves_and_then [OF active_conserves]
      conserves_and_then [OF conserves_ok_or] conserves_and_then [OF spare_on_world [OF reserve_conserves]]
      spare_arm conserves_and_then [OF spare_on_world [OF perform_conserves [OF io_conserves]]]
      conserves_and_then [OF spare_on_world [OF run_writer_create_conserves]] spare_updating split: prod.splits)

lemma append_row_conserves: "conserves spare 0 (append_row X row n) (\<lambda>_. 0)"
  unfolding append_row_def
  by (auto intro!: conserves_reading conserves_fail
      conserves_and_then [OF spare_on_world [OF run_writer_write_row_conserves]]
      conserves_and_then [OF spare_updating] spare_on_publication split: prod.splits option.splits)

lemma append_body_conserves: "conserves spare 0 (append_body X v n) (\<lambda>_. 0)"
  unfolding append_body_def Let_def
  by (auto intro!: conserves_reading conserves_and_then [OF conserves_ok_or]
      conserves_and_then [OF spare_on_world [OF reserve_conserves]]
      conserves_attempt_neutral [OF prepare_conserves] conserves_attempt_neutral [OF append_row_conserves]
      conserves_modify split: prod.splits)

lemma spare_fail [simp]: "spare (fail_inner s) = spare s"
  by (auto simp: fail_inner_def spare_def split: prod.splits)

lemma begin_conserves:
  assumes "conserves spare 0 body b"
  shows "conserves spare 0 (begin_operation body) b"
  by (rule conservesI) (auto simp: act_ok act_fault dest: conserves_fault [OF assms] conserves_value [OF assms])

lemma append_conserves: "conserves spare 0 (append_with_size X v n) (\<lambda>_. 0)"
  unfolding append_eq
  by (intro conserves_and_then [OF active_conserves] begin_conserves append_body_conserves)

lemma seal_conserves: "conserves spare 0 (seal X) (\<lambda>_. 0)"
proof -
  have "conserves spare 0 (seal_finish X) (\<lambda>_. 0)"
    unfolding seal_finish_def
    by (auto intro!: conserves_reading conserves_fail conserves_and_then [OF spare_updating]
        conserves_and_then [OF spare_on_world [OF run_writer_finish_conserves]] spare_on_publication
        split: prod.splits option.splits)
  then show ?thesis
    unfolding seal_eq
    by (auto intro!: conserves_and_then [OF active_conserves] conserves_and_then [OF begin_conserves]
        conserves_and_then [OF prepare_conserves] spare_updating)
qed

lemma snapshot_conserves: "conserves spare 0 snapshot_now (\<lambda>_. 0)"
  unfolding snapshot_now_def
  by (auto intro!: conserves_reading conserves_ret conserves_fail split: prod.splits sum.splits)

lemma read_committed_conserves:
  fixes X :: "('fs, 'h, unit, 'v) ext"
  shows "conserves spare m (read_committed X m) (\<lambda>_. 0)"
proof -
  let ?spare = "spare :: (replay_cursor \<times> replay_inner) \<times> 'fs world \<Rightarrow> u64"
  have found: "conserves ?spare (row_bytes r) (ok_or e r) (\<lambda>row. charge_bytes (row_charge row))"
    for r :: "(unit, 'v) run_row option" and e
    by (cases r) (auto simp: ok_or_def intro: conserves_ret conserves_fail)
  have deliver: "conserves ?spare (charge_bytes (row_charge row) + m)
      (attempt (\<lambda>s. drop_charge m (cursor_row_drop row s)) snapshot_now (\<lambda>_.
       attempt (\<lambda>s. drop_charge m (cursor_row_drop row s)) (ok_or e n) (\<lambda>next_position.
       and_then (updating (\<lambda>(c, inner). (c\<lparr>rc_offset := off, rc_position := next_position\<rparr>, inner))) (\<lambda>_.
       and_then (modify (\<lambda>s. drop_charge m (cursor_row_drop row s))) (\<lambda>_. ret (Item (row_value row)))))))
      (\<lambda>_. 0)" for row :: "(unit, 'v) run_row" and e n off
  proof (intro conserves_attempt_neutral [OF snapshot_conserves] conserves_attempt_neutral [OF conserves_ok_or])
    show "conserves ?spare (charge_bytes (row_charge row) + m)
       (and_then (updating (\<lambda>(c, inner). (c\<lparr>rc_offset := off, rc_position := p\<rparr>, inner))) (\<lambda>_.
        and_then (modify (\<lambda>s. drop_charge m (cursor_row_drop row s))) (\<lambda>_. ret (Item (row_value row)))))
       (\<lambda>_. 0)" for p
      by (auto simp: conserves_def attempt_def updating_def modify_def ret_def)
        (simp_all add: spare_def)
  qed (simp_all add: algebra_simps)
  have take: "conserves ?spare (row_bytes r + m) (attempt (drop_charge m) (ok_or e r) g) (\<lambda>_. 0)"
    if "\<And>row. conserves spare (charge_bytes (row_charge row) + m) (g row) (\<lambda>_. 0)"
    for r :: "(unit, 'v) run_row option" and e and g :: "(unit, 'v) run_row \<Rightarrow> ('fs, 'v step) cursor_act"
    by (rule conserves_attempt [OF found]) (simp_all add: that)
  have here: "conserves ?spare m (attempt (drop_charge m)
       (on_world (run_reader_next_row X rd)) (\<lambda>(found, reader).
        attempt (drop_charge m) (ok_or e found) (f reader))) (\<lambda>_. 0)"
    if "\<And>reader row. conserves spare (charge_bytes (row_charge row) + m) (f reader row) (\<lambda>_. 0)"
    for rd e and f :: "run_reader \<Rightarrow> (unit, 'v) run_row \<Rightarrow> ('fs, 'v step) cursor_act"
    using take [OF that]
    by (intro conserves_attempt_gain [OF spare_on_world [OF run_reader_next_row_conserves]])
      (auto split: prod.splits)
  show ?thesis
    unfolding read_committed_def Let_def
    by (intro conserves_reading) (auto intro!: here deliver split: prod.splits)
qed

lemma next_committed_conserves: "conserves spare 0 (next_committed X) (\<lambda>_. 0)"
  unfolding next_committed_def
  by (auto intro!: conserves_and_then [OF snapshot_conserves] conserves_reading conserves_ret
      conserves_and_then [OF spare_on_world [OF reserve_conserves]] read_committed_conserves split: prod.splits)

lemma guard_spare:
  assumes "on_guard (guard_cleanup X) (inner, w) = (r, (inner', w'))"
  shows "spare ((x, inner'), w') = spare ((y, inner), w)"
  using assms guard_cleanup_held by (fastforce simp: on_guard_def spare_def split: prod.splits)

lemma owner_drop_spare:
  assumes "owner_drop X rt (inner, w) = (inner', w')"
  shows "spare ((x, inner'), w') = spare ((y, inner), w)"
  using assms
  by (auto simp: owner_drop_def spare_def held_guard_drop guard_disarmed_def charge_bytes_def split: if_splits)

section \<open>Panics\<close>

definition unprepared_ok :: "replay_writer \<times> replay_inner \<Rightarrow> bool" where
  "unprepared_ok = (\<lambda>(wr, inner). rp_writer wr = None \<longrightarrow> cg_reservation (ri_cleanup inner) = None)"

lemma prepare_calm:
  assumes "unprepared_ok (fst s)" and "prepare X s = (r, t)"
  shows "r \<noteq> Inl (Panic p) \<and> (r = Inr () \<longrightarrow> rp_writer (fst (fst t)) \<noteq> None)"
  using assms
  by (cases s; cases r)
    (auto simp: prepare_def act_ok act_fault unprepared_ok_def inner_arm_def guard_retain_def
      dest: calm_panic [OF calm_reserve] calm_panic [OF calm_perform] calm_panic [OF calm_runs(1)]
      split: prod.splits if_splits)

lemma publication_calm:
  "on_publication (publication_publish n) s \<noteq> (Inl (Panic p), t)"
  "on_publication publication_seal s \<noteq> (Inl (Panic p), t)"
  by (auto simp: on_publication_def act_fault publication_publish_def publication_seal_def split: if_splits)

lemma append_row_calm:
  assumes "rp_writer (fst (fst s)) \<noteq> None" and "append_row X row n s = (Inl (Panic p), t)"
  shows False
  using assms
  by (auto simp: append_row_def act_fault act_ok publication_calm
      dest: calm_panic [OF calm_runs(2)] split: prod.splits option.splits)

lemma seal_finish_calm:
  assumes "rp_writer (fst (fst s)) \<noteq> None" and "seal_finish X s = (Inl (Panic p), t)"
  shows False
  using assms
  by (auto simp: seal_finish_def act_fault act_ok publication_calm
      dest: calm_panic [OF calm_runs(3)] split: prod.splits option.splits)

lemma append_body_calm:
  assumes ok: "unprepared_ok (fst s)" and run: "append_body X v n s = (Inl (Panic p), t)"
  shows False
proof -
  obtain wr inner w where s: "s = ((wr, inner), w)" by (metis surj_pair)
  have "prepare X u \<noteq> (Inl (Panic p), t')" if "fst u = fst s" for u t'
    using prepare_calm [of u X "Inl (Panic p)" t' p] ok that by auto
  moreover have "rp_writer (fst (fst t')) \<noteq> None" if "prepare X u = (Inr (), t')" "fst u = fst s" for u t'
    using prepare_calm [of u X "Inr ()" t'] ok that by auto
  ultimately show ?thesis
    using run s
    by (auto simp: append_body_def act_fault act_ok Let_def
        dest: calm_panic [OF calm_reserve] append_row_calm [rotated] split: prod.splits)
qed

lemma append_calm:
  assumes "rp_inner wr \<Longrightarrow> pb_state (ri_publication inner) = Writing \<Longrightarrow> unprepared_ok (wr, inner)"
  shows "append_with_size X v n ((wr, inner), w) \<noteq> (Inl (Panic p), t)"
proof
  assume "append_with_size X v n ((wr, inner), w) = (Inl (Panic p), t)"
  from guarded_fault [OF this [unfolded append_eq]] show False
    using append_body_calm assms by (fastforce simp: publication_of_def split: if_splits)
qed

lemma seal_body_calm:
  assumes ok: "unprepared_ok (fst s)" and run: "and_then (prepare X) (\<lambda>_. seal_finish X) s = (Inl (Panic p), t)"
  shows False
proof -
  obtain r u where u: "prepare X s = (r, u)" by (metis surj_pair)
  show ?thesis
    using prepare_calm [OF ok u] run u seal_finish_calm [of u X p t]
    by (cases r) (auto simp: attempt_def)
qed

lemma seal_calm:
  assumes "rp_inner wr \<Longrightarrow> pb_state (ri_publication inner) = Writing \<Longrightarrow> unprepared_ok (wr, inner)"
  shows "seal X ((wr, inner), w) \<noteq> (Inl (Panic p), t)"
proof
  assume "seal X ((wr, inner), w) = (Inl (Panic p), t)"
  then have "and_then active (\<lambda>_. begin_operation (and_then (prepare X) (\<lambda>_. seal_finish X))) ((wr, inner), w)
      = (Inl (Panic p), t)"
    by (rule seal_guarded)
  from guarded_fault [OF this] show False
    using seal_body_calm assms by (fastforce simp: publication_of_def split: if_splits)
qed

lemma next_committed_calm:
  "next_committed X s \<noteq> (Inl (Panic p), t)"
  by (auto simp: next_committed_def read_committed_def act_fault act_ok Let_def publication_snapshot_def
      dest: calm_panic [OF calm_reserve] calm_panic [OF calm_runs(5)] split: prod.splits if_splits)

lemma on_guard_calm:
  assumes "cg_fds (ri_cleanup inner)" and "on_guard (guard_cleanup X) (inner, w) = (r, t)"
  shows "r \<noteq> Inl (Panic p)"
  using assms guard_cleanup_calm by (fastforce simp: on_guard_def split: prod.splits)

text \<open>\<open>abort\<close> and \<open>close\<close> run the cleanup of the guard, or nothing but drop their share.\<close>

lemma abort_cases:
  assumes "abort X ((wr, inner), w) = (r, ((wr', inner'), w'))"
  shows "inner' = inner \<and> w' = w \<and> r = Inr ()
    \<or> rp_inner wr \<and> inner' = inner\<lparr>ri_publication := publication_fail (ri_publication inner)\<rparr> \<and> w' = w
        \<and> r = Inl (Raise ReplayInUse)
    \<or> rp_inner wr \<and> on_guard (guard_cleanup X)
        (inner\<lparr>ri_publication := publication_fail (ri_publication inner)\<rparr>, w) = (r, (inner', w'))"
proof -
  obtain q g u where "on_guard (guard_cleanup X)
      (inner\<lparr>ri_publication := publication_fail (ri_publication inner)\<rparr>, w) = (q, (g, u))"
    by (metis surj_pair)
  then show ?thesis
    using assms by (auto simp: abort_eq Let_def split: if_splits)
qed

lemma close_cases:
  assumes "replay_close X (inner, w) = (r, (inner', w'))"
  obtains "ri_owners inner \<noteq> 1" "r = Inl (Raise ReplayInUse)" "owner_drop X True (inner, w) = (inner', w')"
  | g u where "ri_owners inner = 1" "on_guard (guard_cleanup X) (inner, w) = (r, (g, u))"
      "owner_drop X True (g, u) = (inner', w')"
proof -
  obtain q g u where q: "on_guard (guard_cleanup X) (inner, w) = (q, (g, u))" by (metis surj_pair)
  then show thesis
    using assms that by (auto simp: replay_close_def split: if_splits)
qed

lemma fail_spare:
  "spare ((x, inner\<lparr>ri_publication := p\<rparr>), w) = spare ((x, inner), w)"
  by (simp add: spare_def)

lemma abort_spare:
  "abort X ((wr, inner), w) = (r, ((wr', inner'), w')) \<Longrightarrow> spare (((), inner'), w') = spare (((), inner), w)"
  using fail_spare
  by (auto dest!: abort_cases guard_spare [where x = "()" and y = "()"])

lemma abort_calm:
  "abort X ((wr, inner), w) = (r, ((wr', inner'), w')) \<Longrightarrow> (rp_inner wr \<Longrightarrow> cg_fds (ri_cleanup inner)) \<Longrightarrow>
    r \<noteq> Inl (Panic p)"
  using on_guard_calm [of "inner\<lparr>ri_publication := publication_fail (ri_publication inner)\<rparr>" X w r "(inner', w')"]
  by (auto dest!: abort_cases)

lemma close_spare:
  assumes "replay_close X (inner, w) = (r, (inner', w'))"
  shows "spare (((), inner'), w') = spare (((), inner), w)"
  using assms(1)
proof (rule close_cases)
  fix g u
  assume "on_guard (guard_cleanup X) (inner, w) = (r, (g, u))" "owner_drop X True (g, u) = (inner', w')"
  then show ?thesis
    using guard_spare [where x = "()" and y = "()"] owner_drop_spare [where x = "()" and y = "()"] by metis
qed (rule owner_drop_spare)

lemma close_calm:
  assumes "replay_close X (inner, w) = (r, (inner', w'))" and "cg_fds (ri_cleanup inner)"
  shows "r \<noteq> Inl (Panic p)"
  using assms(1)
proof (rule close_cases)
  fix g u
  assume "on_guard (guard_cleanup X) (inner, w) = (r, (g, u))"
  then show ?thesis by (rule on_guard_calm [OF assms(2)])
qed simp

section \<open>Steps\<close>

text \<open>The fault an operation ended with.\<close>

definition event_fault :: "'v replay_event \<Rightarrow> fault option" where
  "event_fault e =
     (case e of
        Append v (Inl f) \<Rightarrow> Some f | Seal (Inl f) \<Rightarrow> Some f | Abort (Inl f) \<Rightarrow> Some f
      | Pull i (Inl f) \<Rightarrow> Some f | Close (Inl f) \<Rightarrow> Some f | _ \<Rightarrow> None)"

lemma system_unprepared:
  assumes "system_ok X view vals (s, w)" and "sy_writer s = Some wr"
    and "rp_inner wr" and "pb_state (ri_publication (sy_inner s)) = Writing"
  shows "unprepared_ok (wr, sy_inner s)"
proof -
  have "0 < holders s" using assms by (simp add: holders_def)
  then show ?thesis
    using assms by (auto simp: system_ok_def store_at_def unprepared_ok_def)
qed

lemma system_fds: "system_ok X view vals (s, w) \<Longrightarrow> 0 < holders s \<Longrightarrow> cg_fds (ri_cleanup (sy_inner s))"
  by (simp add: system_ok_def)

lemma replay_step_calm:
  assumes step: "replay_step X view (s, w) e (t, w')" and ok: "system_ok X view vals (s, w)"
  shows "event_fault e \<noteq> Some (Panic p)"
  using step
proof cases
  case (append wr v n r wr' inner')
  then show ?thesis
    using append_calm [of wr "sy_inner s" X v n w p] system_unprepared [OF ok append(3)]
    by (cases r) (auto simp: event_fault_def)
next
  case (seal wr r wr' inner')
  then show ?thesis
    using seal_calm [of wr "sy_inner s" X w p] system_unprepared [OF ok seal(3)]
    by (cases r) (auto simp: event_fault_def)
next
  case (abort wr r wr' inner')
  have "cg_fds (ri_cleanup (sy_inner s))" if "rp_inner wr"
    using system_fds [OF ok] abort(3) that by (simp add: holders_def)
  then show ?thesis
    using abort_calm [OF abort(4)] abort(1) by (cases r) (auto simp: event_fault_def)
next
  case (pull i c r c' inner')
  then show ?thesis
    using next_committed_calm [of X] by (cases r) (auto simp: event_fault_def)
next
  case (close r inner')
  have "cg_fds (ri_cleanup (sy_inner s))"
    using system_fds [OF ok] close(3) by (simp add: holders_def)
  then show ?thesis
    using close_calm [OF close(4)] close(1) by (cases r) (auto simp: event_fault_def)
qed (simp_all add: event_fault_def)

lemma replay_run_calm:
  assumes L: "ext_laws X view hpath hpos"
  shows "replay_run X view evs s \<Longrightarrow> e \<in> set evs \<Longrightarrow> event_fault e \<noteq> Some (Panic p)"
proof (induction rule: replay_run.induct)
  case (step evs s e' t)
  have "event_fault e' \<noteq> Some (Panic p)"
    using replay_step_calm [of X view "fst s" "snd s" e' "fst t" "snd t"] step(2) replay_run_ok [OF L step(1)]
    by fastforce
  then show ?case using step by auto
qed simp

text \<open>Bytes charged next to the replay's own reservation.\<close>

definition system_spare :: "replay_system \<times> 'fs world \<Rightarrow> u64" where
  "system_spare = (\<lambda>(s, w). spare (((), sy_inner s), w))"

lemma neutral_run: "conserves \<mu> 0 m (\<lambda>_. 0) \<Longrightarrow> m s = (r, t) \<Longrightarrow> \<mu> t = \<mu> s"
  by (cases r) (auto dest: conserves_fault conserves_value)

lemma drop_writer_spare:
  assumes "writer_drop X rt ((wr, inner), w) = (inner', w')"
  shows "spare (((), inner'), w') = spare (((), inner), w)"
proof (cases "rp_inner wr")
  case True
  then have "owner_drop X rt (inner\<lparr>ri_publication := publication_fail (ri_publication inner)\<rparr>, w) = (inner', w')"
    using assms by (simp add: writer_drop_def)
  then show ?thesis using owner_drop_spare fail_spare by metis
qed (use assms in \<open>simp add: writer_drop_def\<close>)

lemma owners_spare: "spare (((), inner\<lparr>ri_owners := n\<rparr>), w) = spare (((), inner), w)"
  by (simp add: spare_def)

lemma replay_step_spare:
  assumes step: "replay_step X view (s, w) e (t, w')" and e: "e \<noteq> Outside"
  shows "system_spare (t, w') = system_spare (s, w)"
  using step
proof cases
  case (append wr v n r wr' inner')
  then show ?thesis
    using neutral_run [OF append_conserves append(4)] by (simp add: system_spare_def spare_def)
next
  case (seal wr r wr' inner')
  then show ?thesis
    using neutral_run [OF seal_conserves seal(4)] by (simp add: system_spare_def spare_def)
next
  case (abort wr r wr' inner')
  then show ?thesis
    using abort_spare [OF abort(4)] by (simp add: system_spare_def)
next
  case (drop_writer wr rt inner')
  then show ?thesis
    using drop_writer_spare [OF drop_writer(4)] by (simp add: system_spare_def)
next
  case (prefix wr c inner')
  then show ?thesis using prefix_cursor_ok [OF prefix(5)] by (simp add: system_spare_def owners_spare)
next
  case (cursor c inner')
  then show ?thesis by (auto simp: cursor_new_def system_spare_def owners_spare)
next
  case (clone i c c' inner')
  then show ?thesis by (auto simp: cursor_clone_def system_spare_def owners_spare)
next
  case (rewind i c)
  then show ?thesis by (simp add: system_spare_def)
next
  case (pull i c r c' inner')
  then show ?thesis
    using neutral_run [OF next_committed_conserves pull(5)] by (simp add: system_spare_def spare_def)
next
  case (drop_cursor i c rt inner')
  then show ?thesis using owner_drop_spare [OF drop_cursor(5)] by (simp add: system_spare_def)
next
  case (close r inner')
  then show ?thesis using close_spare [OF close(4)] by (simp add: system_spare_def)
next
  case (drop_replay rt inner')
  then show ?thesis using owner_drop_spare [OF drop_replay(4)] by (simp add: system_spare_def)
next
  case outside
  then show ?thesis using e by simp
qed

end
