(* ===== verification/ReplayProperties.thy ===== *)
theory ReplayProperties
  imports ReplaySafety
begin

text \<open>
  Properties of a replay in use (src/engine/replay/): no panics, its accounts, what a failed
  read and a close leave behind.
\<close>

lemma owner_drop_keeps_files:
  assumes "owner_drop X rt (inner, w) = (inner', w')" and "cg_dir (ri_cleanup inner) = None"
  shows "w_files w' = w_files w"
  using assms
  by (auto simp: owner_drop_def guard_drop_def release_opt_def release_def split: if_splits option.splits)

lemma owner_drop_reservation:
  "owner_drop X rt (inner, w) = (inner', w') \<Longrightarrow> ri_owners inner = 1 \<Longrightarrow> cg_reservation (ri_cleanup inner') = None"
  by (auto simp: owner_drop_def guard_disarmed_def)

text \<open>C20. No \<open>expect\<close> or assertion of the replay fires: in every run of a replay no append,
  seal, abort, pull or close ends in a panic; a prepared writer is there when it is used, the
  scratch reservation is assigned once, and the guard has its descriptor budget.\<close>

theorem replay_never_panics:
  assumes "ext_laws X view hpath hpos" and "replay_run X view evs s" and "e \<in> set evs"
  shows "event_fault e \<noteq> Some (Panic p)"
  using replay_run_calm assms .


text \<open>C22. A pull leaves the storage, the files and the memory in use as they were, and one that
  fails leaves the checkpoint where it was, so reading again is safe.\<close>

theorem failed_pull_keeps_checkpoint:
  assumes L: "ext_laws X view hpath hpos"
    and run: "next_committed X ((c, inner), w) = (r, ((c', inner'), w'))"
  shows "inner' = inner \<and> view (w_files w') = view (w_files w) \<and> held_bytes w' = held_bytes w
    \<and> (case r of Inl f \<Rightarrow> c' = c | Inr (Item v) \<Rightarrow> unat (rc_position c') = unat (rc_position c) + 1 | Inr _ \<Rightarrow> c' = c)"
proof -
  have "inner' = inner"
  proof (cases r)
    case (Inl f)
    then show ?thesis using next_committed_fault [of X "((c, inner), w)" f] run by simp
  next
    case (Inr u)
    then show ?thesis using next_committed_inner [of X "((c, inner), w)" u] run by simp
  qed
  moreover have "view (w_files w') = view (w_files w)" using next_committed_view [OF L run] by simp
  moreover have "held_bytes w' = held_bytes w"
    using neutral_run [OF next_committed_conserves run] \<open>inner' = inner\<close> by (simp add: spare_def)
  moreover have "case r of Inl f \<Rightarrow> c' = c | Inr (Item v) \<Rightarrow> unat (rc_position c') = unat (rc_position c) + 1 | Inr _ \<Rightarrow> c' = c"
  proof (cases r)
    case (Inl f)
    then show ?thesis using next_committed_fault [of X "((c, inner), w)" f] run by simp
  next
    case (Inr u)
    then show ?thesis using next_committed_position [of X c inner w u c' inner' w'] run by (cases u) simp_all
  qed
  ultimately show ?thesis by blast
qed

text \<open>C19. Closing a replay never takes the file from a reader: while a cursor is alive, close
  returns \<open>ReplayInUse\<close> and changes neither files nor budget nor publication. With no cursor
  left, a close that returns has removed every file of the replay's directory, touched nothing
  outside it and given the reservation back.\<close>

theorem close_waits_for_readers:
  assumes L: "ext_laws X view hpath hpos" and run: "replay_run X view evs (s, w)"
    and close: "replay_step X view (s, w) (Close r) (t, w')"
  shows "if 0 < live_cursors s
    then r = Inl (Raise ReplayInUse) \<and> w' = w \<and> ri_publication (sy_inner t) = ri_publication (sy_inner s)
    else r = Inr () \<longrightarrow>
      (\<forall>name. view (w_files w') (join (ri_dir (sy_inner s)) name) = None)
      \<and> (\<forall>q. take (length (ri_dir (sy_inner s))) q \<noteq> ri_dir (sy_inner s) \<longrightarrow> view (w_files w') q = view (w_files w) q)
      \<and> held_bytes w' = held_bytes w - charge_bytes (cg_reservation (ri_cleanup (sy_inner s)))
      \<and> cg_reservation (ri_cleanup (sy_inner t)) = None"
  using close
proof cases
  case (close inner')
  note ok = replay_run_ok [OF L run]
  have dir: "cg_dir (ri_cleanup (sy_inner s)) = Some (ri_dir (sy_inner s))"
    using ok replay_is_sealed [OF L run close(2)] close(2) by (auto simp: system_ok_def holders_def store_at_def)
  show ?thesis
    using close(3)
  proof (rule close_cases)
    assume "ri_owners (sy_inner s) \<noteq> 1" "r = Inl (Raise ReplayInUse)"
      and drop: "owner_drop X True (sy_inner s, w) = (inner', w')"
    then show ?thesis using owner_drop_more [OF drop] close(1) by simp
  next
    fix g u
    assume one: "ri_owners (sy_inner s) = 1" and clean: "on_guard (guard_cleanup X) (sy_inner s, w) = (r, (g, u))"
      and drop: "owner_drop X True (g, u) = (inner', w')"
    have "\<not> 0 < live_cursors s" using readers_own [OF ok] close(2) one by auto
    moreover have "?thesis" if returned: "r = Inr ()" and "\<not> 0 < live_cursors s"
    proof -
      obtain c where c: "guard_cleanup X (ri_cleanup (sy_inner s), w) = (Inr (), c, u)" "ri_cleanup g = c"
        using clean returned by (auto simp: on_guard_def split: prod.splits)
      note gone = guard_cleanup_ok [OF L c(1) dir]
      have "w_files w' = w_files u" "ri_owners g = 1"
        using owner_drop_keeps_files [OF drop] gone c(2) on_guard_cleanup(1) [OF clean] one by simp_all
      moreover have "held_bytes w' = held_bytes u"
        using owner_drop_spare [OF drop, of "()" "()"] owner_drop_reservation [OF drop] gone c(2) \<open>ri_owners g = 1\<close>
        by (simp add: spare_def charge_bytes_def)
      ultimately show ?thesis
        using that gone close(1) owner_drop_reservation [OF drop] by simp
    qed
    ultimately show ?thesis by auto
  qed
qed

end
