(* ===== verification/MemReplay.thy ===== *)
theory MemReplay
  imports ReplayProperties MemFiles
begin

text \<open>
  Replays on the in-memory instance: an executable driver of the step relation of theory
  ReplaySystem, and the concrete runs the witnesses of the replay properties use.
\<close>

section \<open>The instance\<close>

definition replay_decode :: "u8 list \<Rightarrow> string + (unit, u8) row_payload" where
  "replay_decode bs = (case bs of v # ordinal \<Rightarrow> Inr ((), v, u64_from_le_bytes ordinal) | _ \<Rightarrow> Inl ''short row'')"

definition replay_ext :: "(mem_fs, mem_handle, unit, u8) ext" where
  "replay_ext =
     \<lparr>fs_create = fs_create mem_ext, fs_open = fs_open mem_ext, fs_open_append = fs_open_append mem_ext,
      fs_open_write_at_end = fs_open_write_at_end mem_ext, fs_seek = fs_seek mem_ext,
      fs_write_all = fs_write_all mem_ext, fs_flush = fs_flush mem_ext, fs_read_exact = fs_read_exact mem_ext,
      fs_ensure_dir = fs_ensure_dir mem_ext, fs_remove_if_exists = fs_remove_if_exists mem_ext,
      fs_remove_dir_all = fs_remove_dir_all mem_ext,
      into_writer = (\<lambda>_ (_, v, n). ([[v], u64_to_le_bytes n], None)),
      from_reader = replay_decode,
      size_of_future = (\<lambda>_. 256),
      size_of_row = 64, size_of_pair = 2, size_of_source = 128, size_of_heap_entry = 16,
      size_of_session = 1024, size_of_reader = 96, size_of_writer_and_inner = 512,
      path_capacity = (\<lambda>_. 64), vec_capacity = (\<lambda>n. n)\<rparr>"

lemma replay_fields:
  "fs_create replay_ext = fs_create mem_ext" "fs_open replay_ext = fs_open mem_ext"
  "fs_open_append replay_ext = fs_open_append mem_ext"
  "fs_open_write_at_end replay_ext = fs_open_write_at_end mem_ext" "fs_seek replay_ext = fs_seek mem_ext"
  "fs_write_all replay_ext = fs_write_all mem_ext" "fs_flush replay_ext = fs_flush mem_ext"
  "fs_read_exact replay_ext = fs_read_exact mem_ext" "fs_ensure_dir replay_ext = fs_ensure_dir mem_ext"
  "fs_remove_if_exists replay_ext = fs_remove_if_exists mem_ext"
  "fs_remove_dir_all replay_ext = fs_remove_dir_all mem_ext"
  "into_writer replay_ext = (\<lambda>_ (_, v, n). ([[v], u64_to_le_bytes n], None))"
  "from_reader replay_ext = replay_decode" "size_of_future replay_ext = (\<lambda>_. 256)"
  "size_of_row replay_ext = 64" "size_of_reader replay_ext = 96" "size_of_writer_and_inner replay_ext = 512"
  "path_capacity replay_ext = (\<lambda>_. 64)" "vec_capacity replay_ext = (\<lambda>n. n)"
  by (simp_all add: replay_ext_def)

lemma replay_ext_laws: "ext_laws replay_ext map_of fst snd"
proof -
  have "codec_laws replay_ext"
    by (auto simp: codec_laws_def replay_fields replay_decode_def)
  moreover have "read_laws mem_ext map_of fst snd" "write_laws mem_ext map_of fst snd" "dir_laws mem_ext map_of"
    using mem_ext_laws by (simp_all add: ext_laws_def)
  from this(1) have "read_laws replay_ext map_of fst snd"
    unfolding read_laws_def replay_fields .
  moreover from \<open>write_laws mem_ext map_of fst snd\<close> have "write_laws replay_ext map_of fst snd"
    unfolding write_laws_def replay_fields .
  moreover from \<open>dir_laws mem_ext map_of\<close> have "dir_laws replay_ext map_of"
    unfolding dir_laws_def replay_fields .
  ultimately show ?thesis by (simp add: ext_laws_def)
qed

section \<open>Driving a replay\<close>

datatype 'v replay_command = DoAppend 'v usize | DoSeal | DoDropWriter | DoCursor | DoPull nat | DoClose

fun drive :: "('fs, 'h, unit, 'v) ext \<Rightarrow> 'v replay_command \<Rightarrow> replay_system \<times> 'fs world
    \<Rightarrow> ('v replay_event \<times> replay_system \<times> 'fs world) option" where
  "drive X (DoAppend v n) (s, w) =
     (case sy_writer s of
        None \<Rightarrow> None
      | Some wr \<Rightarrow> (case append_with_size X v n ((wr, sy_inner s), w) of
          (r, ((wr', inner'), w')) \<Rightarrow> Some (Append v r, s\<lparr>sy_writer := Some wr', sy_inner := inner'\<rparr>, w')))"
| "drive X DoSeal (s, w) =
     (case sy_writer s of
        None \<Rightarrow> None
      | Some wr \<Rightarrow> (case seal X ((wr, sy_inner s), w) of
          (r, ((wr', inner'), w')) \<Rightarrow> Some (Seal r, s\<lparr>sy_writer := Some wr', sy_inner := inner',
             sy_replay := (r = Inr ()) \<or> sy_replay s\<rparr>, w')))"
| "drive X DoDropWriter (s, w) =
     (case sy_writer s of
        None \<Rightarrow> None
      | Some wr \<Rightarrow> (case writer_drop X True ((wr, sy_inner s), w) of
          (inner', w') \<Rightarrow> Some (DropWriter, s\<lparr>sy_writer := None, sy_inner := inner'\<rparr>, w')))"
| "drive X DoCursor (s, w) =
     (case sy_writer s of
        None \<Rightarrow> None
      | Some wr \<Rightarrow> (case prefix_cursor (wr, sy_inner s) of
          Inl _ \<Rightarrow> None
        | Inr (c, inner') \<Rightarrow> Some (Cursor, s\<lparr>sy_inner := inner', sy_cursors := sy_cursors s @ [Some c]\<rparr>, w)))"
| "drive X (DoPull i) (s, w) =
     (if i < length (sy_cursors s)
      then case sy_cursors s ! i of
             None \<Rightarrow> None
           | Some c \<Rightarrow> (case next_committed X ((c, sy_inner s), w) of
               (r, ((c', inner'), w')) \<Rightarrow>
                 Some (Pull i r, s\<lparr>sy_inner := inner', sy_cursors := (sy_cursors s)[i := Some c']\<rparr>, w'))
      else None)"
| "drive X DoClose (s, w) =
     (if sy_replay s
      then case replay_close X (sy_inner s, w) of
             (r, (inner', w')) \<Rightarrow> Some (Close r, s\<lparr>sy_inner := inner', sy_replay := False\<rparr>, w')
      else None)"

lemma drive_step: "drive X c (s, w) = Some (e, t, w') \<Longrightarrow> replay_step X view (s, w) e (t, w')"
  by (induction X c "(s, w)" rule: drive.induct)
    (auto intro: replay_step.intros split: option.splits prod.splits sum.splits if_splits)

fun drive_all :: "('fs, 'h, unit, 'v) ext \<Rightarrow> 'v replay_command list \<Rightarrow> replay_system \<times> 'fs world
    \<Rightarrow> ('v replay_event list \<times> replay_system \<times> 'fs world) option" where
  "drive_all X [] s = Some ([], s)"
| "drive_all X (c # cs) s =
     (case drive X c s of
        None \<Rightarrow> None
      | Some (e, t) \<Rightarrow> map_option (\<lambda>(es, u). (e # es, u)) (drive_all X cs t))"

lemma drive_all_run:
  "replay_run X view evs s \<Longrightarrow> drive_all X cs s = Some (es, t) \<Longrightarrow> replay_run X view (evs @ es) t"
proof (induction cs arbitrary: evs s es)
  case (Cons c cs)
  obtain e u es' where 1: "drive X c s = Some (e, u)" "drive_all X cs u = Some (es', t)" "es = e # es'"
    using Cons.prems(2) by (auto split: option.splits prod.splits)
  have "replay_step X view s e u"
    using drive_step [of X c "fst s" "snd s" e "fst u" "snd u"] 1(1) by simp
  then have "replay_run X view (evs @ [e]) u" using Cons.prems(1) by (rule replay_run.step [rotated])
  from Cons.IH [OF this 1(2)] show ?case using 1(3) by simp
qed simp

definition mem_replay :: "replay_system" where
  "mem_replay = \<lparr>sy_writer = Some \<lparr>rp_inner = True, rp_writer = None, rp_rows = 0\<rparr>,
     sy_inner = \<lparr>ri_dir = [''d''], ri_path = [''d'', ''rows.cbor''], ri_publication = publication_new,
       ri_cleanup = \<lparr>cg_dir = None, cg_reservation = None, cg_fds = True\<rparr>, ri_hold = None, ri_owners = 1\<rparr>,
     sy_replay = False, sy_cursors = []\<rparr>"

lemma mem_replay_run: "replay_run replay_ext map_of [] (mem_replay, w)"
  unfolding mem_replay_def
  by (rule replay_run.start [where dir = "[''d'']" and lease = None])
    (simp add: replay_writer_new_def replay_inner_new_def guard_set_fd_budget_def guard_disarmed_def join_def)

lemmas replay_eval =
  run_eval replay_fields replay_decode_def guard_set_fd_budget_def guard_disarmed_def guard_retain_def
  guard_arm_def guard_cleanup_def guard_drop_def scope_idle_def on_world_def updating_def drop_charge_def
  mem_replay_def publication_new_def append_with_size_def active_def begin_operation_def publication_begin_def
  prepare_def prepare_bytes_def on_inner_def inner_arm_def append_row_def on_publication_def
  publication_publish_def run_row_new_def seal_def publication_seal_def writer_drop_def owner_drop_def
  publication_fail_def prefix_cursor_def publication_snapshot_def cursor_new_def cursor_start_def
  next_committed_def snapshot_now_def read_committed_def run_reader_position_def cursor_row_drop_def
  replay_close_def on_guard_def word_le_nat_alt word_less_nat_alt

lemma drives:
  "\<exists>s w. drive_all replay_ext [DoAppend 7 1, DoCursor, DoPull 0, DoPull 0, DoAppend 9 1, DoPull 0, DoSeal, DoPull 0, DoAppend 5 1]
      (mem_replay, mem_world 65536 2)
    = Some ([Append 7 (Inr ()), Cursor, Pull 0 (Inr (Item 7)), Pull 0 (Inr AwaitingAppend), Append 9 (Inr ()),
        Pull 0 (Inr (Item 9)), Seal (Inr ()), Pull 0 (Inr Exhausted), Append 5 (Inl (Raise SessionFailed))], s, w)"
  by (simp add: replay_eval)

lemma drivesE:
  assumes "\<exists>s w. drive_all replay_ext cs (mem_replay, w0) = Some (es, s, w)"
  obtains s w where "replay_run replay_ext map_of es (s, w)"
  using drive_all_run [OF mem_replay_run] assms by fastforce

theorem replay_refines_log_witness:
  "\<exists>l :: u8 replay_log. log_run log_new [Append 7 (Inr ()), Cursor, Pull 0 (Inr (Item 7)), Pull 0 (Inr AwaitingAppend), Append 9 (Inr ()),
        Pull 0 (Inr (Item 9)), Seal (Inr ()), Pull 0 (Inr Exhausted), Append 5 (Inl (Raise SessionFailed))] = Some l
    \<and> lg_values l = [7, 9]"
proof -
  obtain s w where "replay_run replay_ext map_of [Append 7 (Inr ()), Cursor, Pull 0 (Inr (Item 7)),
      Pull 0 (Inr AwaitingAppend), Append 9 (Inr ()), Pull 0 (Inr (Item 9)), Seal (Inr ()), Pull 0 (Inr Exhausted),
      Append 5 (Inl (Raise SessionFailed))] (s, w)"
    using drivesE [OF drives] .
  from replay_refines_log [OF replay_ext_laws this] show ?thesis by (simp add: appended_def)
qed

theorem exhausted_is_final_witness:
  "appended ([Append 7 (Inr ()), Cursor, Pull 0 (Inr (Item 7)), Pull 0 (Inr AwaitingAppend), Append (9 :: u8) (Inr ()),
      Pull 0 (Inr (Item 9)), Seal (Inr ())] @ Pull 0 (Inr Exhausted) # [Append 5 (Inl (Raise SessionFailed))]) = [7, 9]"
proof -
  obtain s w where "replay_run replay_ext map_of ([Append 7 (Inr ()), Cursor, Pull 0 (Inr (Item 7)),
      Pull 0 (Inr AwaitingAppend), Append 9 (Inr ()), Pull 0 (Inr (Item 9)), Seal (Inr ())]
      @ Pull 0 (Inr Exhausted) # [Append 5 (Inl (Raise SessionFailed))]) (s, w)"
    using drivesE [OF drives] by auto
  from exhausted_is_final [OF replay_ext_laws this] show ?thesis by (simp add: appended_def)
qed

lemma drives_failure:
  "\<exists>s w. drive_all replay_ext [DoAppend 7 1, DoCursor, DoDropWriter, DoPull 0] (mem_replay, mem_world 65536 2)
    = Some ([Append 7 (Inr ()), Cursor, DropWriter, Pull 0 (Inl (Raise ReplaySourceFailed))], s, w)"
  by (simp add: replay_eval)

theorem failed_writer_is_final_witness:
  "\<exists>s w. replay_run replay_ext map_of ([Append 7 (Inr ()), Cursor] @ DropWriter # [Pull 0 (Inl (Raise ReplaySourceFailed))]) (s, w)
    \<and> after_end Failed (Pull 0 (Inl (Raise ReplaySourceFailed)) :: u8 replay_event)"
proof -
  obtain s w where "replay_run replay_ext map_of
      ([Append 7 (Inr ()), Cursor] @ DropWriter # [Pull 0 (Inl (Raise ReplaySourceFailed))]) (s, w)"
    using drivesE [OF drives_failure] by auto
  with failed_writer_is_final [OF replay_ext_laws this] show ?thesis by fastforce
qed

theorem replay_never_panics_witness:
  "\<exists>s w. replay_run replay_ext map_of [Append 7 (Inr ()), Cursor, DropWriter, Pull 0 (Inl (Raise ReplaySourceFailed))] (s, w)
    \<and> (\<forall>p. event_fault (Pull 0 (Inl (Raise ReplaySourceFailed)) :: u8 replay_event) \<noteq> Some (Panic p))"
proof -
  obtain s w where "replay_run replay_ext map_of
      [Append 7 (Inr ()), Cursor, DropWriter, Pull 0 (Inl (Raise ReplaySourceFailed))] (s, w)"
    using drivesE [OF drives_failure] .
  with replay_never_panics [OF replay_ext_laws this] show ?thesis by fastforce
qed

lemma drives_append:
  "\<exists>s w. drive replay_ext (DoAppend 7 1) (mem_replay, mem_world 65536 2) = Some (Append 7 (Inr ()), s, w)
    \<and> cg_reservation (ri_cleanup (sy_inner s)) = Some 5376"
  by (simp add: replay_eval)


text \<open>A cursor over a log whose file is missing.\<close>

definition lost_inner :: replay_inner where
  "lost_inner = (sy_inner mem_replay)\<lparr>ri_publication := \<lparr>pb_rows = 1, pb_state = Sealed\<rparr>\<rparr>"

theorem failed_pull_keeps_checkpoint_witness:
  "\<exists>c inner w'. next_committed replay_ext ((cursor_start, lost_inner), mem_world 65536 2)
      = (Inl (Raise (Io ''not found'')), ((c, inner), w')) \<and> c = cursor_start \<and> held_bytes w' = 0"
proof -
  obtain c inner w' where run: "next_committed replay_ext ((cursor_start, lost_inner), mem_world 65536 2)
      = (Inl (Raise (Io ''not found'')), ((c, inner), w'))"
    by (simp add: replay_eval lost_inner_def)
  have "held_bytes (mem_world 65536 2) = 0"
    by (simp add: held_bytes_def mem_world_def budget_new_def)
  then show ?thesis
    using failed_pull_keeps_checkpoint [OF replay_ext_laws run] run by simp
qed

lemma drives_close:
  "\<exists>s w t w'. drive_all replay_ext [DoAppend 7 1, DoSeal] (mem_replay, mem_world 65536 2)
      = Some ([Append 7 (Inr ()), Seal (Inr ())], s, w)
    \<and> drive replay_ext DoClose (s, w) = Some (Close (Inr ()), t, w')
    \<and> live_cursors s = 0 \<and> ri_dir (sy_inner s) = [''d''] \<and> map_of (w_files w) (join [''d''] ''rows.cbor'') \<noteq> None"
  by (simp add: replay_eval live_cursors_def join_def)

theorem close_waits_for_readers_witness:
  "\<exists>s w t w'. replay_step replay_ext map_of (s, w) (Close (Inr ())) (t, w')
    \<and> map_of (w_files w) (join [''d''] ''rows.cbor'') \<noteq> None
    \<and> map_of (w_files w') (join [''d''] ''rows.cbor'') = None"
proof -
  obtain s w t w' where
    1: "drive_all replay_ext [DoAppend 7 1, DoSeal] (mem_replay, mem_world 65536 2)
      = Some ([Append 7 (Inr ()), Seal (Inr ())], s, w)"
    and 2: "drive replay_ext DoClose (s, w) = Some (Close (Inr ()), t, w')"
    and 3: "live_cursors s = 0" "ri_dir (sy_inner s) = [''d'']"
      "map_of (w_files w) (join [''d''] ''rows.cbor'') \<noteq> None"
    using drives_close by blast
  have "replay_run replay_ext map_of [Append 7 (Inr ()), Seal (Inr ())] (s, w)"
    using drive_all_run [OF mem_replay_run 1] by simp
  then have "map_of (w_files w') (join [''d''] ''rows.cbor'') = None"
    using close_waits_for_readers [OF replay_ext_laws _ drive_step [OF 2]] 3 by simp
  then show ?thesis using drive_step [OF 2] 3 by blast
qed

end
