(* ===== verification/WaitLoop.thy ===== *)
theory WaitLoop
  imports Prelude
begin

text \<open>
  The waiting pattern of the program (src/engine/replay/cursor.rs and src/engine/operation.rs):
  register for the next notification, look at the shared state with a few loads, and sleep if
  no load ended the wait. The locale states what the tasks that change the state owe the
  waiters; its theorems say that no wake-up is lost.
\<close>

section \<open>The waiter\<close>

text \<open>
  A waiter has registered, done \<open>k\<close> of its loads and perhaps been notified since; it sleeps
  after its last load until it is notified, and then starts again.
\<close>

datatype waiter = Fresh | Looking nat bool | Parked bool | Finished

primrec waiter_step :: "('s \<Rightarrow> bool) list \<Rightarrow> 's \<Rightarrow> waiter \<Rightarrow> waiter" where
  "waiter_step checks s Fresh = Looking 0 False"
| "waiter_step checks s (Looking k n) =
     (if k < length checks then if (checks ! k) s then Finished else Looking (Suc k) n else Parked n)"
| "waiter_step checks s (Parked n) = (if n then Fresh else Parked n)"
| "waiter_step checks s Finished = Finished"

text \<open>\<open>notify_waiters\<close> reaches every waiter that has registered.\<close>

primrec notify :: "bool \<Rightarrow> waiter \<Rightarrow> waiter" where
  "notify b Fresh = Fresh"
| "notify b (Looking k n) = Looking k (n \<or> b)"
| "notify b (Parked n) = Parked (n \<or> b)"
| "notify b Finished = Finished"

text \<open>One waiter among other tasks, whose steps say whether they notify.\<close>

inductive wait_run :: "('s \<Rightarrow> bool \<Rightarrow> 's \<Rightarrow> bool) \<Rightarrow> ('s \<Rightarrow> bool) list \<Rightarrow> 's \<Rightarrow> 's \<Rightarrow> waiter \<Rightarrow> bool"
  for env checks s0 where
  start: "wait_run env checks s0 s0 Fresh"
| own: "wait_run env checks s0 s wt \<Longrightarrow> wait_run env checks s0 s (waiter_step checks s wt)"
| other: "wait_run env checks s0 s wt \<Longrightarrow> env s b t \<Longrightarrow> wait_run env checks s0 t (notify b wt)"

lemma finished_stays: "(waiter_step checks s ^^ n) Finished = Finished"
  by (induction n) simp_all

section \<open>What the other tasks owe\<close>

text \<open>
  A task that makes a check true without notifying in the same step owes a notification, and
  goes on owing it until it notifies.
\<close>

locale wait_loop =
  fixes env :: "'s \<Rightarrow> bool \<Rightarrow> 's \<Rightarrow> bool"
    and checks :: "('s \<Rightarrow> bool) list"
    and owed :: "'s \<Rightarrow> bool"
  assumes change: "env s False t \<Longrightarrow> c \<in> set checks \<Longrightarrow> c t \<Longrightarrow> \<not> c s \<Longrightarrow> owed t"
    and keep: "env s False t \<Longrightarrow> owed s \<Longrightarrow> owed t"
begin

definition waiter_ok :: "'s \<Rightarrow> waiter \<Rightarrow> bool" where
  "waiter_ok s wt \<longleftrightarrow>
     (case wt of
        Looking k n \<Rightarrow> k \<le> length checks \<and> (n \<or> owed s \<or> (\<forall>c \<in> set (take k checks). \<not> c s))
      | Parked n \<Rightarrow> n \<or> owed s \<or> (\<forall>c \<in> set checks. \<not> c s)
      | _ \<Rightarrow> True)"

lemma waiter_ok_step: "waiter_ok s wt \<Longrightarrow> waiter_ok s (waiter_step checks s wt)"
  by (cases wt) (auto simp: waiter_ok_def take_Suc_conv_app_nth)

lemma waiter_ok_other:
  assumes "env s b t" and "waiter_ok s wt"
  shows "waiter_ok t (notify b wt)"
proof -
  have "\<not> c t" if "\<not> b" "\<not> owed t" "\<not> c s" "c \<in> set checks" for c
    using assms(1) that change [of s t c] by (cases b) auto
  moreover have "\<not> owed s" if "\<not> b" "\<not> owed t"
    using assms(1) that keep [of s t] by (cases b) auto
  ultimately show ?thesis
    using assms(2) by (cases wt; cases b) (auto simp: waiter_ok_def dest: in_set_takeD)
qed

lemma wait_run_ok: "wait_run env checks s0 s wt \<Longrightarrow> waiter_ok s wt"
  by (induction rule: wait_run.induct) (auto intro: waiter_ok_step waiter_ok_other simp: waiter_ok_def [of _ Fresh])

text \<open>A sleeping waiter has nothing to see, or is about to be woken.\<close>

lemma sleeps_soundly: "wait_run env checks s0 s (Parked False) \<Longrightarrow> c \<in> set checks \<Longrightarrow> c s \<Longrightarrow> owed s"
  using wait_run_ok [of s0 s "Parked False"] by (auto simp: waiter_ok_def)

text \<open>Once a check holds and nothing is owed, the waiter finishes by its own steps.\<close>

lemma looks:
  assumes "c \<in> set (drop k checks)" and "c s"
  shows "\<exists>m \<le> length checks - k. (waiter_step checks s ^^ m) (Looking k n) = Finished"
  using assms(1)
proof (induction "length checks - k" arbitrary: k)
  case 0
  then show ?case by simp
next
  case (Suc d)
  then have less: "k < length checks" by simp
  show ?case
  proof (cases "(checks ! k) s")
    case True
    then have "(waiter_step checks s ^^ 1) (Looking k n) = Finished" using less by simp
    then show ?thesis using less by (intro exI [of _ 1]) simp
  next
    case False
    have "c \<in> set (drop (Suc k) checks)"
      using Suc.prems False assms(2) less by (auto simp: Cons_nth_drop_Suc [symmetric])
    then obtain m where "m \<le> length checks - Suc k" "(waiter_step checks s ^^ m) (Looking (Suc k) n) = Finished"
      using Suc.hyps(1) [of "Suc k"] Suc.hyps(2) less by (auto simp: Suc_diff_Suc [symmetric])
    then show ?thesis
      using False less by (intro exI [of _ "Suc m"]) (simp add: funpow_swap1)
  qed
qed

lemma fresh_finishes:
  assumes "c \<in> set checks" and "c s"
  shows "\<exists>m \<le> length checks + 1. (waiter_step checks s ^^ m) Fresh = Finished"
proof -
  obtain m where "m \<le> length checks" "(waiter_step checks s ^^ m) (Looking 0 False) = Finished"
    using looks [of c 0 s False] assms by auto
  then show ?thesis by (intro exI [of _ "Suc m"]) (simp add: funpow_swap1)
qed

lemma parks:
  assumes "k \<le> length checks"
  shows "\<exists>m \<le> length checks - k + 1. (waiter_step checks s ^^ m) (Looking k n) \<in> {Finished, Parked n}"
  using assms
proof (induction "length checks - k" arbitrary: k)
  case 0
  then show ?case by (intro exI [of _ 1]) auto
next
  case (Suc d)
  then have less: "k < length checks" by simp
  show ?case
  proof (cases "(checks ! k) s")
    case True
    then show ?thesis using less by (intro exI [of _ 1]) simp
  next
    case False
    obtain m where "m \<le> length checks - Suc k + 1"
      "(waiter_step checks s ^^ m) (Looking (Suc k) n) \<in> {Finished, Parked n}"
      using Suc.hyps(1) [of "Suc k"] Suc.hyps(2) less by (auto simp: Suc_diff_Suc [symmetric])
    then show ?thesis
      using False less by (intro exI [of _ "Suc m"]) (simp add: funpow_swap1)
  qed
qed

lemma wait_ends:
  assumes run: "wait_run env checks s0 s wt" and c: "c \<in> set checks" "c s" and "\<not> owed s"
  shows "(waiter_step checks s ^^ (2 * length checks + 3)) wt = Finished"
proof -
  have late: "(waiter_step checks s ^^ j) wt = Finished"
    if "(waiter_step checks s ^^ m) wt = Finished" "m \<le> j" for m j
    using that funpow_add [of "j - m" m "waiter_step checks s"] finished_stays by simp
  obtain f where f: "f \<le> length checks + 1" "(waiter_step checks s ^^ f) Fresh = Finished"
    using fresh_finishes [OF c] by blast
  then have parked: "(waiter_step checks s ^^ Suc f) (Parked True) = Finished"
    by (simp add: funpow_swap1)
  have ok: "waiter_ok s wt" using wait_run_ok [OF run] .
  show ?thesis
  proof (cases wt)
    case Fresh
    then show ?thesis using late [of f] f by simp
  next
    case (Looking k n)
    show ?thesis
    proof (cases n)
      case True
      obtain m where m: "m \<le> length checks - k + 1" "(waiter_step checks s ^^ m) wt \<in> {Finished, Parked True}"
        using parks [of k s n] ok Looking True by (auto simp: waiter_ok_def)
      then have "(waiter_step checks s ^^ (Suc f + m)) wt = Finished"
        using parked finished_stays [of "Suc f" checks s] by (subst funpow_add) auto
      then show ?thesis by (rule late) (use m f in simp)
    next
      case False
      then have "c \<in> set (drop k checks)"
        using ok c Looking assms(4) set_append [of "take k checks" "drop k checks"] by (simp add: waiter_ok_def) blast
      then obtain m where "m \<le> length checks - k" "(waiter_step checks s ^^ m) wt = Finished"
        using looks c Looking by blast
      then show ?thesis using late [of m] by simp
    qed
  next
    case (Parked n)
    then have "n" using ok c assms(4) by (auto simp: waiter_ok_def)
    then have "(waiter_step checks s ^^ Suc f) wt = Finished" using parked Parked by simp
    then show ?thesis by (rule late) (use f in simp)
  next
    case Finished
    then show ?thesis using finished_stays by simp
  qed
qed

end

end
