(* ===== verification/PublicationSteps.thy ===== *)
theory PublicationSteps
  imports Replay WaitLoop
begin

text \<open>
  The publication of a replay at the grain of its atomic operations
  (src/engine/replay/publication.rs): the writer's load and store of \<open>publish\<close>, the
  compare-and-exchange of \<open>seal\<close> and \<open>fail\<close> and the notification after them, interleaved with
  the two loads of a reader's \<open>snapshot\<close> and with its wait in \<open>next\<close>
  (src/engine/replay/cursor.rs). The loads and stores are acquire and release on one word
  each, in the order of the source, so they are steps on one shared state. The theory
  justifies the atomic publication of theory Replay.
\<close>

section \<open>Steps of the writer\<close>

datatype writer_pc = Idle | Publishing u64 | Notifying

text \<open>The flag tells the step that notifies.\<close>

inductive publication_step :: "publication \<times> writer_pc \<Rightarrow> bool \<Rightarrow> publication \<times> writer_pc \<Rightarrow> bool" where
  load: "pb_state p = Writing \<Longrightarrow> publication_step (p, Idle) False (p, Publishing n)"
| store: "publication_step (p, Publishing n) False (p\<lparr>pb_rows := n\<rparr>, Notifying)"
| seal: "pb_state p = Writing \<Longrightarrow> publication_step (p, Idle) False (p\<lparr>pb_state := Sealed\<rparr>, Notifying)"
| fail: "pb_state p = Writing \<Longrightarrow> publication_step (p, Idle) False (p\<lparr>pb_state := Failed\<rparr>, Notifying)"
| notify: "publication_step (p, Notifying) True (p, Idle)"

inductive_cases publication_stepE: "publication_step s b t"

inductive_simps publication_step_simps:
  "publication_step (p, Idle) b t" "publication_step (p, Publishing n) b t" "publication_step (p, Notifying) b t"

inductive publication_steps :: "publication \<times> writer_pc \<Rightarrow> publication \<times> writer_pc \<Rightarrow> bool" where
  refl: "publication_steps s s"
| step: "publication_steps s t \<Longrightarrow> publication_step t b u \<Longrightarrow> publication_steps s u"

lemma publication_steps_trans:
  "publication_steps t u \<Longrightarrow> publication_steps s t \<Longrightarrow> publication_steps s u"
  by (induction rule: publication_steps.induct) (auto intro: publication_steps.step)

text \<open>There is one writer, so what it stores after its load is still allowed.\<close>

definition writer_ok :: "publication \<times> writer_pc \<Rightarrow> bool" where
  "writer_ok = (\<lambda>(p, pc). case pc of Publishing n \<Rightarrow> pb_state p = Writing | _ \<Rightarrow> True)"

lemma writer_ok_step: "publication_step s b t \<Longrightarrow> writer_ok s \<Longrightarrow> writer_ok t"
  by (erule publication_stepE) (auto simp: writer_ok_def)

lemma writer_ok_steps: "publication_steps s t \<Longrightarrow> writer_ok s \<Longrightarrow> writer_ok t"
  by (induction rule: publication_steps.induct) (auto intro: writer_ok_step)

lemma terminal_step:
  "publication_step s b t \<Longrightarrow> writer_ok s \<Longrightarrow> pb_state (fst s) \<noteq> Writing \<Longrightarrow> fst t = fst s"
  by (erule publication_stepE) (auto simp: writer_ok_def)

lemma terminal_steps:
  "publication_steps s t \<Longrightarrow> writer_ok s \<Longrightarrow> pb_state (fst s) \<noteq> Writing \<Longrightarrow> fst t = fst s"
  by (induction rule: publication_steps.induct) (auto dest: terminal_step writer_ok_steps)

text \<open>The operations of theory Replay are runs of these steps.\<close>

lemma operations_are_steps:
  "publication_publish n p = Inr q \<Longrightarrow> publication_steps (p, Idle) (q, Idle)"
  "publication_seal p = Inr q \<Longrightarrow> publication_steps (p, Idle) (q, Idle)"
  "publication_fail p = q \<Longrightarrow> publication_steps (p, Idle) (q, Idle)"
proof -
  have *: "publication_steps s u" if "publication_step s b t" "publication_step t c u" for s b t c u
    using that publication_steps.intros by blast
  show "publication_publish n p = Inr q \<Longrightarrow> publication_steps (p, Idle) (q, Idle)"
    by (auto simp: publication_publish_def split: if_splits
        intro: publication_steps.step [OF * [OF publication_step.load publication_step.store] publication_step.notify])
  show "publication_seal p = Inr q \<Longrightarrow> publication_steps (p, Idle) (q, Idle)"
    by (auto simp: publication_seal_def split: if_splits intro: * publication_step.intros)
  show "publication_fail p = q \<Longrightarrow> publication_steps (p, Idle) (q, Idle)"
    by (auto simp: publication_fail_def split: if_splits intro: * publication_step.intros publication_steps.refl)
qed

section \<open>The two loads of a snapshot\<close>

text \<open>A snapshot loads the state of the publication at \<open>s\<close> and its rows at \<open>t\<close>.\<close>

definition split_snapshot :: "publication \<times> writer_pc \<Rightarrow> publication \<times> writer_pc \<Rightarrow> fault + u64 \<times> bool" where
  "split_snapshot s t =
     (if pb_state (fst s) = Failed then Inl (Raise ReplaySourceFailed)
      else Inr (pb_rows (fst t), pb_state (fst s) = Sealed))"

lemma last_writing:
  assumes "publication_steps s t" and "writer_ok s" and "pb_state (fst s) = Writing"
  shows "\<exists>u. publication_steps s u \<and> publication_steps u t \<and> pb_state (fst u) = Writing
    \<and> pb_rows (fst u) = pb_rows (fst t)"
  using assms
proof (induction rule: publication_steps.induct)
  case (refl s)
  then show ?case using publication_steps.refl by blast
next
  case (step s t b u)
  then obtain v where v: "publication_steps s v" "publication_steps v t" "pb_state (fst v) = Writing"
      "pb_rows (fst v) = pb_rows (fst t)" by blast
  have ok: "writer_ok t" using step writer_ok_steps by blast
  show ?case
  proof (cases "pb_rows (fst u) = pb_rows (fst t)")
    case True
    then show ?thesis using v step publication_steps.step by metis
  next
    case False
    then have "pb_state (fst u) = Writing"
      using step(2) ok by (auto elim!: publication_stepE simp: writer_ok_def)
    then show ?thesis using step publication_steps.intros by blast
  qed
qed

text \<open>C30. The two loads of a snapshot act as one: whatever the writer does between them, the
  snapshot is the one a single atomic look would have given at some moment between the two.
  So a reader never sees the end of a log before its last row: the atomic publication of
  theory Replay loses no behaviour.\<close>

theorem snapshot_linearizes:
  assumes "publication_steps (publication_new, Idle) s" and "publication_steps s t"
  shows "\<exists>u. publication_steps s u \<and> publication_steps u t
    \<and> split_snapshot s t = publication_snapshot (fst u)"
proof -
  have ok: "writer_ok s" using writer_ok_steps [OF assms(1)] by (simp add: writer_ok_def)
  show ?thesis
  proof (cases "pb_state (fst s) = Writing")
    case True
    then obtain u where "publication_steps s u" "publication_steps u t" "pb_state (fst u) = Writing"
        "pb_rows (fst u) = pb_rows (fst t)"
      using last_writing [OF assms(2) ok] by blast
    then show ?thesis
      using True by (intro exI [of _ u]) (simp add: split_snapshot_def publication_snapshot_def)
  next
    case False
    then have "fst t = fst s" using terminal_steps [OF assms(2) ok] by simp
    then show ?thesis
      using assms(2) publication_steps.refl [of s]
      by (intro exI [of _ s]) (auto simp: split_snapshot_def publication_snapshot_def)
  qed
qed

section \<open>Waiting for a change\<close>

text \<open>The loads that end the wait of a reader at a position, in their order.\<close>

definition reader_checks :: "u64 \<Rightarrow> (publication \<times> writer_pc \<Rightarrow> bool) list" where
  "reader_checks position = [\<lambda>s. pb_state (fst s) \<noteq> Writing, \<lambda>s. position < pb_rows (fst s)]"

interpretation reader: wait_loop publication_step "reader_checks position" "\<lambda>s. snd s = Notifying" for position
  by unfold_locales (auto elim!: publication_stepE simp: reader_checks_def)

definition reader_run :: "u64 \<Rightarrow> publication \<times> writer_pc \<Rightarrow> waiter \<Rightarrow> bool" where
  "reader_run position = wait_run publication_step (reader_checks position) (publication_new, Idle)"

text \<open>C31. No wake-up of a reader is lost: a reader that sleeps in \<open>next\<close> unnotified, while the
  writer is not about to notify, is at the end of a log still written; and whenever there is
  something to see (a row beyond its position or a terminal state) and no notification
  outstanding, the reader gets out of its wait by at most seven steps of its own, whatever it
  was doing.\<close>

theorem reader_wakes_up:
  assumes "reader_run position s reader_state" and "snd s \<noteq> Notifying"
  shows "pb_state (fst s) = Writing \<and> pb_rows (fst s) \<le> position
    \<or> reader_state \<noteq> Parked False
      \<and> (waiter_step (reader_checks position) s ^^ 7) reader_state = Finished"
proof (cases "pb_state (fst s) = Writing \<and> pb_rows (fst s) \<le> position")
  case False
  then obtain c where c: "c \<in> set (reader_checks position)" "c s"
    by (force simp: reader_checks_def)
  have run: "wait_run publication_step (reader_checks position) (publication_new, Idle) s reader_state"
    using assms(1) by (simp add: reader_run_def)
  have "2 * length (reader_checks position) + 3 = 7" by (simp add: reader_checks_def)
  moreover have "reader_state \<noteq> Parked False"
    using reader.sleeps_soundly [OF _ c] run assms(2) by blast
  ultimately show ?thesis using reader.wait_ends [OF run c assms(2)] by simp
qed simp

end
