(* ===== verification/OperationJobs.thy ===== *)
theory OperationJobs
  imports Operation WaitLoop
begin

text \<open>
  Owned file operations whose callers may go away (src/engine/operation.rs): each operation
  of a scratch scope is a job with its reservation, its place in the pending count and, while
  it runs, a descriptor permit. A caller that stops waiting drops a job that has not started
  and abandons one that has. Steps of the jobs interleave with each other, with other users of
  the permits and the memory, and with the wait of \<open>IoScope::idle\<close>.
\<close>

section \<open>Jobs\<close>

text \<open>
  A job waits for its permit, runs, has ended and dropped its reservation, has dropped its
  permit and is done with its scope. A job dropped before it ran leaves the scope first.
\<close>

datatype job_phase = Acquiring | Running | Ended | Unpermitted | Abandoned | Done

record job =
  jb_charge :: memory_charge
  jb_phase :: job_phase
  jb_caller :: bool

text \<open>
  The scope and its surroundings: \<open>io_owing\<close> counts guards that took the pending count to
  zero and have yet to notify.
\<close>

record io_system =
  io_permits :: nat
  io_budget :: budget
  io_pending :: nat
  io_owing :: nat
  io_jobs :: "job list"
  io_others :: nat
  io_foreign :: u64

definition leave_scope :: "io_system \<Rightarrow> io_system" where
  "leave_scope s =
     s\<lparr>io_pending := io_pending s - 1, io_owing := (if io_pending s = 1 then io_owing s + 1 else io_owing s)\<rparr>"

definition set_phase :: "nat \<Rightarrow> job_phase \<Rightarrow> io_system \<Rightarrow> io_system" where
  "set_phase i ph s = s\<lparr>io_jobs := (io_jobs s)[i := (io_jobs s ! i)\<lparr>jb_phase := ph\<rparr>]\<rparr>"

definition drop_metadata :: "nat \<Rightarrow> io_system \<Rightarrow> io_system" where
  "drop_metadata i s = s\<lparr>io_budget := budget_release (jb_charge (io_jobs s ! i)) (io_budget s)\<rparr>"

definition job_at :: "io_system \<Rightarrow> nat \<Rightarrow> job_phase \<Rightarrow> bool" where
  "job_at s i ph \<longleftrightarrow> i < length (io_jobs s) \<and> jb_phase (io_jobs s ! i) = ph"

text \<open>The steps of the jobs themselves; a job that panics ends like one that returns.\<close>

inductive job_step :: "io_system \<Rightarrow> bool \<Rightarrow> io_system \<Rightarrow> bool" where
  acquire: "job_at s i Acquiring \<Longrightarrow> 0 < io_permits s \<Longrightarrow>
    job_step s False ((set_phase i Running s)\<lparr>io_permits := io_permits s - 1\<rparr>)"
| ends: "job_at s i Running \<Longrightarrow> job_step s False (set_phase i Ended (drop_metadata i s))"
| drop_permit: "job_at s i Ended \<Longrightarrow>
    job_step s False ((set_phase i Unpermitted s)\<lparr>io_permits := io_permits s + 1\<rparr>)"
| drop_guard: "job_at s i Unpermitted \<Longrightarrow> job_step s False (set_phase i Done (leave_scope s))"
| drop_unrun: "job_at s i Abandoned \<Longrightarrow> job_step s False (set_phase i Done (drop_metadata i s))"
| notify: "0 < io_owing s \<Longrightarrow> job_step s True (s\<lparr>io_owing := io_owing s - 1\<rparr>)"

text \<open>What callers and the rest of the process do.\<close>

inductive io_step :: "io_system \<Rightarrow> bool \<Rightarrow> io_system \<Rightarrow> bool" where
  job: "job_step s b t \<Longrightarrow> io_step s b t"
| submit: "budget_reserve n (io_budget s) = (Inr c, b) \<Longrightarrow>
    io_step s False (s\<lparr>io_budget := b, io_pending := io_pending s + 1,
      io_jobs := io_jobs s @ [\<lparr>jb_charge = c, jb_phase = Acquiring, jb_caller = True\<rparr>]\<rparr>)"
| refuse: "budget_reserve n (io_budget s) = (Inl e, b) \<Longrightarrow> io_step s False (s\<lparr>io_budget := b\<rparr>)"
| cancel_waiting: "job_at s i Acquiring \<Longrightarrow> io_step s False (set_phase i Abandoned (leave_scope s))"
| cancel_running: "job_at s i Running \<Longrightarrow>
    io_step s False (s\<lparr>io_jobs := (io_jobs s)[i := (io_jobs s ! i)\<lparr>jb_caller := False\<rparr>]\<rparr>)"
| other_acquires: "0 < io_permits s \<Longrightarrow>
    io_step s False (s\<lparr>io_permits := io_permits s - 1, io_others := io_others s + 1\<rparr>)"
| other_ends: "0 < io_others s \<Longrightarrow>
    io_step s False (s\<lparr>io_permits := io_permits s + 1, io_others := io_others s - 1\<rparr>)"
| other_reserves: "budget_reserve n (io_budget s) = (Inr c, b) \<Longrightarrow>
    io_step s False (s\<lparr>io_budget := b, io_foreign := io_foreign s + c\<rparr>)"
| other_releases: "c \<le> io_foreign s \<Longrightarrow> io_step s False (s\<lparr>io_budget := budget_release c (io_budget s), io_foreign := io_foreign s - c\<rparr>)"

inductive io_run :: "nat \<Rightarrow> budget \<Rightarrow> io_system \<Rightarrow> bool" for permits budget where
  start: "budget_used budget = 0 \<Longrightarrow>
    io_run permits budget \<lparr>io_permits = permits, io_budget = budget, io_pending = 0, io_owing = 0,
      io_jobs = [], io_others = 0, io_foreign = 0\<rparr>"
| step: "io_run permits budget s \<Longrightarrow> io_step s b t \<Longrightarrow> io_run permits budget t"

section \<open>The account of the jobs\<close>

definition in_scope :: "job \<Rightarrow> bool" where
  "in_scope j \<longleftrightarrow> jb_phase j \<in> {Acquiring, Running, Ended, Unpermitted}"

definition has_permit :: "job \<Rightarrow> bool" where
  "has_permit j \<longleftrightarrow> jb_phase j \<in> {Running, Ended}"

definition job_bytes :: "job \<Rightarrow> u64" where
  "job_bytes j = (if jb_phase j \<in> {Acquiring, Running, Abandoned} then jb_charge j else 0)"

definition io_ok :: "nat \<Rightarrow> io_system \<Rightarrow> bool" where
  "io_ok permits s \<longleftrightarrow>
     io_permits s + length (filter has_permit (io_jobs s)) + io_others s = permits
     \<and> io_pending s = length (filter in_scope (io_jobs s))
     \<and> budget_used (io_budget s) = sum_list (map job_bytes (io_jobs s)) + io_foreign s"

lemma bytes_balance: "u + a = v + b \<Longrightarrow> v = x + f \<Longrightarrow> y = x - a + b \<Longrightarrow> u = y + (f :: u64)"
proof -
  assume "u + a = v + b" and v: "v = x + f" and y: "y = x - a + b"
  then have "u = v + b - a" by (metis add_diff_cancel_right')
  then show "u = y + f" using v y by simp
qed

lemma io_ok_phase:
  assumes ok: "io_ok permits s" and i: "job_at s i ph"
    and t: "io_jobs t = (io_jobs s)[i := (io_jobs s ! i)\<lparr>jb_phase := ph'\<rparr>]" "io_others t = io_others s"
      "io_foreign t = io_foreign s"
    and permits: "io_permits t + (if ph' \<in> {Running, Ended} then 1 else 0)
      = io_permits s + (if ph \<in> {Running, Ended} then 1 else 0)"
    and pending: "io_pending t + (if ph \<in> {Acquiring, Running, Ended, Unpermitted} then 1 else 0)
      = io_pending s + (if ph' \<in> {Acquiring, Running, Ended, Unpermitted} then 1 else 0)"
    and bytes: "budget_used (io_budget t) + (if ph \<in> {Acquiring, Running, Abandoned} then jb_charge (io_jobs s ! i) else 0)
      = budget_used (io_budget s) + (if ph' \<in> {Acquiring, Running, Abandoned} then jb_charge (io_jobs s ! i) else 0)"
  shows "io_ok permits t"
proof -
  let ?j = "io_jobs s ! i"
  let ?j' = "?j\<lparr>jb_phase := ph'\<rparr>"
  have len: "i < length (io_jobs s)" and ph: "jb_phase ?j = ph" using i by (auto simp: job_at_def)
  have "length (filter has_permit (io_jobs t)) + (if ph \<in> {Running, Ended} then 1 else 0)
      = length (filter has_permit (io_jobs s)) + (if ph' \<in> {Running, Ended} then 1 else 0)"
    using filter_update [OF len, of has_permit ?j'] ph t by (simp add: has_permit_def)
  moreover have "length (filter in_scope (io_jobs t)) + (if ph \<in> {Acquiring, Running, Ended, Unpermitted} then 1 else 0)
      = length (filter in_scope (io_jobs s)) + (if ph' \<in> {Acquiring, Running, Ended, Unpermitted} then 1 else 0)"
    using filter_update [OF len, of in_scope ?j'] ph t by (simp add: in_scope_def)
  moreover have "sum_list (map job_bytes (io_jobs t))
      = sum_list (map job_bytes (io_jobs s)) - (if ph \<in> {Acquiring, Running, Abandoned} then jb_charge ?j else 0)
        + (if ph' \<in> {Acquiring, Running, Abandoned} then jb_charge ?j else 0)"
    using sum_update [OF len, of job_bytes ?j'] ph t by (simp add: job_bytes_def)
  ultimately show ?thesis
    using ok t permits pending bytes_balance [OF bytes] unfolding io_ok_def by simp
qed

lemma reserve_used:
  "budget_reserve n b = (Inr c, b') \<Longrightarrow> budget_used b' = budget_used b + c"
  "budget_reserve n b = (Inl e, b') \<Longrightarrow> budget_used b' = budget_used b"
  by (auto simp: budget_reserve_def budget_limit_def checked_add_def Let_def
      split: option.splits if_splits prod.splits)

lemma leave_fields:
  "io_jobs (leave_scope s) = io_jobs s" "io_permits (leave_scope s) = io_permits s"
  "io_budget (leave_scope s) = io_budget s" "io_others (leave_scope s) = io_others s"
  "io_foreign (leave_scope s) = io_foreign s" "io_pending (leave_scope s) = io_pending s - 1"
  by (simp_all add: leave_scope_def)

lemma drop_fields:
  "io_jobs (drop_metadata i s) = io_jobs s" "io_permits (drop_metadata i s) = io_permits s"
  "io_others (drop_metadata i s) = io_others s" "io_foreign (drop_metadata i s) = io_foreign s"
  "io_pending (drop_metadata i s) = io_pending s"
  "budget_used (io_budget (drop_metadata i s)) = budget_used (io_budget s) - jb_charge (io_jobs s ! i)"
  by (simp_all add: drop_metadata_def budget_release_def)

lemma phase_fields:
  "io_jobs (set_phase i ph s) = (io_jobs s)[i := (io_jobs s ! i)\<lparr>jb_phase := ph\<rparr>]"
  "io_permits (set_phase i ph s) = io_permits s" "io_budget (set_phase i ph s) = io_budget s"
  "io_others (set_phase i ph s) = io_others s" "io_foreign (set_phase i ph s) = io_foreign s"
  "io_pending (set_phase i ph s) = io_pending s"
  by (simp_all add: set_phase_def)

lemmas io_fields = leave_fields drop_fields phase_fields

lemma in_scope_pending: "io_ok permits s \<Longrightarrow> job_at s i ph \<Longrightarrow> ph \<in> {Acquiring, Running, Ended, Unpermitted} \<Longrightarrow> 0 < io_pending s"
  by (auto simp: io_ok_def job_at_def in_scope_def filter_empty_conv intro!: bexI [of _ "io_jobs s ! i"])

lemma job_step_ok:
  assumes "job_step s b t" and ok: "io_ok permits s"
  shows "io_ok permits t"
  using assms(1)
proof cases
  case (acquire i)
  show ?thesis
    by (rule io_ok_phase [where ph' = Running, OF ok acquire(3)]) (use acquire in \<open>simp_all add: io_fields\<close>)
next
  case (ends i)
  show ?thesis
    by (rule io_ok_phase [where ph' = Ended, OF ok ends(3)]) (use ends in \<open>simp_all add: io_fields\<close>)
next
  case (drop_permit i)
  show ?thesis
    by (rule io_ok_phase [where ph' = Unpermitted, OF ok drop_permit(3)]) (use drop_permit in \<open>simp_all add: io_fields\<close>)
next
  case (drop_guard i)
  have "0 < io_pending s" by (rule in_scope_pending [OF ok drop_guard(3)]) simp
  then show ?thesis
    by (intro io_ok_phase [where ph' = Done, OF ok drop_guard(3)]) (use drop_guard in \<open>simp_all add: io_fields\<close>)
next
  case (drop_unrun i)
  show ?thesis
    by (rule io_ok_phase [where ph' = Done, OF ok drop_unrun(3)]) (use drop_unrun in \<open>simp_all add: io_fields\<close>)
next
  case notify
  then show ?thesis using ok by (simp add: io_ok_def)
qed

lemma io_step_ok:
  assumes "io_step s b t" and ok: "io_ok permits s"
  shows "io_ok permits t"
  using assms(1)
proof cases
  case job
  then show ?thesis using job_step_ok ok by blast
next
  case (submit n c b)
  then show ?thesis
    using ok by (simp add: io_ok_def reserve_used in_scope_def has_permit_def job_bytes_def algebra_simps)
next
  case (refuse n e b)
  then show ?thesis using ok by (simp add: io_ok_def reserve_used)
next
  case (cancel_waiting i)
  have "0 < io_pending s" by (rule in_scope_pending [OF ok cancel_waiting(3)]) simp
  then show ?thesis
    by (intro io_ok_phase [where ph' = Abandoned, OF ok cancel_waiting(3)]) (use cancel_waiting in \<open>simp_all add: io_fields\<close>)
next
  case (cancel_running i)
  then show ?thesis
    using ok sum_update [of i "io_jobs s" job_bytes] filter_same [of i "io_jobs s"]
    by (simp add: io_ok_def job_at_def in_scope_def has_permit_def job_bytes_def)
next
  case other_acquires
  then show ?thesis using ok by (simp add: io_ok_def)
next
  case other_ends
  then show ?thesis using ok by (simp add: io_ok_def)
next
  case (other_reserves n c b)
  then show ?thesis using ok by (simp add: io_ok_def reserve_used algebra_simps)
next
  case (other_releases c)
  then show ?thesis using ok by (simp add: io_ok_def budget_release_def algebra_simps)
qed

lemma io_run_ok: "io_run permits budget s \<Longrightarrow> io_ok permits s"
  by (induction rule: io_run.induct) (simp add: io_ok_def, rule io_step_ok)

section \<open>Waiting for the scope\<close>

definition idle_checks :: "(io_system \<Rightarrow> bool) list" where
  "idle_checks = [\<lambda>s. io_pending s = 0]"

lemma io_step_owes:
  assumes "io_step s False t"
  shows "(io_pending t = 0 \<longrightarrow> io_pending s = 0 \<or> 0 < io_owing t) \<and> (0 < io_owing s \<longrightarrow> 0 < io_owing t)"
  using assms
  by cases (auto elim!: job_step.cases simp: io_fields leave_scope_def set_phase_def drop_metadata_def split: if_splits)

interpretation idle: wait_loop io_step idle_checks "\<lambda>s. 0 < io_owing s"
  by unfold_locales (auto simp: idle_checks_def dest: io_step_owes)

section \<open>Draining\<close>

primrec phase_rank :: "job_phase \<Rightarrow> nat" where
  "phase_rank Acquiring = 4"
| "phase_rank Running = 3"
| "phase_rank Ended = 2"
| "phase_rank Unpermitted = 1"
| "phase_rank Abandoned = 1"
| "phase_rank Done = 0"

definition io_rank :: "io_system \<Rightarrow> nat" where
  "io_rank s = 2 * sum_list (map (\<lambda>j. phase_rank (jb_phase j)) (io_jobs s)) + io_owing s"

lemma rank_phase:
  "job_at s i ph \<Longrightarrow> io_jobs t = (io_jobs s)[i := (io_jobs s ! i)\<lparr>jb_phase := ph'\<rparr>] \<Longrightarrow>
    phase_rank ph' < phase_rank ph \<Longrightarrow> io_owing t \<le> io_owing s + 1 \<Longrightarrow> io_rank t < io_rank s"
  using rank_update [of i "io_jobs s" "\<lambda>j. phase_rank (jb_phase j)" "(io_jobs s ! i)\<lparr>jb_phase := ph'\<rparr>"]
  by (simp add: io_rank_def job_at_def)

lemma job_step_rank:
  assumes "job_step s b t"
  shows "io_rank t < io_rank s"
  using assms
proof cases
  case (acquire i)
  then show ?thesis by (intro rank_phase [of s i Acquiring t Running]) (simp_all add: set_phase_def)
next
  case (ends i)
  then show ?thesis by (intro rank_phase [of s i Running t Ended]) (simp_all add: set_phase_def drop_metadata_def)
next
  case (drop_permit i)
  then show ?thesis by (intro rank_phase [of s i Ended t Unpermitted]) (simp_all add: set_phase_def)
next
  case (drop_guard i)
  then show ?thesis by (intro rank_phase [of s i Unpermitted t Done]) (simp_all add: set_phase_def leave_scope_def)
next
  case (drop_unrun i)
  then show ?thesis by (intro rank_phase [of s i Abandoned t Done]) (simp_all add: set_phase_def drop_metadata_def)
next
  case notify
  then show ?thesis by (simp add: io_rank_def)
qed

text \<open>While others leave a permit, some job of a busy scope can go on.\<close>

lemma some_job:
  assumes "j \<in> set (io_jobs s)"
  obtains i where "job_at s i (jb_phase j)"
  using assms by (metis in_set_conv_nth job_at_def)

lemma job_progress:
  assumes ok: "io_ok permits s" and others: "io_others s < permits" and busy: "0 < io_pending s"
  shows "\<exists>b t. job_step s b t"
proof -
  obtain j where j: "j \<in> set (io_jobs s)" "in_scope j"
    using ok busy by (auto simp: io_ok_def filter_empty_conv)
  obtain i where i: "job_at s i (jb_phase j)" by (rule some_job [OF j(1)])
  have running: "\<exists>b t. job_step s b t" if "job_at s k ph" "ph \<in> {Running, Ended}" for k ph
    using that by (auto intro: job_step.intros)
  show ?thesis
  proof (cases "jb_phase j = Acquiring")
    case True
    show ?thesis
    proof (cases "io_permits s = 0")
      case zero: True
      then have "0 < length (filter has_permit (io_jobs s))" using ok others zero unfolding io_ok_def by linarith
      then obtain j' where j': "j' \<in> set (io_jobs s)" "has_permit j'" by (auto simp: filter_empty_conv)
      obtain k where "job_at s k (jb_phase j')" by (rule some_job [OF j'(1)])
      then show ?thesis using running j'(2) by (auto simp: has_permit_def)
    next
      case False
      then show ?thesis using i True job_step.acquire by auto
    qed
  next
    case False
    then show ?thesis
      using i j(2) running job_step.drop_guard by (cases "jb_phase j") (fastforce simp: in_scope_def)+
  qed
qed

text \<open>Runs of job steps alone.\<close>

inductive job_steps :: "nat \<Rightarrow> io_system \<Rightarrow> io_system \<Rightarrow> bool" where
  refl: "job_steps 0 s s"
| step: "job_steps n s t \<Longrightarrow> job_step t b u \<Longrightarrow> job_steps (Suc n) s u"

lemma job_steps_rank: "job_steps n s t \<Longrightarrow> io_rank t + n \<le> io_rank s"
  by (induction rule: job_steps.induct) (use job_step_rank in fastforce)+

lemma job_steps_ok: "job_steps n s t \<Longrightarrow> io_ok permits s \<Longrightarrow> io_ok permits t"
  by (induction rule: job_steps.induct) (auto intro: job_step_ok)

lemma job_step_others: "job_step s b t \<Longrightarrow> io_others t = io_others s \<and> io_foreign t = io_foreign s"
  by (erule job_step.cases) (simp_all add: io_fields)

lemma job_steps_others: "job_steps n s t \<Longrightarrow> io_others t = io_others s \<and> io_foreign t = io_foreign s"
  by (induction rule: job_steps.induct) (auto dest: job_step_others)

lemma drained:
  assumes ok: "io_ok permits s" and others: "io_others s < permits" and stuck: "\<And>b t. \<not> job_step s b t"
  shows "io_pending s = 0 \<and> io_owing s = 0 \<and> io_permits s + io_others s = permits
    \<and> budget_used (io_budget s) = io_foreign s"
proof -
  have pending: "io_pending s = 0" using job_progress [OF ok others] stuck by blast
  have "io_owing s = 0" using stuck job_step.notify by blast
  have "jb_phase j = Done" if "j \<in> set (io_jobs s)" for j
  proof -
    obtain i where "job_at s i (jb_phase j)" using some_job \<open>j \<in> set (io_jobs s)\<close> by blast
    then have "jb_phase j \<noteq> Abandoned" using stuck job_step.drop_unrun by metis
    moreover have "\<not> in_scope j" using ok pending that by (auto simp: io_ok_def filter_empty_conv)
    ultimately show ?thesis by (cases "jb_phase j") (simp_all add: in_scope_def)
  qed
  then have "filter has_permit (io_jobs s) = []" "map job_bytes (io_jobs s) = map (\<lambda>_. 0) (io_jobs s)"
    by (auto simp: filter_empty_conv has_permit_def job_bytes_def)
  moreover from this(2) have "sum_list (map job_bytes (io_jobs s)) = 0" by (simp only: sum_list_0)
  ultimately show ?thesis using ok pending \<open>io_owing s = 0\<close> by (simp add: io_ok_def)
qed

section \<open>Properties\<close>

text \<open>C28. Permits, pending count and memory are owned by the jobs, not by their callers: in
  every interleaving of submissions, cancellations, file operations and other users, the free
  permits and those of the running jobs and of others are all there are, the pending count is
  the number of jobs in the scope, and the bytes in use are those of the jobs that have not
  dropped them and of others. Cancelling a caller changes none of that for a job that runs.\<close>

theorem operations_account:
  assumes "io_run permits budget s"
  shows "io_permits s + length (filter has_permit (io_jobs s)) + io_others s = permits
    \<and> io_pending s = length (filter in_scope (io_jobs s))
    \<and> budget_used (io_budget s) = sum_list (map job_bytes (io_jobs s)) + io_foreign s"
  using io_run_ok [OF assms] by (simp add: io_ok_def)

text \<open>C27. \<open>idle\<close> waits for every operation of the scope and misses no end: when its check
  succeeds no job of the scope runs or holds a permit, whatever became of the callers; and
  once that is so and no notification is outstanding, a waiter that began at any reachable
  moment returns by at most five steps of its own.\<close>

theorem idle_waits_for_every_job:
  assumes run: "io_run permits budget s0" "wait_run io_step idle_checks s0 s waiting"
    and idle: "io_pending s = 0"
  shows "(\<forall>j \<in> set (io_jobs s). jb_phase j = Abandoned \<or> jb_phase j = Done)
    \<and> io_permits s + io_others s = permits
    \<and> (0 < io_owing s \<or> (waiter_step idle_checks s ^^ 5) waiting = Finished)"
proof -
  have ok: "io_ok permits s"
    using run(2,1) by (induction rule: wait_run.induct) (auto intro: io_step_ok io_run_ok)
  have out: "jb_phase j = Abandoned \<or> jb_phase j = Done" if "j \<in> set (io_jobs s)" for j
  proof -
    have "\<not> in_scope j" using ok idle that by (auto simp: io_ok_def filter_empty_conv)
    then show ?thesis by (cases "jb_phase j") (simp_all add: in_scope_def)
  qed
  then have "filter has_permit (io_jobs s) = []" by (force simp: filter_empty_conv has_permit_def)
  moreover have "(waiter_step idle_checks s ^^ (2 * length idle_checks + 3)) waiting = Finished" if "\<not> 0 < io_owing s"
    by (rule idle.wait_ends [OF run(2) _ _ that, of "\<lambda>s. io_pending s = 0"]) (simp_all add: idle_checks_def idle)
  moreover have "2 * length idle_checks + 3 = 5" by (simp add: idle_checks_def)
  ultimately show ?thesis using ok out by (auto simp: io_ok_def)
qed

text \<open>C29. A scope always drains: from any reachable moment at which others leave at least one
  permit, with or without callers, every sequence of steps of its jobs is bounded by their
  rank, and one that cannot go on has left the scope idle and notified, with every permit and
  every byte of the jobs given back. So cleanup does not wait for ever.\<close>

theorem scope_drains:
  assumes "io_run permits budget s" and "io_others s < permits" and "job_steps n s t"
  shows "n \<le> io_rank s \<and>
    ((\<exists>b u. job_step t b u) \<or> io_pending t = 0 \<and> io_owing t = 0 \<and> io_permits t + io_others t = permits
      \<and> budget_used (io_budget t) = io_foreign t)"
  using job_steps_rank [OF assms(3)] job_steps_others [OF assms(3)] assms(2)
    drained [OF job_steps_ok [OF assms(3) io_run_ok [OF assms(1)]]] by auto

end
