(* ===== verification/BudgetThreads.thy ===== *)
theory BudgetThreads
  imports Budget
begin

text \<open>
  Reservations by concurrent tasks at the grain of their atomic operations
  (src/engine/budget.rs): the load, the two questions to the pressure source, the weak
  compare-and-exchange that may fail, the update of the peak, and the release. The theory
  justifies the atomic reservation of theory Budget.
\<close>

section \<open>Steps\<close>

text \<open>
  Where a reservation of so many bytes stands: it has loaded the used bytes, has also asked for
  the limit, holds its charge with the peak still to be raised to the bytes it reached, holds
  its charge, was refused or has been released.
\<close>

datatype reservation =
    Starting u64
  | Loaded u64 u64
  | Limited u64 u64 u64
  | Granted u64 u64
  | Holding u64
  | Refused error
  | Released

record counters =
  ct_used :: u64
  ct_peak :: u64
  ct_tasks :: "reservation list"

text \<open>The answer of the limit while the source answers \<open>target\<close> and \<open>resident\<close>.\<close>

definition answered_limit :: "budget \<Rightarrow> u64 \<Rightarrow> u64 \<Rightarrow> u64" where
  "answered_limit b target resident =
     (case budget_pressure b of
        None \<Rightarrow> budget_cap b
      | Some _ \<Rightarrow> min (budget_cap b) (saturating_sub target resident))"

definition within_limit :: "u64 \<Rightarrow> u64 \<Rightarrow> u64 \<Rightarrow> u64 option" where
  "within_limit previous bytes limit =
     (case checked_add previous bytes of None \<Rightarrow> None | Some after \<Rightarrow> if after \<le> limit then Some after else None)"

definition task_at :: "counters \<Rightarrow> nat \<Rightarrow> reservation \<Rightarrow> bool" where
  "task_at s i r \<longleftrightarrow> i < length (ct_tasks s) \<and> ct_tasks s ! i = r"

definition set_task :: "nat \<Rightarrow> reservation \<Rightarrow> counters \<Rightarrow> counters" where
  "set_task i r s = s\<lparr>ct_tasks := (ct_tasks s)[i := r]\<rparr>"

inductive reserve_step :: "budget \<Rightarrow> counters \<Rightarrow> counters \<Rightarrow> bool" for b where
  call: "reserve_step b s (s\<lparr>ct_tasks := ct_tasks s @ [Starting bytes]\<rparr>)"
| load: "task_at s i (Starting n) \<Longrightarrow> reserve_step b s (set_task i (Loaded n (ct_used s)) s)"
| ask: "task_at s i (Loaded n p) \<Longrightarrow>
    reserve_step b s (set_task i (Limited n p (answered_limit b target resident)) s)"
| refuse: "task_at s i (Limited n p l) \<Longrightarrow> within_limit p n l = None \<Longrightarrow>
    reserve_step b s (set_task i (Refused (MemoryBudget n (saturating_sub l p))) s)"
| exchange: "task_at s i (Limited n p l) \<Longrightarrow> within_limit p n l = Some after \<Longrightarrow> ct_used s = p \<Longrightarrow>
    reserve_step b s ((set_task i (Granted n after) s)\<lparr>ct_used := after\<rparr>)"
| retry: "task_at s i (Limited n p l) \<Longrightarrow> within_limit p n l = Some after \<Longrightarrow>
    reserve_step b s (set_task i (Loaded n (ct_used s)) s)"
| raise_peak: "task_at s i (Granted n after) \<Longrightarrow>
    reserve_step b s ((set_task i (Holding n) s)\<lparr>ct_peak := max (ct_peak s) after\<rparr>)"
| release: "task_at s i (Holding n) \<Longrightarrow>
    reserve_step b s ((set_task i Released s)\<lparr>ct_used := ct_used s - n\<rparr>)"

text \<open>Reachable states, with the highest value the used counter has had.\<close>

inductive reserve_run :: "budget \<Rightarrow> u64 \<Rightarrow> counters \<Rightarrow> bool" for b where
  start: "reserve_run b 0 \<lparr>ct_used = 0, ct_peak = 0, ct_tasks = []\<rparr>"
| step: "reserve_run b highest s \<Longrightarrow> reserve_step b s t \<Longrightarrow> reserve_run b (max highest (ct_used t)) t"

section \<open>The account of the charges\<close>

definition held :: "reservation \<Rightarrow> nat" where
  "held r = (case r of Granted n _ \<Rightarrow> unat n | Holding n \<Rightarrow> unat n | _ \<Rightarrow> 0)"

definition total_held :: "counters \<Rightarrow> nat" where
  "total_held s = sum_list (map held (ct_tasks s))"

definition task_ok :: "budget \<Rightarrow> reservation \<Rightarrow> bool" where
  "task_ok b r = (case r of Limited n p l \<Rightarrow> l \<le> budget_cap b | Granted n after \<Rightarrow> after \<le> budget_cap b | _ \<Rightarrow> True)"

definition counters_ok :: "budget \<Rightarrow> u64 \<Rightarrow> counters \<Rightarrow> bool" where
  "counters_ok b highest s \<longleftrightarrow>
     unat (ct_used s) = total_held s \<and> ct_used s \<le> budget_cap b \<and> ct_peak s \<le> highest
     \<and> (\<forall>r \<in> set (ct_tasks s). task_ok b r)
     \<and> highest \<le> budget_cap b \<and> ct_used s \<le> highest
     \<and> (highest = ct_peak s \<or> (\<exists>n. Granted n highest \<in> set (ct_tasks s)))
     \<and> (\<forall>n after. Granted n after \<in> set (ct_tasks s) \<longrightarrow> after \<le> highest)"

lemma answered_limit_cap: "answered_limit b target resident \<le> budget_cap b"
  by (simp add: answered_limit_def split: option.splits)

lemma within_limit_Some:
  "within_limit p n l = Some after \<longleftrightarrow> unat after = unat p + unat n \<and> after \<le> l"
proof -
  have "within_limit p n l = Some after \<longleftrightarrow> checked_add p n = Some after \<and> after \<le> l"
    by (auto simp: within_limit_def split: option.splits)
  then show ?thesis by (simp add: word_facts)
qed

lemma total_set:
  "task_at s i r \<Longrightarrow> total_held (set_task i r' s) + held r = total_held s + held r'"
  using rank_update [of i "ct_tasks s" held r'] by (simp add: task_at_def set_task_def total_held_def)

lemma held_le: "task_at s i r \<Longrightarrow> held r \<le> total_held s"
  unfolding task_at_def total_held_def by (auto intro: member_le_sum_list)

lemma set_task_set: "r \<in> set (ct_tasks (set_task i r' s)) \<Longrightarrow> r \<in> set (ct_tasks s) \<or> r = r'"
  using set_update_subset_insert [of "ct_tasks s" i r'] by (auto simp: set_task_def)

lemma set_task_keeps:
  "task_at s i r \<Longrightarrow> q \<in> set (ct_tasks s) \<Longrightarrow> q \<noteq> r \<Longrightarrow> q \<in> set (ct_tasks (set_task i r' s))"
  by (auto simp: set_task_def task_at_def in_set_conv_nth) (metis length_list_update nth_list_update_neq)

text \<open>One turn of the loop decides as the atomic reservation does with the same limit.\<close>

lemma turn_is_budget_reserve:
  assumes "budget_limit b = (l, b1)"
  shows "within_limit (budget_used b) n l = Some after \<Longrightarrow>
      budget_reserve n b = (Inr n, b1\<lparr>budget_used := after, budget_peak := max (budget_peak b1) after\<rparr>)"
    and "within_limit (budget_used b) n l = None \<Longrightarrow>
      budget_reserve n b = (Inl (MemoryBudget n (saturating_sub l (budget_used b))), b1)"
  using assms by (auto simp: budget_reserve_def within_limit_def Let_def split: option.splits if_splits)

text \<open>A step that replaces one task keeps the invariant if it keeps the sums and the peak right.\<close>

lemma replace_task_ok:
  assumes ok: "counters_ok b highest s" and i: "task_at s i r"
    and t: "ct_tasks t = ct_tasks (set_task i r' s)" and r': "task_ok b r'"
    and used: "unat (ct_used t) + held r = unat (ct_used s) + held r'" "ct_used t \<le> budget_cap b"
    and peak: "ct_peak s \<le> ct_peak t" "ct_peak t \<le> highest"
    and granted: "\<And>n after. r' = Granted n after \<Longrightarrow> after = ct_used t"
      "\<And>n. r = Granted n highest \<Longrightarrow> ct_peak t = highest"
    and risen: "highest < ct_used t \<Longrightarrow> \<exists>n. r' = Granted n (ct_used t)"
  shows "counters_ok b (max highest (ct_used t)) t"
proof -
  have set: "q \<in> set (ct_tasks s) \<or> q = r'" if "q \<in> set (ct_tasks t)" for q
    using that t set_task_set by metis
  have here: "r' \<in> set (ct_tasks t)"
    using i t by (simp add: task_at_def set_task_def set_update_memI)
  have "unat (ct_used t) = total_held t"
    using total_set [OF i, of r'] used(1) ok t by (simp add: counters_ok_def total_held_def)
  moreover have "\<forall>q \<in> set (ct_tasks t). task_ok b q" using set ok r' by (auto simp: counters_ok_def)
  moreover have "\<forall>n after. Granted n after \<in> set (ct_tasks t) \<longrightarrow> after \<le> max highest (ct_used t)"
    using set granted(1) ok by (fastforce simp: counters_ok_def le_max_iff_disj)
  moreover have "max highest (ct_used t) = ct_peak t \<or> (\<exists>n. Granted n (max highest (ct_used t)) \<in> set (ct_tasks t))"
  proof (cases "highest < ct_used t")
    case True
    then show ?thesis using risen here by (auto simp: max_def)
  next
    case False
    then have m: "max highest (ct_used t) = highest" by (simp add: max_def)
    from ok have "highest = ct_peak s \<or> (\<exists>n. Granted n highest \<in> set (ct_tasks s))" by (simp add: counters_ok_def)
    then show ?thesis
    proof
      assume "highest = ct_peak s"
      then show ?thesis using peak m by auto
    next
      assume "\<exists>n. Granted n highest \<in> set (ct_tasks s)"
      then obtain n where n: "Granted n highest \<in> set (ct_tasks s)" by blast
      show ?thesis
      proof (cases "r = Granted n highest")
        case True
        then show ?thesis using granted(2) m by simp
      next
        case False
        then show ?thesis using set_task_keeps [OF i n, of r'] t m by auto
      qed
    qed
  qed
  ultimately show ?thesis
    using ok used(2) peak by (auto simp: counters_ok_def le_max_iff_disj)
qed

lemma task_in: "task_at s i r \<Longrightarrow> r \<in> set (ct_tasks s)"
  by (auto simp: task_at_def)

lemma set_task_fields [simp]: "ct_used (set_task i r s) = ct_used s" "ct_peak (set_task i r s) = ct_peak s"
  by (simp_all add: set_task_def)

lemma idle_task_ok:
  assumes ok: "counters_ok b highest s" and i: "task_at s i r" and "task_ok b r'"
    and "held r' = held r" and "\<And>n after. r \<noteq> Granted n after" "\<And>n after. r' \<noteq> Granted n after"
  shows "counters_ok b (max highest (ct_used (set_task i r' s))) (set_task i r' s)"
  by (rule replace_task_ok [OF ok i, where r' = r']) (use assms in \<open>auto simp: counters_ok_def\<close>)

lemma reserve_step_ok:
  assumes "reserve_step b s t" and ok: "counters_ok b highest s"
  shows "counters_ok b (max highest (ct_used t)) t"
  using assms(1)
proof cases
  case (call bytes)
  then have "max highest (ct_used t) = highest" using ok by (simp add: counters_ok_def max.absorb1)
  then show ?thesis using ok call by (auto simp: counters_ok_def total_held_def held_def task_ok_def)
next
  case (load i n)
  then show ?thesis using idle_task_ok [OF ok] by (simp add: task_ok_def held_def)
next
  case (ask i n p target resident)
  then show ?thesis using idle_task_ok [OF ok] by (simp add: task_ok_def held_def answered_limit_cap)
next
  case (refuse i n p l)
  then show ?thesis using idle_task_ok [OF ok] by (simp add: task_ok_def held_def)
next
  case (retry i n p l after)
  then show ?thesis using idle_task_ok [OF ok] by (simp add: task_ok_def held_def)
next
  case (exchange i n p l after)
  have after: "unat after = unat (ct_used s) + unat n" "after \<le> l"
    using exchange by (auto simp: within_limit_Some)
  have "task_ok b (Limited n p l)"
    using ok task_in [OF exchange(2)] by (auto simp: counters_ok_def)
  then have cap: "after \<le> budget_cap b" using after by (simp add: task_ok_def)
  show ?thesis
    by (rule replace_task_ok [OF ok exchange(2), where r' = "Granted n after"])
      (use exchange(1) after cap ok in \<open>auto simp: task_ok_def held_def counters_ok_def\<close>)
next
  case (raise_peak i n after)
  have "after \<le> highest" using ok task_in [OF raise_peak(2)] by (auto simp: counters_ok_def)
  then show ?thesis
    by (intro replace_task_ok [OF ok raise_peak(2), where r' = "Holding n"])
      (use raise_peak(1) ok in \<open>auto simp: task_ok_def held_def counters_ok_def\<close>)
next
  case (release i n)
  have "unat n \<le> unat (ct_used s)"
    using held_le [OF release(2)] ok by (simp add: held_def counters_ok_def)
  then have sub: "unat (ct_used s - n) + unat n = unat (ct_used s)"
    by (simp add: unat_sub word_le_nat_alt)
  then have "ct_used s - n \<le> ct_used s" by (simp add: word_le_nat_alt)
  then show ?thesis
    by (intro replace_task_ok [OF ok release(2), where r' = Released])
      (use release(1) ok sub in \<open>auto simp: task_ok_def held_def counters_ok_def\<close>)
qed

lemma reserve_run_ok: "reserve_run b highest s \<Longrightarrow> counters_ok b highest s"
  by (induction rule: reserve_run.induct)
    (simp add: counters_ok_def total_held_def, rule reserve_step_ok)

text \<open>C32. Concurrent reservations keep the budget exact: in every interleaving of the loads,
  questions to the pressure source, exchanges that may fail, peak updates and releases of any
  number of tasks, the used counter is the sum of the charges held, so it never wraps and never
  passes the ceiling, and whenever no task stands between its exchange and its peak update the
  peak is the highest value the counter has ever had.\<close>

theorem concurrent_reservations_are_exact:
  assumes "reserve_run b highest s"
  shows "unat (ct_used s) = total_held s \<and> ct_used s \<le> budget_cap b \<and> ct_peak s \<le> highest
    \<and> (ct_peak s = highest \<or> (\<exists>n after. Granted n after \<in> set (ct_tasks s)))"
  using reserve_run_ok [OF assms] by (auto simp: counters_ok_def)

end
