(* ===== verification/ConcurrentRuns.thy ===== *)
theory ConcurrentRuns
  imports PublicationSteps OperationJobs BudgetThreads
begin

text \<open>
  Concrete interleavings for the properties of theories PublicationSteps, OperationJobs and
  BudgetThreads: a reader that loads between the steps of the writer, a caller that goes away
  while its operation runs, and two tasks that race for one budget.
\<close>

section \<open>Publication\<close>

definition one_row :: publication where
  "one_row = publication_new\<lparr>pb_rows := 1\<rparr>"

lemma publishes_one: "publication_steps (publication_new, Idle) (one_row, Notifying)"
proof -
  have "publication_step (publication_new, Idle) False (publication_new, Publishing 1)"
    by (rule publication_step.load) (simp add: publication_new_def)
  then show ?thesis
    unfolding one_row_def
    by (rule publication_steps.step [OF publication_steps.step [OF publication_steps.refl] publication_step.store])
qed

theorem snapshot_linearizes_witness:
  "\<exists>u. publication_steps (publication_new, Idle) u \<and> publication_steps u (one_row, Notifying)
    \<and> publication_snapshot (fst u) = Inr (1, False)"
proof -
  have "split_snapshot (publication_new, Idle) (one_row, Notifying) = Inr (1, False)"
    by (simp add: split_snapshot_def one_row_def publication_new_def)
  then show ?thesis
    using snapshot_linearizes [OF publication_steps.refl publishes_one] by metis
qed

text \<open>A reader registers, finds nothing and sleeps; the writer publishes and notifies.\<close>

lemma sleeping_reader: "reader_run 0 (one_row, Idle) (Parked True)"
proof -
  let ?run = "wait_run publication_step (reader_checks 0) (publication_new, Idle)"
  have own: "?run s wt \<Longrightarrow> waiter_step (reader_checks 0) s wt = wt' \<Longrightarrow> ?run s wt'" for s wt wt'
    using wait_run.own by metis
  have "?run (publication_new, Idle) (Looking 0 False)"
    by (rule own [OF wait_run.start]) simp
  then have "?run (publication_new, Idle) (Looking 1 False)"
    by (rule own) (simp add: reader_checks_def publication_new_def)
  then have "?run (publication_new, Idle) (Looking 2 False)"
    by (rule own) (simp add: reader_checks_def publication_new_def)
  then have "?run (publication_new, Idle) (Parked False)"
    by (rule own) (simp add: reader_checks_def)
  moreover have "publication_step (publication_new, Idle) False (publication_new, Publishing 1)"
    by (rule publication_step.load) (simp add: publication_new_def)
  moreover have "publication_step (publication_new, Publishing 1) False (one_row, Notifying)"
    unfolding one_row_def by (rule publication_step.store)
  ultimately have "?run (one_row, Notifying) (notify False (notify False (Parked False)))"
    using wait_run.other by metis
  then have "?run (one_row, Idle) (notify True (notify False (notify False (Parked False))))"
    using publication_step.notify [of one_row] wait_run.other by metis
  then show ?thesis by (simp add: reader_run_def)
qed

theorem reader_wakes_up_witness:
  "(waiter_step (reader_checks 0) (one_row, Idle) ^^ 7) (Parked True) = Finished"
  using reader_wakes_up [OF sleeping_reader] by (simp add: one_row_def)

section \<open>Operations\<close>

definition io_started :: io_system where
  "io_started = \<lparr>io_permits = 1, io_budget = budget_new 64, io_pending = 0, io_owing = 0,
     io_jobs = [], io_others = 0, io_foreign = 0\<rparr>"

text \<open>One operation is submitted, runs, and its caller goes away.\<close>

definition io_running :: io_system where
  "io_running = \<lparr>io_permits = 0, io_budget = (budget_new 64)\<lparr>budget_used := 8, budget_peak := 8\<rparr>, io_pending = 1,
     io_owing = 0, io_jobs = [\<lparr>jb_charge = 8, jb_phase = Running, jb_caller = False\<rparr>], io_others = 0, io_foreign = 0\<rparr>"

lemma io_started_run: "io_run 1 (budget_new 64) io_started"
  unfolding io_started_def by (rule io_run.start) (simp add: budget_new_def)

lemma io_steps:
  "\<exists>s. io_step io_started False s \<and> (\<exists>t. io_step s False t \<and> io_step t False io_running)"
proof -
  let ?s = "io_running\<lparr>io_permits := 1, io_jobs := [\<lparr>jb_charge = 8, jb_phase = Acquiring, jb_caller = True\<rparr>]\<rparr>"
  let ?t = "io_running\<lparr>io_jobs := [\<lparr>jb_charge = 8, jb_phase = Running, jb_caller = True\<rparr>]\<rparr>"
  have "budget_reserve 8 (budget_new 64) = (Inr 8, (budget_new 64)\<lparr>budget_used := 8, budget_peak := 8\<rparr>)"
    by (simp add: budget_reserve_def budget_new_def budget_limit_def checked_add_def)
  then have "io_step io_started False ?s"
    using io_step.submit [of 8 io_started 8 "(budget_new 64)\<lparr>budget_used := 8, budget_peak := 8\<rparr>"]
    by (simp add: io_started_def io_running_def)
  moreover have "io_step ?s False ?t"
    using io_step.job [OF job_step.acquire [of ?s 0]] by (simp add: job_at_def set_phase_def io_running_def)
  moreover have "io_step ?t False io_running"
    using io_step.cancel_running [of ?t 0] by (simp add: job_at_def io_running_def)
  ultimately show ?thesis by blast
qed

lemma io_running_run: "io_run 1 (budget_new 64) io_running"
  using io_steps io_run.step [OF io_started_run] io_run.step by metis

theorem operations_account_witness:
  "io_run 1 (budget_new 64) io_running \<and> io_pending io_running = length (filter in_scope (io_jobs io_running))"
  using operations_account [OF io_running_run] io_running_run by simp

text \<open>The abandoned operation ends all the same, in four steps and a notification.\<close>

definition io_ended :: "nat \<Rightarrow> io_system" where
  "io_ended owing = \<lparr>io_permits = 1, io_budget = (budget_new 64)\<lparr>budget_peak := 8\<rparr>, io_pending = 0,
     io_owing = owing, io_jobs = [\<lparr>jb_charge = 8, jb_phase = Done, jb_caller = False\<rparr>], io_others = 0, io_foreign = 0\<rparr>"

lemma io_drains:
  obtains a b where "job_step io_running False a" "job_step a False b" "job_step b False (io_ended 1)"
    "job_step (io_ended 1) True (io_ended 0)"
proof -
  let ?ended = "\<lambda>ph p. (io_ended 0)\<lparr>io_permits := p, io_pending := 1,
    io_jobs := [\<lparr>jb_charge = 8, jb_phase = ph, jb_caller = False\<rparr>]\<rparr>"
  have "job_step io_running False (?ended Ended 0)"
    using job_step.ends [of io_running 0]
    by (simp add: job_at_def set_phase_def drop_metadata_def budget_release_def budget_new_def io_running_def io_ended_def)
  moreover have "job_step (?ended Ended 0) False (?ended Unpermitted 1)"
    using job_step.drop_permit [of "?ended Ended 0" 0] by (simp add: job_at_def set_phase_def io_ended_def)
  moreover have "job_step (?ended Unpermitted 1) False (io_ended 1)"
    using job_step.drop_guard [of "?ended Unpermitted 1" 0] by (simp add: job_at_def set_phase_def leave_scope_def io_ended_def)
  moreover have "job_step (io_ended 1) True (io_ended 0)"
    using job_step.notify [of "io_ended 1"] by (simp add: io_ended_def)
  ultimately show thesis by (rule that)
qed

theorem idle_waits_for_every_job_witness:
  "wait_run io_step idle_checks io_running (io_ended 0) (Parked True)
    \<and> (waiter_step idle_checks (io_ended 0) ^^ 5) (Parked True) = Finished"
proof -
  let ?run = "wait_run io_step idle_checks io_running"
  have own: "?run s wt \<Longrightarrow> waiter_step idle_checks s wt = wt' \<Longrightarrow> ?run s wt'" for s wt wt'
    using wait_run.own by metis
  obtain a b where steps: "io_step io_running False a" "io_step a False b" "io_step b False (io_ended 1)"
    "io_step (io_ended 1) True (io_ended 0)"
    using io_drains io_step.job by metis
  have "?run io_running (Looking 0 False)" by (rule own [OF wait_run.start]) simp
  then have "?run io_running (Looking 1 False)" by (rule own) (simp add: idle_checks_def io_running_def)
  then have "?run io_running (Parked False)" by (rule own) (simp add: idle_checks_def)
  then have "?run (io_ended 0) (notify True (notify False (notify False (notify False (Parked False)))))"
    using steps wait_run.other by metis
  then have run: "?run (io_ended 0) (Parked True)" by simp
  then show ?thesis
    using idle_waits_for_every_job [OF io_running_run run] by (simp add: io_ended_def)
qed

theorem scope_drains_witness:
  "job_steps 4 io_running (io_ended 0) \<and> 4 \<le> io_rank io_running"
proof -
  obtain a b where steps: "job_step io_running False a" "job_step a False b" "job_step b False (io_ended 1)"
    "job_step (io_ended 1) True (io_ended 0)"
    by (rule io_drains)
  have "job_steps (Suc (Suc (Suc (Suc 0)))) io_running (io_ended 0)"
    using steps job_steps.intros by metis
  then have run: "job_steps 4 io_running (io_ended 0)" by (simp add: numeral_eq_Suc)
  then show ?thesis using scope_drains [OF io_running_run _ run] by (simp add: io_running_def)
qed

section \<open>The budget\<close>

text \<open>Two tasks load the same bytes; the second exchange fails and starts again.\<close>

definition raced :: counters where
  "raced = \<lparr>ct_used = 3, ct_peak = 0, ct_tasks = [Granted 3 3, Loaded 2 3]\<rparr>"

lemma raced_run: "reserve_run (budget_new 64) 3 raced"
proof -
  let ?b = "budget_new 64"
  let ?s = "\<lambda>used rs. \<lparr>ct_used = used, ct_peak = 0, ct_tasks = rs\<rparr>"
  have limit: "answered_limit ?b 0 0 = 64" by (simp add: answered_limit_def budget_new_def)
  have fits: "within_limit 0 3 64 = Some 3" "within_limit 0 2 64 = Some 2"
    by (simp_all add: within_limit_def checked_add_def)
  have go: "reserve_run ?b h (?s u rs) \<Longrightarrow> reserve_step ?b (?s u rs) (?s v qs) \<Longrightarrow> max h v = h' \<Longrightarrow> reserve_run ?b h' (?s v qs)"
    for h h' u v rs qs
    using reserve_run.step [of ?b h "?s u rs" "?s v qs"] by simp
  have "reserve_run ?b 0 (?s 0 [])" by (rule reserve_run.start)
  then have "reserve_run ?b 0 (?s 0 [Starting 3])"
    by (rule go) (use reserve_step.call [of ?b "?s 0 []" 3] in simp_all)
  then have "reserve_run ?b 0 (?s 0 [Starting 3, Starting 2])"
    by (rule go) (use reserve_step.call [of ?b "?s 0 [Starting 3]" 2] in simp_all)
  then have "reserve_run ?b 0 (?s 0 [Loaded 3 0, Starting 2])"
    by (rule go) (use reserve_step.load [of "?s 0 [Starting 3, Starting 2]" 0 3 ?b] in \<open>simp_all add: task_at_def set_task_def\<close>)
  then have "reserve_run ?b 0 (?s 0 [Loaded 3 0, Loaded 2 0])"
    by (rule go) (use reserve_step.load [of "?s 0 [Loaded 3 0, Starting 2]" 1 2 ?b] in \<open>simp_all add: task_at_def set_task_def\<close>)
  then have "reserve_run ?b 0 (?s 0 [Limited 3 0 64, Loaded 2 0])"
    by (rule go) (use reserve_step.ask [of "?s 0 [Loaded 3 0, Loaded 2 0]" 0 3 0 ?b 0 0] limit in \<open>simp_all add: task_at_def set_task_def\<close>)
  then have "reserve_run ?b 0 (?s 0 [Limited 3 0 64, Limited 2 0 64])"
    by (rule go) (use reserve_step.ask [of "?s 0 [Limited 3 0 64, Loaded 2 0]" 1 2 0 ?b 0 0] limit in \<open>simp_all add: task_at_def set_task_def\<close>)
  then have "reserve_run ?b 3 (?s 3 [Granted 3 3, Limited 2 0 64])"
    by (rule go) (use reserve_step.exchange [of "?s 0 [Limited 3 0 64, Limited 2 0 64]" 0 3 0 64 3 ?b] fits in
        \<open>simp_all add: task_at_def set_task_def\<close>)
  then show ?thesis
    unfolding raced_def
    by (rule go) (use reserve_step.retry [of "?s 3 [Granted 3 3, Limited 2 0 64]" 1 2 0 64 2 ?b] fits in
        \<open>simp_all add: task_at_def set_task_def\<close>)
qed

theorem concurrent_reservations_are_exact_witness:
  "reserve_run (budget_new 64) 3 raced \<and> total_held raced = 3"
  using concurrent_reservations_are_exact [OF raced_run] raced_run by (simp add: raced_def)

end
