(* ===== verification/Service.thy ===== *)
theory Service
  imports Session Replay
begin

text \<open>
  The governor service (src/service/): the actor's state and its handling of one command
  (actor.rs, command.rs, stats.rs), the lease it hands out and its conversion into a session
  or a replay writer (lease.rs). The descriptors and the memory it shares with the running
  sorts are part of the actor's state here; the handle and its channel are in theory Governor.
\<close>

section \<open>Leases\<close>

text \<open>The guard of an external lease is present or not; its drop lowers the shared counter.\<close>

record sort_lease =
  sl_plan :: sort_plan
  sl_dir :: path
  sl_active :: bool

definition lease_in_memory :: "sort_plan \<Rightarrow> path \<Rightarrow> sort_lease" where
  "lease_in_memory plan dir = \<lparr>sl_plan = plan, sl_dir = dir, sl_active = False\<rparr>"

definition lease_external :: "sort_plan \<Rightarrow> path \<Rightarrow> sort_lease" where
  "lease_external plan dir = \<lparr>sl_plan = plan, sl_dir = dir, sl_active = True\<rparr>"

definition active_guard_drop :: "sort_lease \<Rightarrow> u32 \<Rightarrow> u32" where
  "active_guard_drop l n = (if sl_active l then n - 1 else n)"

section \<open>The actor\<close>

record sorter_actor =
  ac_config :: sorter_config
  ac_permits :: nat
  ac_fd_total :: u32
  ac_memory :: budget
  ac_active :: u32
  ac_pressure :: pressure
  ac_root :: path
  ac_next_id :: u64
  ac_namespace :: string
  ac_in_memory_count :: u64
  ac_external_count :: u64

record sorter_stats =
  st_in_memory_sorts :: u64
  st_external_sorts :: u64
  st_active_external_sorts :: u32
  st_fd_permits_available :: u32
  st_fd_permits_total :: u32
  st_memory_bytes_used :: u64
  st_memory_bytes_peak :: u64
  st_memory_bytes_limit :: u64

text \<open>The namespace is a fresh identifier drawn outside the code.\<close>

definition actor_new :: "sorter_config \<Rightarrow> u32 \<Rightarrow> pressure \<Rightarrow> path \<Rightarrow> string \<Rightarrow> sorter_actor" where
  "actor_new config fd_budget p root namespace =
     \<lparr>ac_config = config, ac_permits = unat fd_budget, ac_fd_total = fd_budget,
      ac_memory = budget_governed (max_run_buffer_bytes config) p, ac_active = 0, ac_pressure = p,
      ac_root = root, ac_next_id = 0, ac_namespace = namespace, ac_in_memory_count = 0,
      ac_external_count = 0\<rparr>"

definition available_fd_permits :: "sorter_actor \<Rightarrow> u32" where
  "available_fd_permits a = (if ac_permits a < 2 ^ 32 then of_nat (ac_permits a) else - 1)"

text \<open>The snapshot asks the source the budget asks, with the same count of calls.\<close>

definition actor_snapshot :: "sorter_actor \<Rightarrow> sorter_snapshot \<times> sorter_actor" where
  "actor_snapshot a =
     (let clock = budget_clock (ac_memory a)
      in (snapshot_new (fst (ac_pressure a clock)) (snd (ac_pressure a (Suc clock)))
            (available_fd_permits a) (ac_active a),
          a\<lparr>ac_memory := (ac_memory a)\<lparr>budget_clock := Suc (Suc clock)\<rparr>\<rparr>))"

definition actor_stats :: "sorter_actor \<Rightarrow> sorter_stats \<times> sorter_actor" where
  "actor_stats a =
     (case budget_limit (ac_memory a) of (limit, memory) \<Rightarrow>
        (\<lparr>st_in_memory_sorts = ac_in_memory_count a, st_external_sorts = ac_external_count a,
          st_active_external_sorts = ac_active a, st_fd_permits_available = available_fd_permits a,
          st_fd_permits_total = ac_fd_total a, st_memory_bytes_used = budget_used (ac_memory a),
          st_memory_bytes_peak = budget_peak (ac_memory a), st_memory_bytes_limit = limit\<rparr>,
         a\<lparr>ac_memory := memory\<rparr>))"

definition sort_name :: "string \<Rightarrow> u64 \<Rightarrow> string" where
  "sort_name namespace ordinal = ''sort-'' @ namespace @ ''-'' @ padded 20 (unat ordinal)"

text \<open>Admission; a planner that panics ends the actor.\<close>

definition admit :: "sort_spec \<Rightarrow> sorter_actor \<Rightarrow> fault + (error + sort_lease) \<times> sorter_actor" where
  "admit spec a =
     (case actor_snapshot a of (snap, a1) \<Rightarrow>
      case sort_planner_plan spec snap (ac_config a1) of
        Inl e \<Rightarrow> Inl e
      | Inr plan \<Rightarrow>
          (case checked_add (ac_next_id a1) 1 of
             None \<Rightarrow> Inr (Inl RunLimit, a1)
           | Some next_id \<Rightarrow>
               let dir = join (ac_root a1) (sort_name (ac_namespace a1) (ac_next_id a1));
                   a2 = a1\<lparr>ac_next_id := next_id\<rparr>
               in case plan of
                    InMemory \<Rightarrow>
                      Inr (Inr (lease_in_memory plan dir), a2\<lparr>ac_in_memory_count := ac_in_memory_count a2 + 1\<rparr>)
                  | External _ _ \<Rightarrow>
                      Inr (Inr (lease_external plan dir),
                        a2\<lparr>ac_external_count := ac_external_count a2 + 1, ac_active := ac_active a2 + 1\<rparr>)))"

section \<open>What a lease becomes\<close>

text \<open>
  A session over the governor's descriptors and memory that holds the lease, here by the
  identity \<open>hold\<close>.
\<close>

definition into_session ::
    "sort_lease \<Rightarrow> resource \<Rightarrow> bool \<Rightarrow> sorter_actor \<Rightarrow> 'fs \<Rightarrow> fault + ('k, 'v) session \<times> 'fs world" where
  "into_session l hold dedup a files =
     (case session_new (sl_plan l) (sl_dir l) dedup of
        Inl e \<Rightarrow> Inl e
      | Inr ss \<Rightarrow>
          (case and_then (with_fd_budget (ac_permits a)) (\<lambda>_. with_memory_budget (ac_memory a))
              (ss, session_world (sl_plan l) files) of
             (Inl e, _) \<Rightarrow> Inl e
           | (Inr _, (ss, w)) \<Rightarrow> Inr (hold_resource hold ss, w)))"

definition into_replay_writer :: "sort_lease \<Rightarrow> resource \<Rightarrow> fault + replay_writer \<times> replay_inner" where
  "into_replay_writer l hold = replay_writer_new (sl_dir l) (Some hold)"

section \<open>One admission\<close>

lemma snapshot_fields [simp]:
  "ac_config (snd (actor_snapshot a)) = ac_config a" "ac_permits (snd (actor_snapshot a)) = ac_permits a"
  "ac_active (snd (actor_snapshot a)) = ac_active a" "ac_root (snd (actor_snapshot a)) = ac_root a"
  "ac_next_id (snd (actor_snapshot a)) = ac_next_id a" "ac_namespace (snd (actor_snapshot a)) = ac_namespace a"
  "ac_in_memory_count (snd (actor_snapshot a)) = ac_in_memory_count a"
  "ac_external_count (snd (actor_snapshot a)) = ac_external_count a"
  "ac_fd_total (snd (actor_snapshot a)) = ac_fd_total a"
  by (simp_all add: actor_snapshot_def Let_def)

lemma snapshot_values:
  "fd_headroom (fst (actor_snapshot a)) = available_fd_permits a"
  "active_external_sorts (fst (actor_snapshot a)) = ac_active a"
  by (simp_all add: actor_snapshot_def snapshot_new_def Let_def)

text \<open>With caps as the constructors build them, admission fails only when the identifiers run out.\<close>

lemma admit_cases:
  assumes "config_ok (ac_config a)"
  obtains (limit) a' where "admit spec a = Inr (Inl RunLimit, a')" "unat (ac_next_id a) = 2 ^ 64 - 1"
      "a' = snd (actor_snapshot a)"
  | (in_memory) next_id where "sort_planner_plan spec (fst (actor_snapshot a)) (ac_config a) = Inr InMemory"
      "unat next_id = unat (ac_next_id a) + 1"
      "admit spec a = Inr (Inr (lease_in_memory InMemory (join (ac_root a) (sort_name (ac_namespace a) (ac_next_id a)))),
         (snd (actor_snapshot a))\<lparr>ac_next_id := next_id, ac_in_memory_count := ac_in_memory_count a + 1\<rparr>)"
  | (external) next_id buffer fan where
      "sort_planner_plan spec (fst (actor_snapshot a)) (ac_config a) = Inr (External buffer fan)"
      "unat next_id = unat (ac_next_id a) + 1"
      "admit spec a = Inr (Inr (lease_external (External buffer fan)
           (join (ac_root a) (sort_name (ac_namespace a) (ac_next_id a)))),
         (snd (actor_snapshot a))\<lparr>ac_next_id := next_id, ac_external_count := ac_external_count a + 1,
            ac_active := ac_active a + 1\<rparr>)"
proof -
  obtain plan where plan: "sort_planner_plan spec (fst (actor_snapshot a)) (ac_config a) = Inr plan"
    using plan_total [OF assms] by blast
  show thesis
  proof (cases "checked_add (ac_next_id a) 1")
    case None
    then have "unat (ac_next_id a) = 2 ^ 64 - 1"
      using unat_u64 [of "ac_next_id a"] by (simp add: word_facts)
    then show thesis using limit None plan by (simp add: admit_def case_prod_beta)
  next
    case (Some n)
    then have "unat n = unat (ac_next_id a) + 1" by (simp add: word_facts)
    then show thesis
      using in_memory external Some plan
      by (cases plan) (simp_all add: admit_def case_prod_beta Let_def)
  qed
qed

end
