(* ===== verification/Governor.thy ===== *)
theory Governor
  imports Service "HOL-Library.Multiset"
begin

text \<open>
  The governor and its clients (src/service/handle.rs, src/service/actor.rs): the bounded
  command channel, the turns of the actor, the oneshot replies, callers that give up, and the
  leases handed out, as operations on one state and a step relation over them. The invariant
  and the properties of its reachable states follow.
\<close>

section \<open>State\<close>

text \<open>A command carries the number of the call that waits for its reply.\<close>

datatype command = Submit sort_spec nat | Stats nat

datatype reply = Leased "error + nat" | Counters sorter_stats

datatype call_state = Awaiting | Answered reply | Closed

text \<open>A lease is known by its place in \<open>gv_leases\<close>; a dropped one leaves \<open>None\<close>.\<close>

record governor =
  gv_actor :: sorter_actor
  gv_running :: bool
  gv_handles :: nat
  gv_queue :: "command list"
  gv_calls :: "call_state list"
  gv_leases :: "sort_lease option list"

definition command_channel_capacity :: nat where
  "command_channel_capacity = 256"

definition handle_spawn :: "sorter_config \<Rightarrow> u32 \<Rightarrow> pressure \<Rightarrow> path \<Rightarrow> string \<Rightarrow> fault + governor" where
  "handle_spawn config fd_budget p root namespace =
     (if fd_budget = 0 then Inl (Panic ''sort descriptor budget must be positive'')
      else Inr \<lparr>gv_actor = actor_new config fd_budget p root namespace, gv_running = True,
        gv_handles = 1, gv_queue = [], gv_calls = [], gv_leases = []\<rparr>)"

section \<open>Operations\<close>

text \<open>
  The first half of \<open>submit\<close> and \<open>stats\<close>: \<open>None\<close> while the channel is full, \<open>Gone\<close> when the
  actor is, else the number of the call.
\<close>

definition send_command :: "(nat \<Rightarrow> command) \<Rightarrow> governor \<Rightarrow> (error + nat \<times> governor) option" where
  "send_command mk g =
     (if \<not> gv_running g then Some (Inl Gone)
      else if length (gv_queue g) < command_channel_capacity
      then Some (Inr (length (gv_calls g),
             g\<lparr>gv_queue := gv_queue g @ [mk (length (gv_calls g))], gv_calls := gv_calls g @ [Awaiting]\<rparr>))
      else None)"

text \<open>The second half: waiting for the reply.\<close>

definition take_reply :: "nat \<Rightarrow> governor \<Rightarrow> ((error + reply) \<times> governor) option" where
  "take_reply t g =
     (case gv_calls g ! t of
        Answered r \<Rightarrow> Some (Inr r, g\<lparr>gv_calls := (gv_calls g)[t := Closed]\<rparr>)
      | Awaiting \<Rightarrow>
          if gv_running g then None else Some (Inl Gone, g\<lparr>gv_calls := (gv_calls g)[t := Closed]\<rparr>)
      | Closed \<Rightarrow> None)"

definition set_active :: "u32 \<Rightarrow> governor \<Rightarrow> governor" where
  "set_active n g = g\<lparr>gv_actor := (gv_actor g)\<lparr>ac_active := n\<rparr>\<rparr>"

definition lease_drop :: "nat \<Rightarrow> governor \<Rightarrow> governor" where
  "lease_drop i g =
     (case gv_leases g ! i of
        None \<Rightarrow> g
      | Some l \<Rightarrow> set_active (active_guard_drop l (ac_active (gv_actor g)))
                   (g\<lparr>gv_leases := (gv_leases g)[i := None]\<rparr>))"

text \<open>A caller that goes away drops its end of the reply, and a lease that is already there.\<close>

definition give_up :: "nat \<Rightarrow> governor \<Rightarrow> governor" where
  "give_up t g =
     (let g1 = g\<lparr>gv_calls := (gv_calls g)[t := Closed]\<rparr>
      in case gv_calls g ! t of
           Answered (Leased (Inr i)) \<Rightarrow> lease_drop i g1
         | _ \<Rightarrow> g1)"

text \<open>Sending a reply to a caller that is gone drops what was sent.\<close>

definition send_lease :: "nat \<Rightarrow> error + sort_lease \<Rightarrow> governor \<Rightarrow> governor" where
  "send_lease t r g =
     (case r of
        Inl e \<Rightarrow>
          if gv_calls g ! t = Awaiting then g\<lparr>gv_calls := (gv_calls g)[t := Answered (Leased (Inl e))]\<rparr> else g
      | Inr l \<Rightarrow>
          if gv_calls g ! t = Awaiting
          then g\<lparr>gv_leases := gv_leases g @ [Some l],
                 gv_calls := (gv_calls g)[t := Answered (Leased (Inr (length (gv_leases g))))]\<rparr>
          else set_active (active_guard_drop l (ac_active (gv_actor g))) g)"

definition send_stats :: "nat \<Rightarrow> sorter_stats \<Rightarrow> governor \<Rightarrow> governor" where
  "send_stats t st g =
     (if gv_calls g ! t = Awaiting then g\<lparr>gv_calls := (gv_calls g)[t := Answered (Counters st)]\<rparr> else g)"

text \<open>One turn of the actor: \<open>None\<close> while it waits for a command.\<close>

definition actor_turn :: "governor \<Rightarrow> governor option" where
  "actor_turn g =
     (case gv_queue g of
        [] \<Rightarrow> if gv_handles g = 0 then Some (g\<lparr>gv_running := False\<rparr>) else None
      | Submit spec t # q \<Rightarrow>
          (case admit spec (gv_actor g) of
             Inl e \<Rightarrow> Some (g\<lparr>gv_running := False, gv_queue := []\<rparr>)
           | Inr (r, a) \<Rightarrow> Some (send_lease t r (g\<lparr>gv_queue := q, gv_actor := a\<rparr>)))
      | Stats t # q \<Rightarrow>
          (case actor_stats (gv_actor g) of
             (st, a) \<Rightarrow> Some (send_stats t st (g\<lparr>gv_queue := q, gv_actor := a\<rparr>))))"

text \<open>What \<open>replay_writer\<close> submits.\<close>

definition replay_spec :: sort_spec where
  "replay_spec = labelled (sort_spec_new 0 0) ''replay''"

section \<open>Steps\<close>

text \<open>
  \<open>share\<close> is what the running sorts do to the descriptors and the memory. A call borrows the
  handle it is made on, so the last handle is not dropped while a call is open. \<open>stop\<close> is the
  end of the runtime the actor was spawned on.
\<close>

inductive governor_step :: "governor \<Rightarrow> governor \<Rightarrow> bool" where
  submit: "0 < gv_handles g \<Longrightarrow> send_command (Submit spec) g = Some (Inr (t, g')) \<Longrightarrow> governor_step g g'"
| stats: "0 < gv_handles g \<Longrightarrow> send_command Stats g = Some (Inr (t, g')) \<Longrightarrow> governor_step g g'"
| turn: "gv_running g \<Longrightarrow> actor_turn g = Some g' \<Longrightarrow> governor_step g g'"
| reply: "t < length (gv_calls g) \<Longrightarrow> take_reply t g = Some (r, g') \<Longrightarrow> governor_step g g'"
| give_up: "t < length (gv_calls g) \<Longrightarrow> governor_step g (give_up t g)"
| lease_drop: "i < length (gv_leases g) \<Longrightarrow> Answered (Leased (Inr i)) \<notin> set (gv_calls g) \<Longrightarrow>
    governor_step g (lease_drop i g)"
| clone_handle: "0 < gv_handles g \<Longrightarrow> governor_step g (g\<lparr>gv_handles := gv_handles g + 1\<rparr>)"
| drop_handle: "1 < gv_handles g \<or> gv_handles g = 1 \<and> set (gv_calls g) \<subseteq> {Closed} \<Longrightarrow>
    governor_step g (g\<lparr>gv_handles := gv_handles g - 1\<rparr>)"
| share: "p \<le> unat (ac_fd_total (gv_actor g)) \<Longrightarrow> budget_cap m = budget_cap (ac_memory (gv_actor g)) \<Longrightarrow>
    governor_step g (g\<lparr>gv_actor := (gv_actor g)\<lparr>ac_permits := p, ac_memory := m\<rparr>\<rparr>)"
| stop: "governor_step g (g\<lparr>gv_running := False, gv_queue := []\<rparr>)"

inductive governor_run :: "sorter_config \<Rightarrow> governor \<Rightarrow> bool" for config where
  start: "handle_spawn config fd_budget p root namespace = Inr g \<Longrightarrow> governor_run config g"
| step: "governor_run config g \<Longrightarrow> governor_step g g' \<Longrightarrow> governor_run config g'"

section \<open>The invariant\<close>

definition lease_ok :: "sorter_actor \<Rightarrow> sort_lease \<Rightarrow> bool" where
  "lease_ok a l \<longleftrightarrow>
     (\<exists>n < ac_next_id a. sl_dir l = join (ac_root a) (sort_name (ac_namespace a) n))
     \<and> (case sl_plan l of
          InMemory \<Rightarrow> \<not> sl_active l
        | External buffer fan \<Rightarrow>
            sl_active l \<and> 2 \<le> fan \<and> fan \<le> max_fan_in (ac_config a)
            \<and> min_run_buffer_bytes (ac_config a) \<le> buffer \<and> buffer \<le> max_run_buffer_bytes (ac_config a))"

primrec lives :: "sort_lease option list \<Rightarrow> sort_lease list" where
  "lives [] = []"
| "lives (x # xs) = (case x of None \<Rightarrow> lives xs | Some l \<Rightarrow> l # lives xs)"

definition actor_ok :: "sorter_config \<Rightarrow> sort_lease list \<Rightarrow> sorter_actor \<Rightarrow> bool" where
  "actor_ok config live a \<longleftrightarrow>
     ac_config a = config
     \<and> ac_active a = of_nat (length (filter sl_active live))
     \<and> unat (ac_in_memory_count a) + unat (ac_external_count a) = unat (ac_next_id a)
     \<and> ac_permits a \<le> unat (ac_fd_total a)
     \<and> (\<forall>l \<in> set live. lease_ok a l)
     \<and> distinct (map sl_dir live)"

primrec ticket :: "command \<Rightarrow> nat" where
  "ticket (Submit spec t) = t"
| "ticket (Stats t) = t"

definition channel_ok :: "governor \<Rightarrow> bool" where
  "channel_ok g \<longleftrightarrow>
     length (gv_queue g) \<le> command_channel_capacity
     \<and> distinct (map ticket (gv_queue g))
     \<and> (\<forall>c \<in> set (gv_queue g). ticket c < length (gv_calls g))
     \<and> (gv_running g \<longrightarrow> (\<forall>t < length (gv_calls g). gv_calls g ! t = Awaiting \<longrightarrow> t \<in> ticket ` set (gv_queue g)))
     \<and> (gv_queue g \<noteq> [] \<longrightarrow> gv_running g)"

text \<open>A lease in a reply is live and is in no other reply.\<close>

definition granted :: "governor \<Rightarrow> nat \<Rightarrow> error + nat \<Rightarrow> bool" where
  "granted g t r \<longleftrightarrow> t < length (gv_calls g) \<and> gv_calls g ! t = Answered (Leased r)"

definition replies_ok :: "governor \<Rightarrow> bool" where
  "replies_ok g \<longleftrightarrow>
     (\<forall>t i. granted g t (Inr i) \<longrightarrow> i < length (gv_leases g) \<and> gv_leases g ! i \<noteq> None)
     \<and> (\<forall>t u i. granted g t (Inr i) \<longrightarrow> granted g u (Inr i) \<longrightarrow> u = t)
     \<and> (\<forall>t e. granted g t (Inl e) \<longrightarrow> e = RunLimit)"

definition governor_ok :: "sorter_config \<Rightarrow> governor \<Rightarrow> bool" where
  "governor_ok config g \<longleftrightarrow> actor_ok config (lives (gv_leases g)) (gv_actor g) \<and> channel_ok g \<and> replies_ok g"

lemma sort_name_inj [simp]: "sort_name ns m = sort_name ns n \<longleftrightarrow> m = n"
  by (simp add: sort_name_def word_unat_eq_iff)

text \<open>Only the configuration, the paths and the identifiers of the actor matter to a lease.\<close>

lemma lease_ok_mono:
  "lease_ok a l \<Longrightarrow> unat (ac_next_id a) \<le> unat (ac_next_id a') \<Longrightarrow> ac_root a' = ac_root a \<Longrightarrow>
     ac_namespace a' = ac_namespace a \<Longrightarrow> ac_config a' = ac_config a \<Longrightarrow> lease_ok a' l"
  unfolding lease_ok_def by (auto simp: word_less_nat_alt split: sort_plan.splits)

lemma lease_ok_actor [simp]:
  "lease_ok (a\<lparr>ac_active := n\<rparr>) l = lease_ok a l" "lease_ok (a\<lparr>ac_permits := p\<rparr>) l = lease_ok a l"
  "lease_ok (a\<lparr>ac_memory := m\<rparr>) l = lease_ok a l" "lease_ok (snd (actor_snapshot a)) l = lease_ok a l"
  by (auto elim!: lease_ok_mono)

lemma lives_append [simp]: "lives (xs @ ys) = lives xs @ lives ys"
  by (induction xs) (auto split: option.splits)

lemma lives_drop:
  "i < length xs \<Longrightarrow> xs ! i = Some l \<Longrightarrow> mset (lives xs) = add_mset l (mset (lives (xs[i := None])))"
proof (induction xs arbitrary: i)
  case (Cons x xs)
  then show ?case by (cases i) (auto split: option.splits)
qed simp

text \<open>Dropping a live lease.\<close>

lemma drop_live_ok:
  assumes ok: "actor_ok config live a" and live: "mset live = add_mset l (mset live')"
  shows "actor_ok config live' (a\<lparr>ac_active := active_guard_drop l (ac_active a)\<rparr>)"
proof -
  have "size (filter_mset sl_active (mset live)) = size (filter_mset sl_active (mset live')) + (if sl_active l then 1 else 0)"
    using live by simp
  then have "length (filter sl_active live) = length (filter sl_active live') + (if sl_active l then 1 else 0)"
    by (simp flip: mset_filter)
  then have count: "active_guard_drop l (ac_active a) = of_nat (length (filter sl_active live'))"
    using ok by (simp add: actor_ok_def active_guard_drop_def)
  have "distinct (map sl_dir live) \<longleftrightarrow> distinct (map sl_dir (l # live'))"
    by (rule mset_eq_imp_distinct_iff) (simp add: live)
  moreover have "set live = insert l (set live')"
    using arg_cong [OF live, of set_mset] by simp
  ultimately show ?thesis
    using ok count by (simp add: actor_ok_def)
qed

text \<open>A new lease under the next identifier.\<close>

lemma new_live_ok:
  assumes ok: "actor_ok config live a" and next_id: "unat next_id = unat (ac_next_id a) + 1"
    and l: "sl_dir l = join (ac_root a) (sort_name (ac_namespace a) (ac_next_id a))"
    and a': "ac_next_id a' = next_id" "ac_root a' = ac_root a" "ac_namespace a' = ac_namespace a"
      "ac_config a' = ac_config a" "ac_permits a' = ac_permits a" "ac_fd_total a' = ac_fd_total a"
    and counts: "unat (ac_in_memory_count a') + unat (ac_external_count a') = unat next_id"
      "ac_active a' = ac_active a + (if sl_active l then 1 else 0)"
    and shape: "lease_ok a' l"
  shows "actor_ok config (live @ [l]) a'"
proof -
  have old: "lease_ok a' k" if "k \<in> set live" for k
  proof -
    have "lease_ok a k" using ok that by (simp add: actor_ok_def)
    then show ?thesis by (rule lease_ok_mono) (simp_all add: a' next_id)
  qed
  have "sl_dir l \<noteq> sl_dir k" if "k \<in> set live" for k
  proof -
    have "lease_ok a k" using ok that by (simp add: actor_ok_def)
    then obtain n where "n < ac_next_id a" "sl_dir k = join (ac_root a) (sort_name (ac_namespace a) n)"
      by (auto simp: lease_ok_def)
    then show ?thesis using l by simp
  qed
  then have "sl_dir l \<notin> sl_dir ` set live" by blast
  moreover have "\<forall>k \<in> set (live @ [l]). lease_ok a' k" using old shape by auto
  ultimately show ?thesis
    using ok a' counts by (simp add: actor_ok_def)
qed

text \<open>One admission.\<close>

lemma admit_ok:
  assumes ok: "actor_ok config live a" and config: "config_ok config"
  obtains r a' where "admit spec a = Inr (r, a')"
    and "case r of Inl e \<Rightarrow> e = RunLimit \<and> actor_ok config live a' | Inr l \<Rightarrow> actor_ok config (live @ [l]) a'"
proof -
  let ?s = "snd (actor_snapshot a)"
  have snap: "actor_ok config live ?s"
    using ok by (simp add: actor_ok_def)
  have cfg: "config_ok (ac_config a)" using ok config by (simp add: actor_ok_def)
  have total: "unat (ac_in_memory_count a) + unat (ac_external_count a) = unat (ac_next_id a)"
    using ok by (simp add: actor_ok_def)
  show thesis
    using cfg
  proof (cases rule: admit_cases [where spec = spec])
    case (limit a')
    then show thesis using that snap by simp
  next
    case (in_memory next_id)
    have "unat (ac_in_memory_count a + 1) = unat (ac_in_memory_count a) + 1"
      using total in_memory(2) unat_u64 [of next_id] by (simp add: unat_word_ariths)
    then have "actor_ok config (live @ [lease_in_memory InMemory (join (ac_root a) (sort_name (ac_namespace a) (ac_next_id a)))])
        (?s\<lparr>ac_next_id := next_id, ac_in_memory_count := ac_in_memory_count a + 1\<rparr>)"
      using total in_memory(2)
      by (intro new_live_ok [OF snap, where next_id = next_id])
        (auto simp: lease_in_memory_def lease_ok_def word_less_nat_alt)
    then show thesis using that in_memory(3) by simp
  next
    case (external next_id buffer fan)
    have "unat (ac_external_count a + 1) = unat (ac_external_count a) + 1"
      using total external(2) unat_u64 [of next_id] by (simp add: unat_word_ariths)
    moreover have "2 \<le> fan \<and> fan \<le> max_fan_in (ac_config a) \<and> min_run_buffer_bytes (ac_config a) \<le> buffer
        \<and> buffer \<le> max_run_buffer_bytes (ac_config a)"
      using plan_within [OF cfg, of spec "fst (actor_snapshot a)"] external(1) by simp
    ultimately have "actor_ok config (live @ [lease_external (External buffer fan)
          (join (ac_root a) (sort_name (ac_namespace a) (ac_next_id a)))])
        (?s\<lparr>ac_next_id := next_id, ac_external_count := ac_external_count a + 1, ac_active := ac_active a + 1\<rparr>)"
      using total external(2)
      by (intro new_live_ok [OF snap, where next_id = next_id])
        (auto simp: lease_external_def lease_ok_def word_less_nat_alt)
    then show thesis using that external(3) by simp
  qed
qed

section \<open>Every step keeps the invariant\<close>

lemma spawn_ok:
  "handle_spawn config fd_budget p root namespace = Inr g \<Longrightarrow> governor_ok config g"
  by (auto simp: handle_spawn_def governor_ok_def actor_ok_def actor_new_def channel_ok_def replies_ok_def
      granted_def split: if_splits)

lemma granted_simps [simp]:
  "granted (g\<lparr>gv_queue := q\<rparr>) = granted g" "granted (g\<lparr>gv_actor := a\<rparr>) = granted g"
  "granted (g\<lparr>gv_running := b\<rparr>) = granted g" "granted (g\<lparr>gv_handles := h\<rparr>) = granted g"
  "granted (g\<lparr>gv_leases := ls\<rparr>) = granted g" "granted (set_active n g) = granted g"
  by (simp_all add: granted_def fun_eq_iff set_active_def)

lemma granted_update:
  "granted (g\<lparr>gv_calls := (gv_calls g)[t := c]\<rparr>) u r \<longleftrightarrow>
     (if u = t then t < length (gv_calls g) \<and> c = Answered (Leased r) else granted g u r)"
  by (auto simp: granted_def)

lemma send_command_ok:
  assumes ok: "governor_ok config g" and sent: "send_command mk g = Some (Inr (t, g'))"
    and mk: "\<And>t. ticket (mk t) = t"
  shows "governor_ok config g'"
proof -
  have g': "g' = g\<lparr>gv_queue := gv_queue g @ [mk (length (gv_calls g))], gv_calls := gv_calls g @ [Awaiting]\<rparr>"
    and run: "gv_running g" "length (gv_queue g) < command_channel_capacity"
    using sent by (auto simp: send_command_def split: if_splits)
  have c: "channel_ok g'"
    using ok run unfolding g'
    by (auto simp: governor_ok_def channel_ok_def mk nth_append less_Suc_eq dest: order.strict_implies_not_eq)
  have "granted g' = granted g"
    by (auto simp: fun_eq_iff granted_def g' nth_append less_Suc_eq)
  then show ?thesis using ok c by (simp add: governor_ok_def replies_ok_def g')
qed

text \<open>Answering or closing one call.\<close>

lemma settle_call_ok:
  assumes ok: "channel_ok g" and c: "c \<noteq> Awaiting"
  shows "channel_ok (g\<lparr>gv_calls := (gv_calls g)[t := c]\<rparr>)"
  using ok c by (cases "t < length (gv_calls g)") (auto simp: channel_ok_def nth_list_update split: if_splits)

lemma settle_replies_ok:
  "replies_ok g \<Longrightarrow> c \<in> {Closed, Answered (Leased (Inl RunLimit)), Answered (Counters st)} \<Longrightarrow>
     replies_ok (g\<lparr>gv_calls := (gv_calls g)[t := c]\<rparr>)"
  by (auto simp: replies_ok_def granted_update)

lemma lease_drop_ok:
  assumes ok: "governor_ok config g" and i: "i < length (gv_leases g)" "\<And>t. \<not> granted g t (Inr i)"
  shows "governor_ok config (lease_drop i g)"
proof (cases "gv_leases g ! i")
  case None
  then show ?thesis using ok by (simp add: lease_drop_def)
next
  case (Some l)
  have "actor_ok config (lives ((gv_leases g)[i := None])) ((gv_actor g)\<lparr>ac_active := active_guard_drop l (ac_active (gv_actor g))\<rparr>)"
    using ok by (intro drop_live_ok [OF _ lives_drop [OF i(1) Some]]) (simp add: governor_ok_def)
  moreover have "replies_ok (g\<lparr>gv_leases := (gv_leases g)[i := None]\<rparr>)"
    using ok i by (auto simp: governor_ok_def replies_ok_def nth_list_update)
  ultimately show ?thesis
    using ok Some by (simp add: lease_drop_def set_active_def governor_ok_def channel_ok_def replies_ok_def granted_def)
qed

lemma give_up_ok:
  assumes ok: "governor_ok config g" and t: "t < length (gv_calls g)"
  shows "governor_ok config (give_up t g)"
proof -
  let ?g = "g\<lparr>gv_calls := (gv_calls g)[t := Closed]\<rparr>"
  have g: "governor_ok config ?g"
    using ok by (simp add: governor_ok_def settle_call_ok settle_replies_ok)
  have "governor_ok config (lease_drop i ?g)" if "granted g t (Inr i)" for i
  proof (rule lease_drop_ok [OF g])
    show "i < length (gv_leases ?g)" using ok that by (simp add: governor_ok_def replies_ok_def)
    show "\<not> granted ?g u (Inr i)" for u
      using ok that by (auto simp: governor_ok_def replies_ok_def granted_update)
  qed
  then show ?thesis
    using g t by (auto simp: give_up_def Let_def granted_def split: call_state.split reply.split sum.split)
qed

lemma take_reply_ok:
  "governor_ok config g \<Longrightarrow> take_reply t g = Some (r, g') \<Longrightarrow> governor_ok config g'"
  by (auto simp: take_reply_def governor_ok_def settle_call_ok settle_replies_ok split: call_state.splits if_splits)

text \<open>The command at the head of the queue is answered, or nobody waits for its reply.\<close>

lemma pop_ok:
  assumes "channel_ok g" "gv_queue g = c # q" "gv_calls g ! ticket c \<noteq> Awaiting"
  shows "channel_ok (g\<lparr>gv_queue := q\<rparr>)"
  using assms by (auto simp: channel_ok_def)

lemma pop_settle_ok:
  assumes ok: "channel_ok g" "gv_queue g = x # q" and c: "c \<noteq> Awaiting"
  shows "channel_ok (g\<lparr>gv_queue := q, gv_calls := (gv_calls g)[ticket x := c]\<rparr>)"
proof -
  have "ticket x < length (gv_calls g)" using ok by (simp add: channel_ok_def)
  then have "channel_ok (g\<lparr>gv_calls := (gv_calls g)[ticket x := c], gv_queue := q\<rparr>)"
    using c ok by (intro pop_ok [where c = x] settle_call_ok) simp_all
  then show ?thesis by (cases g) simp
qed

lemma channel_actor [simp]:
  "channel_ok (g\<lparr>gv_actor := a\<rparr>) = channel_ok g" "channel_ok (g\<lparr>gv_leases := ls\<rparr>) = channel_ok g"
  by (simp_all add: channel_ok_def)

lemma replies_actor [simp]:
  "replies_ok (g\<lparr>gv_actor := a\<rparr>) = replies_ok g" "replies_ok (g\<lparr>gv_queue := q\<rparr>) = replies_ok g"
  "replies_ok (g\<lparr>gv_running := b\<rparr>) = replies_ok g" "replies_ok (g\<lparr>gv_handles := h\<rparr>) = replies_ok g"
  by (simp_all add: replies_ok_def)

lemma send_lease_ok:
  assumes ok: "channel_ok g" "replies_ok g" and q: "gv_queue g = Submit spec t # q"
    and a: "case r of Inl e \<Rightarrow> e = RunLimit \<and> actor_ok config (lives (gv_leases g)) a
      | Inr l \<Rightarrow> actor_ok config (lives (gv_leases g) @ [l]) a"
  shows "governor_ok config (send_lease t r (g\<lparr>gv_queue := q, gv_actor := a\<rparr>))"
proof (cases "gv_calls g ! t = Awaiting")
  case False
  have pop: "channel_ok (g\<lparr>gv_queue := q\<rparr>)"
    using pop_ok [OF ok(1) q] False by simp
  have "actor_ok config (lives (gv_leases g)) (a\<lparr>ac_active := active_guard_drop l (ac_active a)\<rparr>)" if "r = Inr l" for l
    using a that by (intro drop_live_ok [where live = "lives (gv_leases g) @ [l]"]) simp_all
  then show ?thesis
    using pop ok a False by (auto simp: send_lease_def set_active_def governor_ok_def split: sum.splits)
next
  case True
  have pop: "channel_ok (g\<lparr>gv_queue := q, gv_calls := (gv_calls g)[t := Answered x]\<rparr>)" for x
    using pop_settle_ok [OF ok(1) q, of "Answered x"] by simp
  show ?thesis
  proof (cases r)
    case (Inl e)
    then show ?thesis
      using pop a True settle_replies_ok [of "g\<lparr>gv_queue := q, gv_actor := a\<rparr>" "Answered (Leased (Inl e))"] ok(2)
      by (simp add: send_lease_def governor_ok_def channel_ok_def)
  next
    case (Inr l)
    let ?g = "g\<lparr>gv_queue := q, gv_actor := a, gv_leases := gv_leases g @ [Some l],
        gv_calls := (gv_calls g)[t := Answered (Leased (Inr (length (gv_leases g))))]\<rparr>"
    have "granted ?g u x \<longleftrightarrow> (if u = t then t < length (gv_calls g) \<and> x = Inr (length (gv_leases g)) else granted g u x)" for u x
      by (cases "u = t") (auto simp: granted_def)
    then have "replies_ok ?g"
      using ok(2) by (fastforce simp: replies_ok_def nth_append)
    then show ?thesis
      using pop a True Inr by (simp add: send_lease_def governor_ok_def channel_ok_def)
  qed
qed

lemma actor_memory_ok [simp]: "actor_ok config live (a\<lparr>ac_memory := m\<rparr>) = actor_ok config live a"
  by (simp add: actor_ok_def)

lemma actor_stats_state: "snd (actor_stats a) = a\<lparr>ac_memory := snd (budget_limit (ac_memory a))\<rparr>"
  by (cases "budget_limit (ac_memory a)") (simp add: actor_stats_def)

lemma actor_stats_ok [simp]: "actor_ok config live (snd (actor_stats a)) = actor_ok config live a"
  by (simp add: actor_stats_state)

lemma channel_order [simp]:
  "channel_ok (g\<lparr>gv_queue := q, gv_actor := a, gv_calls := cs\<rparr>) = channel_ok (g\<lparr>gv_queue := q, gv_calls := cs\<rparr>)"
  "channel_ok (g\<lparr>gv_queue := q, gv_actor := a, gv_leases := ls, gv_calls := cs\<rparr>) = channel_ok (g\<lparr>gv_queue := q, gv_calls := cs\<rparr>)"
  by (simp_all add: channel_ok_def)

lemma send_stats_ok:
  assumes ok: "governor_ok config g" and q: "gv_queue g = Stats t # q"
    and a: "actor_ok config (lives (gv_leases g)) a"
  shows "governor_ok config (send_stats t st (g\<lparr>gv_queue := q, gv_actor := a\<rparr>))"
proof (cases "gv_calls g ! t = Awaiting")
  case False
  then have "channel_ok (g\<lparr>gv_queue := q\<rparr>)"
    using pop_ok [OF _ q] ok by (simp add: governor_ok_def)
  then show ?thesis using ok a False by (simp add: send_stats_def governor_ok_def)
next
  case True
  have "channel_ok (g\<lparr>gv_queue := q, gv_calls := (gv_calls g)[t := Answered (Counters st)]\<rparr>)"
    using pop_settle_ok [OF _ q, of "Answered (Counters st)"] ok by (simp add: governor_ok_def)
  then show ?thesis
    using settle_replies_ok [of "g\<lparr>gv_queue := q, gv_actor := a\<rparr>" "Answered (Counters st)"] ok a True
    by (simp add: send_stats_def governor_ok_def)
qed

lemma actor_turn_ok:
  assumes ok: "governor_ok config g" and config: "config_ok config"
    and turn: "actor_turn g = Some g'"
  shows "governor_ok config g'"
proof (cases "gv_queue g")
  case Nil
  then show ?thesis
    using ok turn by (auto simp: actor_turn_def governor_ok_def channel_ok_def split: if_splits)
next
  case (Cons c q)
  show ?thesis
  proof (cases c)
    case (Submit spec t)
    obtain r a where admit: "admit spec (gv_actor g) = Inr (r, a)"
      and a: "case r of Inl e \<Rightarrow> e = RunLimit \<and> actor_ok config (lives (gv_leases g)) a
        | Inr l \<Rightarrow> actor_ok config (lives (gv_leases g) @ [l]) a"
      using admit_ok [of config _ "gv_actor g" spec] ok config unfolding governor_ok_def by blast
    have "governor_ok config (send_lease t r (g\<lparr>gv_queue := q, gv_actor := a\<rparr>))"
      by (rule send_lease_ok) (use ok Cons Submit a in \<open>simp_all add: governor_ok_def\<close>)
    then show ?thesis using turn Cons Submit admit by (simp add: actor_turn_def)
  next
    case (Stats t)
    have "governor_ok config (send_stats t st (g\<lparr>gv_queue := q, gv_actor := snd (actor_stats (gv_actor g))\<rparr>))" for st
      by (rule send_stats_ok [OF ok]) (use ok Cons Stats in \<open>simp_all add: governor_ok_def\<close>)
    then show ?thesis
      using turn Cons Stats by (auto simp: actor_turn_def case_prod_beta)
  qed
qed

lemma governor_step_ok:
  assumes "governor_step g g'" and ok: "governor_ok config g" and config: "config_ok config"
  shows "governor_ok config g'"
  using assms(1)
proof cases
  case (submit spec t)
  show ?thesis by (rule send_command_ok [OF ok submit(2)]) simp
next
  case (stats t)
  show ?thesis by (rule send_command_ok [OF ok stats(2)]) simp
next
  case turn
  then show ?thesis using actor_turn_ok [OF ok config] by simp
next
  case (reply t r)
  then show ?thesis using take_reply_ok [OF ok] by simp
next
  case (give_up t)
  then show ?thesis using give_up_ok [OF ok] by simp
next
  case (lease_drop i)
  have "\<not> granted g t (Inr i)" for t
    using lease_drop(3) by (force simp: granted_def in_set_conv_nth)
  then show ?thesis using lease_drop_ok [OF ok] lease_drop by simp
next
  case (share p m)
  then show ?thesis
    using ok by (simp add: governor_ok_def actor_ok_def)
qed (use ok in \<open>auto simp: governor_ok_def channel_ok_def\<close>)

lemma governor_run_ok: "governor_run config g \<Longrightarrow> config_ok config \<Longrightarrow> governor_ok config g"
  by (induction rule: governor_run.induct) (auto intro: spawn_ok governor_step_ok)

section \<open>Waiting in the queue\<close>

text \<open>How many commands are ahead of a call's.\<close>

primrec position :: "nat \<Rightarrow> command list \<Rightarrow> nat" where
  "position t [] = 0"
| "position t (c # q) = (if ticket c = t then 0 else Suc (position t q))"

lemma position_append: "t \<in> ticket ` set q \<Longrightarrow> position t (q @ r) = position t q"
  by (induction q) auto

lemma position_less: "t \<in> ticket ` set q \<Longrightarrow> position t q < length q"
  by (induction q) auto

text \<open>A run with at least \<open>n\<close> turns of the actor among its steps.\<close>

inductive governor_turns :: "nat \<Rightarrow> governor \<Rightarrow> governor \<Rightarrow> bool" where
  none: "governor_turns 0 g g"
| turn: "governor_turns n g g' \<Longrightarrow> gv_running g' \<Longrightarrow> actor_turn g' = Some g'' \<Longrightarrow> governor_turns (Suc n) g g''"
| other: "governor_turns n g g' \<Longrightarrow> governor_step g' g'' \<Longrightarrow> governor_turns n g g''"

lemma turns_run: "governor_turns n g g' \<Longrightarrow> governor_run config g \<Longrightarrow> governor_run config g'"
  by (induction rule: governor_turns.induct)
    (auto intro: governor_run.step governor_step.turn)

lemma calls_after [simp]:
  "gv_calls (lease_drop i g) = gv_calls g" "gv_queue (lease_drop i g) = gv_queue g"
  "gv_queue (give_up u g) = gv_queue g"
  "gv_calls (give_up u g) = (gv_calls g)[u := Closed]"
  by (auto simp: lease_drop_def set_active_def give_up_def Let_def
      split: option.split call_state.split reply.split sum.split)

lemma calls_after_send [simp]:
  "gv_running (send_lease u r g) = gv_running g" "gv_running (send_stats u st g) = gv_running g"
  "gv_queue (send_lease u r g) = gv_queue g" "gv_queue (send_stats u st g) = gv_queue g"
  "length (gv_calls (send_lease u r g)) = length (gv_calls g)"
  "length (gv_calls (send_stats u st g)) = length (gv_calls g)"
  "t < length (gv_calls g) \<Longrightarrow> gv_calls (send_lease u r g) ! t = Awaiting \<longleftrightarrow> t \<noteq> u \<and> gv_calls g ! t = Awaiting"
  "t < length (gv_calls g) \<Longrightarrow> gv_calls (send_stats u st g) ! t = Awaiting \<longleftrightarrow> t \<noteq> u \<and> gv_calls g ! t = Awaiting"
  by (cases "t = u"; auto simp: send_lease_def send_stats_def set_active_def split: sum.split)+

text \<open>A turn answers the call at the head and moves the others one place up.\<close>

lemma turn_serves:
  assumes ok: "governor_ok config g" and config: "config_ok config"
    and turn: "gv_running g" "actor_turn g = Some g'" and t: "t < length (gv_calls g)"
  shows "length (gv_calls g') = length (gv_calls g)
    \<and> (gv_calls g' ! t = Awaiting \<longrightarrow> gv_calls g ! t = Awaiting \<and> position t (gv_queue g') < position t (gv_queue g))"
proof (cases "gv_queue g")
  case Nil
  then show ?thesis
    using turn ok t by (auto simp: actor_turn_def governor_ok_def channel_ok_def split: if_splits)
next
  case (Cons c q)
  show ?thesis
  proof (cases c)
    case (Submit spec u)
    obtain r a where "admit spec (gv_actor g) = Inr (r, a)"
      using admit_ok [of config _ "gv_actor g" spec] ok config unfolding governor_ok_def by blast
    then show ?thesis using turn Cons Submit t by (auto simp: actor_turn_def)
  next
    case (Stats u)
    then show ?thesis using turn Cons t by (auto simp: actor_turn_def case_prod_beta)
  qed
qed

lemma turn_runs:
  assumes ok: "governor_ok config g" and config: "config_ok config" and "gv_running g"
  shows "actor_turn g = Some g' \<and> 0 < gv_handles g \<longrightarrow> gv_running g'"
proof (cases "gv_queue g")
  case Nil
  then show ?thesis by (simp add: actor_turn_def)
next
  case (Cons c q)
  show ?thesis
  proof (cases c)
    case (Submit spec u)
    obtain r a where "admit spec (gv_actor g) = Inr (r, a)"
      using admit_ok [of config _ "gv_actor g" spec] ok config unfolding governor_ok_def by blast
    then show ?thesis using assms(3) Cons Submit by (auto simp: actor_turn_def)
  next
    case (Stats u)
    then show ?thesis using assms(3) Cons by (auto simp: actor_turn_def case_prod_beta)
  qed
qed

lemma step_keeps_place:
  assumes step: "governor_step g g'" and ok: "governor_ok config g" and config: "config_ok config"
    and t: "t < length (gv_calls g)"
  shows "t < length (gv_calls g')
    \<and> (gv_calls g' ! t = Awaiting \<longrightarrow> gv_calls g ! t = Awaiting \<and> position t (gv_queue g') \<le> position t (gv_queue g))"
proof -
  have queued: "gv_running g \<longrightarrow> gv_calls g ! t = Awaiting \<longrightarrow> t \<in> ticket ` set (gv_queue g)"
    using ok t by (simp add: governor_ok_def channel_ok_def)
  show ?thesis
    using step
  proof cases
    case (submit spec u)
    then show ?thesis using t queued by (auto simp: send_command_def nth_append position_append split: if_splits)
  next
    case (stats u)
    then show ?thesis using t queued by (auto simp: send_command_def nth_append position_append split: if_splits)
  next
    case turn
    then show ?thesis using turn_serves [OF ok config _ _ t] t by fastforce
  next
    case (reply u r)
    then show ?thesis using t by (auto simp: take_reply_def nth_list_update split: call_state.splits if_splits)
  qed (use t in \<open>auto simp: nth_list_update split: if_splits\<close>)
qed

lemma turns_keep_place:
  assumes "governor_turns n g g'" and "governor_run config g" and "config_ok config"
    and "t < length (gv_calls g)" and "gv_calls g ! t = Awaiting"
  shows "t < length (gv_calls g') \<and>
    (gv_calls g' ! t = Awaiting \<longrightarrow> n + position t (gv_queue g') \<le> position t (gv_queue g))"
  using assms
proof (induction rule: governor_turns.induct)
  case (turn n g g' g'')
  have "governor_ok config g'"
    using turns_run [OF turn(1)] turn governor_run_ok by blast
  then show ?case
    using turn turn_serves [of config g' g'' t] by fastforce
next
  case (other n g g' g'')
  have "governor_ok config g'"
    using turns_run [OF other(1)] other governor_run_ok by blast
  then show ?case
    using other step_keeps_place [of g' g'' config t] by fastforce
qed simp

end
