(* ===== verification/Confinement.thy ===== *)
theory Confinement
  imports SessionFrames
begin

text \<open>
  A sort touches nothing outside its scratch directory, whether its operations succeed or
  fail (src/engine/): the relation a session's steps keep, as an instance of the contract of
  theory SessionFrames. It rests on one more documented behaviour of the file package: a call
  on a path affects no other path, even when it reports an error.
\<close>

section \<open>The file package\<close>

definition inside :: "path \<Rightarrow> path \<Rightarrow> bool" where
  "inside d p \<longleftrightarrow> take (length d) p = d"

lemma inside_iff: "inside d p \<longleftrightarrow> (\<exists>e. p = d @ e)"
  unfolding inside_def by (metis append_eq_conv_conj append_take_drop_id)

definition frame_laws ::
    "('fs, 'h, 'k, 'v) ext \<Rightarrow> ('fs \<Rightarrow> path \<Rightarrow> u8 list option) \<Rightarrow> ('h \<Rightarrow> path) \<Rightarrow> bool" where
  "frame_laws X view hpath \<longleftrightarrow>
     (\<forall>p s r s' q. fs_create X p s = (r, s') \<longrightarrow> q \<noteq> p \<longrightarrow> view s' q = view s q) \<and>
     (\<forall>p s r s' q. fs_open_append X p s = (r, s') \<longrightarrow> q \<noteq> p \<longrightarrow> view s' q = view s q) \<and>
     (\<forall>p s h s'. fs_open_append X p s = (Inr h, s') \<longrightarrow> hpath h = p) \<and>
     (\<forall>p s r s' q. fs_open_write_at_end X p s = (r, s') \<longrightarrow> q \<noteq> p \<longrightarrow> view s' q = view s q) \<and>
     (\<forall>p s h s'. fs_open_write_at_end X p s = (Inr h, s') \<longrightarrow> hpath h = p) \<and>
     (\<forall>h bs s r s' q. fs_write_all X h bs s = (r, s') \<longrightarrow> q \<noteq> hpath h \<longrightarrow> view s' q = view s q) \<and>
     (\<forall>h bs s h' s'. fs_write_all X h bs s = (Inr h', s') \<longrightarrow> hpath h' = hpath h) \<and>
     (\<forall>h s r s' q. fs_flush X h s = (r, s') \<longrightarrow> q \<noteq> hpath h \<longrightarrow> view s' q = view s q) \<and>
     (\<forall>d s r s'. fs_ensure_dir X d s = (r, s') \<longrightarrow> view s' = view s) \<and>
     (\<forall>p s r s' q. fs_remove_if_exists X p s = (r, s') \<longrightarrow> q \<noteq> p \<longrightarrow> view s' q = view s q) \<and>
     (\<forall>d s r s' q. fs_remove_dir_all X d s = (r, s') \<longrightarrow> \<not> inside d q \<longrightarrow> view s' q = view s q)"

lemma frame_law:
  assumes "frame_laws X view hpath"
  shows "fs_create X p s = (r, s') \<Longrightarrow> q \<noteq> p \<Longrightarrow> view s' q = view s q"
    "fs_open_append X p s = (r, s') \<Longrightarrow> q \<noteq> p \<Longrightarrow> view s' q = view s q"
    "fs_open_write_at_end X p s = (r, s') \<Longrightarrow> q \<noteq> p \<Longrightarrow> view s' q = view s q"
    "fs_write_all X h bs s = (r', s') \<Longrightarrow> q \<noteq> hpath h \<Longrightarrow> view s' q = view s q"
    "fs_flush X h s = (r', s') \<Longrightarrow> q \<noteq> hpath h \<Longrightarrow> view s' q = view s q"
    "fs_ensure_dir X p s = (u, s') \<Longrightarrow> view s' = view s"
    "fs_remove_if_exists X p s = (u, s') \<Longrightarrow> q \<noteq> p \<Longrightarrow> view s' q = view s q"
    "fs_remove_dir_all X p s = (u, s') \<Longrightarrow> \<not> inside p q \<Longrightarrow> view s' q = view s q"
    "fs_open_append X p s = (Inr h', s') \<Longrightarrow> hpath h' = p"
    "fs_open_write_at_end X p s = (Inr h', s') \<Longrightarrow> hpath h' = p"
    "fs_write_all X h bs s = (Inr h', s') \<Longrightarrow> hpath h' = hpath h"
proof -
  note laws = assms [unfolded frame_laws_def]
  note later = laws [THEN conjunct2, THEN conjunct2, THEN conjunct2, THEN conjunct2, THEN conjunct2]
  show "fs_create X p s = (r, s') \<Longrightarrow> q \<noteq> p \<Longrightarrow> view s' q = view s q"
    by (rule laws [THEN conjunct1, rule_format])
  show "fs_open_append X p s = (r, s') \<Longrightarrow> q \<noteq> p \<Longrightarrow> view s' q = view s q"
    by (rule laws [THEN conjunct2, THEN conjunct1, rule_format])
  show "fs_open_append X p s = (Inr h', s') \<Longrightarrow> hpath h' = p"
    by (rule laws [THEN conjunct2, THEN conjunct2, THEN conjunct1, rule_format])
  show "fs_open_write_at_end X p s = (r, s') \<Longrightarrow> q \<noteq> p \<Longrightarrow> view s' q = view s q"
    by (rule laws [THEN conjunct2, THEN conjunct2, THEN conjunct2, THEN conjunct1, rule_format])
  show "fs_open_write_at_end X p s = (Inr h', s') \<Longrightarrow> hpath h' = p"
    by (rule laws [THEN conjunct2, THEN conjunct2, THEN conjunct2, THEN conjunct2, THEN conjunct1, rule_format])
  show "fs_write_all X h bs s = (r', s') \<Longrightarrow> q \<noteq> hpath h \<Longrightarrow> view s' q = view s q"
    by (rule later [THEN conjunct1, rule_format])
  show "fs_write_all X h bs s = (Inr h', s') \<Longrightarrow> hpath h' = hpath h"
    by (rule later [THEN conjunct2, THEN conjunct1, rule_format])
  show "fs_flush X h s = (r', s') \<Longrightarrow> q \<noteq> hpath h \<Longrightarrow> view s' q = view s q"
    by (rule later [THEN conjunct2, THEN conjunct2, THEN conjunct1, rule_format])
  note last = later [THEN conjunct2, THEN conjunct2, THEN conjunct2]
  show "fs_ensure_dir X p s = (u, s') \<Longrightarrow> view s' = view s"
    by (rule last [THEN conjunct1, rule_format])
  show "fs_remove_if_exists X p s = (u, s') \<Longrightarrow> q \<noteq> p \<Longrightarrow> view s' q = view s q"
    by (rule last [THEN conjunct2, THEN conjunct1, rule_format])
  show "fs_remove_dir_all X p s = (u, s') \<Longrightarrow> \<not> inside p q \<Longrightarrow> view s' q = view s q"
    by (rule last [THEN conjunct2, THEN conjunct2, rule_format])
qed

section \<open>The relation\<close>

definition confines ::
    "('fs, 'h, 'k, 'v) ext \<Rightarrow> ('fs \<Rightarrow> path \<Rightarrow> u8 list option) \<Rightarrow> ('h \<Rightarrow> path) \<Rightarrow> ('h \<Rightarrow> nat) \<Rightarrow> path
      \<Rightarrow> 'fs world \<Rightarrow> 'fs world \<Rightarrow> bool" where
  "confines X view hpath hpos d w w' \<longleftrightarrow>
     (ext_laws X view hpath hpos \<and> frame_laws X view hpath \<longrightarrow>
        (\<forall>q. \<not> inside d q \<longrightarrow> view (w_files w') q = view (w_files w) q))"

interpretation confined: blind_frame "confines X view hpath hpos d" for X view hpath hpos d
  by unfold_locales (auto simp: confines_def)

lemma confines_lawful:
  "(ext_laws X view hpath hpos \<Longrightarrow> frame_laws X view hpath \<Longrightarrow> keeps (confines X view hpath hpos d) m) \<Longrightarrow>
     keeps (confines X view hpath hpos d) m"
  by (auto simp: keeps_def confines_def)

lemma confines_files: "w_files w' = w_files w \<Longrightarrow> confines X view hpath hpos d w w'"
  by (simp add: confines_def)

lemma confines_same: "keeps same_but_budget m \<Longrightarrow> keeps (confines X view hpath hpos d) m"
  by (auto intro!: keepsI confines_files dest: files_same)

lemma confines_io:
  assumes "\<And>s r s' q. f s = (r, s') \<Longrightarrow> \<not> inside d q \<Longrightarrow> view s' q = view s q"
  shows "keeps (confines X view hpath hpos d) (io f)"
  by (auto intro!: keepsI simp: io_def confines_def split: prod.splits sum.splits dest: assms)

lemma confines_perform_with:
  assumes "keeps (confines X view hpath hpos d) m" and "\<And>w. w_files (captured w) = w_files w"
    and "\<And>x w. w_files (lost x w) = w_files w"
  shows "keeps (confines X view hpath hpos d) (perform_with lost captured n k m)"
  by (rule confined.keeps_perform_with)
    (simp_all add: assms confines_same [OF reserve_same] confines_files)

lemma confines_perform:
  assumes "keeps (confines X view hpath hpos d) m" and "\<And>w. w_files (captured w) = w_files w"
  shows "keeps (confines X view hpath hpos d) (perform captured n k m)"
  unfolding perform_def by (rule confines_perform_with [OF assms]) simp

section \<open>Reading and writing runs\<close>

lemma law_io:
  assumes "io f s = (Inr x, t)"
  shows "f (w_files s) = (Inr x, w_files t)"
  using assms by (auto simp: io_def split: prod.splits sum.splits)

lemma confines_reads:
  assumes "ext_laws X view hpath hpos"
  shows "keeps (confines X view hpath hpos d) (io (fs_open X p))"
    "keeps (confines X view hpath hpos d) (io (fs_seek X h n))"
    "keeps (confines X view hpath hpos d) (io (fs_read_exact X h k))"
  using assms by (auto intro!: confines_io simp: ext_laws_def read_laws_def)

lemma confines_readers:
  "keeps (confines X view hpath hpos d) (run_reader_open X p)"
  "keeps (confines X view hpath hpos d) (run_reader_next_row X rd)"
proof -
  have frame: "keeps (confines X view hpath hpos d) (read_frame X p n)" if L: "ext_laws X view hpath hpos" for p n
    unfolding read_frame_def Let_def
    by (auto intro!: confined.keeps_intros confines_reads [OF L] confines_same [OF reserve_same]
        confines_same [OF reserve_frame_same] confines_files split: prod.splits)
  show "keeps (confines X view hpath hpos d) (run_reader_open X p)"
    by (rule confines_lawful) (auto simp: run_reader_open_def intro!: confined.keeps_intros confines_perform
        confines_reads split: prod.splits)
  show "keeps (confines X view hpath hpos d) (run_reader_next_row X rd)"
    by (rule confines_lawful) (auto simp: run_reader_next_row_def or_raise_def intro!: confined.keeps_intros confines_perform_with
        frame confines_files split: prod.splits sum.splits)
qed

lemma confines_writes:
  assumes "frame_laws X view hpath"
  shows "inside d p \<Longrightarrow> keeps (confines X view hpath hpos d) (io (fs_create X p))"
    "inside d p \<Longrightarrow> keeps (confines X view hpath hpos d) (io (fs_open_append X p))"
    "inside d p \<Longrightarrow> keeps (confines X view hpath hpos d) (io (fs_open_write_at_end X p))"
    "inside d (hpath h) \<Longrightarrow> keeps (confines X view hpath hpos d) (io (fs_write_all X h bs))"
    "inside d (hpath h) \<Longrightarrow> keeps (confines X view hpath hpos d) (io (fs_flush X h))"
    "inside d p \<Longrightarrow> keeps (confines X view hpath hpos d) (io (fs_remove_if_exists X p))"
    "keeps (confines X view hpath hpos d) (io (fs_ensure_dir X p))"
    "inside d p \<Longrightarrow> keeps (confines X view hpath hpos d) (io (fs_remove_dir_all X p))"
proof -
  have above: "inside p q \<Longrightarrow> inside d q" if "inside d p" for q
    using that by (auto simp: inside_iff)
  show "inside d p \<Longrightarrow> keeps (confines X view hpath hpos d) (io (fs_create X p))"
    by (rule confines_io) (metis frame_law(1) [OF assms])
  show "inside d p \<Longrightarrow> keeps (confines X view hpath hpos d) (io (fs_open_append X p))"
    by (rule confines_io) (metis frame_law(2) [OF assms])
  show "inside d p \<Longrightarrow> keeps (confines X view hpath hpos d) (io (fs_open_write_at_end X p))"
    by (rule confines_io) (metis frame_law(3) [OF assms])
  show "inside d (hpath h) \<Longrightarrow> keeps (confines X view hpath hpos d) (io (fs_write_all X h bs))"
    by (rule confines_io) (metis frame_law(4) [OF assms])
  show "inside d (hpath h) \<Longrightarrow> keeps (confines X view hpath hpos d) (io (fs_flush X h))"
    by (rule confines_io) (metis frame_law(5) [OF assms])
  show "inside d p \<Longrightarrow> keeps (confines X view hpath hpos d) (io (fs_remove_if_exists X p))"
    by (rule confines_io) (metis frame_law(7) [OF assms])
  show "keeps (confines X view hpath hpos d) (io (fs_ensure_dir X p))"
    by (rule confines_io) (metis frame_law(6) [OF assms])
  show "inside d p \<Longrightarrow> keeps (confines X view hpath hpos d) (io (fs_remove_dir_all X p))"
    by (rule confines_io) (metis frame_law(8) [OF assms] above)
qed

text \<open>The handle a call returns is on the path it was given.\<close>

lemma law_paths:
  assumes "ext_laws X view hpath hpos" and "frame_laws X view hpath"
  shows "io (fs_create X p) s = (Inr h, t) \<Longrightarrow> hpath h = p"
    "io (fs_open_append X p) s = (Inr h, t) \<Longrightarrow> hpath h = p"
    "io (fs_open_write_at_end X p) s = (Inr h, t) \<Longrightarrow> hpath h = p"
    "io (fs_write_all X g bs) s = (Inr h, t) \<Longrightarrow> hpath h = hpath g"
    "io (fs_seek X g n) s = (Inr h, t) \<Longrightarrow> hpath h = hpath g"
  using law_create [OF assms(1)] law_seek [OF assms(1)] frame_law(9-11) [OF assms(2)] by (auto dest!: law_io)

lemma confines_handle:
  assumes m: "keeps (confines X view hpath hpos d) m" "\<And>s h t. m s = (Inr h, t) \<Longrightarrow> inside d (hpath h)"
    and f: "\<And>h. inside d (hpath h) \<Longrightarrow> keeps (confines X view hpath hpos d) (f h)"
  shows "keeps (confines X view hpath hpos d) (and_then m f)"
  by (rule confined.keeps_attempt_value [OF m(1)]) (use m(2) f in \<open>auto simp: confined.refl\<close>)

lemma confines_writers:
  "inside d p \<Longrightarrow> keeps (confines X view hpath hpos d) (run_writer_create X p)"
  "inside d (rw_path wr) \<Longrightarrow> keeps (confines X view hpath hpos d) (run_writer_write_row X wr row)"
  "inside d (rw_path wr) \<Longrightarrow> keeps (confines X view hpath hpos d) (run_writer_finish X wr)"
proof -
  note rules = confined.keeps_ret confines_handle confines_writes(1-5) confines_reads(2)
  show "keeps (confines X view hpath hpos d) (run_writer_create X p)" if "inside d p"
  proof (rule confines_lawful)
    assume L: "ext_laws X view hpath hpos" and F: "frame_laws X view hpath"
    have "keeps (confines X view hpath hpos d) (and_then (io (fs_create X p)) (\<lambda>file.
        and_then (io (fs_write_all X file (u64_to_le_bytes 0))) (\<lambda>file.
        and_then (io (fs_flush X file)) (\<lambda>_. ret ()))))"
      using that F law_paths [OF L F]
      by (intro confines_handle confined.keeps_attempt confines_writes(1,4,5) confined.keeps_ret confined.refl) auto
    note body = confines_perform [OF this]
    show "keeps (confines X view hpath hpos d) (run_writer_create X p)"
      unfolding run_writer_create_def
      by (intro confined.keeps_attempt body confined.keeps_ret confined.refl) simp_all
  qed
  show "keeps (confines X view hpath hpos d) (run_writer_write_row X wr row)" if "inside d (rw_path wr)"
  proof (rule confines_lawful)
    assume L: "ext_laws X view hpath hpos" and F: "frame_laws X view hpath"
    have "keeps (confines X view hpath hpos d) (and_then (io (fs_open_append X (rw_path wr))) (\<lambda>file.
        and_then (io (fs_write_all X file a)) (\<lambda>file.
        and_then (io (fs_write_all X file b)) (\<lambda>file.
        and_then (io (fs_write_all X file c)) (\<lambda>file.
        and_then (io (fs_flush X file)) (\<lambda>_. ret ()))))))" for a b c
      using that F law_paths [OF L F]
      by (intro confines_handle confined.keeps_attempt confines_writes(2,4,5) confined.keeps_ret confined.refl) auto
    note body = confines_perform [OF this]
    show "keeps (confines X view hpath hpos d) (run_writer_write_row X wr row)"
      unfolding run_writer_write_row_def
      by (intro confined.keeps_attempt confined.keeps_ok_or confined.keeps_ret body confined.refl
            confines_same [OF encode_frames(1)])
        (auto intro!: confined.keeps_attempt confined.keeps_ok_or confined.keeps_ret body confines_files)
  qed
  show "keeps (confines X view hpath hpos d) (run_writer_finish X wr)" if "inside d (rw_path wr)"
  proof (rule confines_lawful)
    assume L: "ext_laws X view hpath hpos" and F: "frame_laws X view hpath"
    have "keeps (confines X view hpath hpos d) (and_then (io (fs_open_write_at_end X (rw_path wr))) (\<lambda>file.
        and_then (io (fs_seek X file 0)) (\<lambda>file.
        and_then (io (fs_write_all X file a)) (\<lambda>file.
        and_then (io (fs_flush X file)) (\<lambda>_. ret ())))))" for a
      using that F law_paths [OF L F]
      by (intro confines_handle confined.keeps_attempt confines_writes(3,4,5) confines_reads(2) [OF L]
          confined.keeps_ret confined.refl) auto
    note body = confines_perform [OF this]
    show "keeps (confines X view hpath hpos d) (run_writer_finish X wr)"
      unfolding run_writer_finish_def
      by (intro confined.keeps_attempt body confined.keeps_ret confined.refl) simp_all
  qed
qed

section \<open>The session\<close>

lemma inside_join: "inside d e \<Longrightarrow> inside d (join e name)"
  by (auto simp: inside_iff join_def)

lemma confines_clean:
  assumes "\<And>e. cg_dir g = Some e \<Longrightarrow> inside d e"
  shows "guard_cleanup X (g, w) = (r, g', w') \<Longrightarrow> confines X view hpath hpos d w w'"
    "confines X view hpath hpos d w (guard_drop X rt g w)"
proof -
  have remove: "keeps (confines X view hpath hpos d) (perform_reserved (\<lambda>w. w) (io (fs_remove_dir_all X e)))"
    if "inside d e" for e
    by (rule confines_lawful) (unfold perform_reserved_def, auto intro!: confined.keeps_perform_reserved confines_writes(8) confined.refl that)
  have idle: "keeps (confines X view hpath hpos d) scope_idle"
    by (auto simp: keeps_def scope_idle_def intro: confines_files)
  have drop: "confines X view hpath hpos d u v \<Longrightarrow> confines X view hpath hpos d u (release_opt c v)" for u v c
    by (simp add: confines_def release_opt_def release_def split: option.splits)
  show "guard_cleanup X (g, w) = (r, g', w') \<Longrightarrow> confines X view hpath hpos d w w'"
  proof (cases "cg_dir g")
    case (Some e)
    have "keeps (confines X view hpath hpos d) (and_then scope_idle (\<lambda>_.
        if \<not> cg_fds g then fail (Panic ''armed scratch has a descriptor budget'')
        else perform_reserved (\<lambda>w. w) (io (fs_remove_dir_all X e))))"
      using assms [OF Some] by (auto intro!: confined.keeps_attempt idle remove confined.keeps_fail confined.refl)
    then show "guard_cleanup X (g, w) = (r, g', w') \<Longrightarrow> confines X view hpath hpos d w w'"
      using Some by (auto simp: guard_cleanup_def split: prod.splits sum.splits dest!: keepsD intro: drop)
  qed (auto simp: guard_cleanup_def confined.refl)
  show "confines X view hpath hpos d w (guard_drop X rt g w)"
  proof (cases "cg_dir g")
    case (Some e)
    have "keeps (confines X view hpath hpos d) (and_then scope_idle (\<lambda>_.
        perform_reserved (\<lambda>w. w) (io (fs_remove_dir_all X e))))"
      using assms [OF Some] by (auto intro!: confined.keeps_attempt idle remove confined.refl)
    from confined.keeps_detached [OF this] show ?thesis
      using Some by (auto simp: guard_drop_def keeps_def intro!: drop confined.refl)
  qed (auto simp: guard_drop_def intro!: drop confined.refl)
qed

interpretation confined_session: session_engine "confines X view hpath hpos d" X "inside d" "inside d"
  for X :: "('fs, 'h, 'k::linorder, 'v) ext" and view hpath hpos d
proof unfold_locales
  show "confines X view hpath hpos d w (release c w)" for c w
    by (simp add: confines_def release_def)
  show "inside d p \<Longrightarrow> keeps (confines X view hpath hpos d) (awaited (io (fs_remove_if_exists X p)))" for p
    by (rule confines_lawful) (intro confined.keeps_awaited confines_writes(6))
  show "inside d e \<Longrightarrow> keeps (confines X view hpath hpos d) (perform (\<lambda>w. w) n m (io (fs_ensure_dir X e)))" for e n m
    by (rule confines_lawful) (intro confines_perform confines_writes(7), simp_all)
  show "guard_safe (inside d) g \<Longrightarrow> guard_cleanup X (g, w) = (r, g', w') \<Longrightarrow> confines X view hpath hpos d w w'"
    for g w r g' w'
    by (rule confines_clean(1)) (simp_all add: guard_safe_def)
  show "guard_safe (inside d) g \<Longrightarrow> confines X view hpath hpos d w (guard_drop X rt g w)" for g w rt
    by (rule confines_clean(2)) (simp add: guard_safe_def)
qed (simp_all add: confines_readers confines_writers inside_join confines_same [OF reserve_same] limit_now_frames
    confines_same [OF limit_now_frames(1)])

section \<open>A whole sort\<close>

lemma sort_confined:
  assumes L: "ext_laws X view hpath hpos" and F: "frame_laws X view hpath"
    and own: "owns (inside d) (inside d) ss"
    and pushed: "push_all X xs (ss, w0) = (rs, s1)" and fin: "finish X s1 = (r, w2)"
    and outside: "\<not> inside d q"
  shows "view (w_files (case r of Inl _ \<Rightarrow> w2 | Inr stream \<Rightarrow> snd (drain_sort X stream w2))) q
    = view (w_files w0) q"
proof -
  let ?R = "confines X view hpath hpos d"
  have first: "?R w0 (snd s1)" "owns (inside d) (inside d) (fst s1)"
    using confined_session.lift_push_all [OF pushed, of d view hpath hpos] own by (simp_all add: claims_def)
  have second: "?R (snd s1) w2" by (rule confined_session.lift_finish [OF fin first(2)])
  have "?R w2 (snd (drain_sort X stream w2))" if "r = Inr stream" for stream
    using confined_session.step_drain_sort [of X stream w2 _ _ d view hpath hpos]
      confined_session.finish_safe [OF fin [unfolded that] first(2)] by (simp add: prod_eq_iff)
  then have "?R w0 (case r of Inl _ \<Rightarrow> w2 | Inr stream \<Rightarrow> snd (drain_sort X stream w2))"
    using confined.trans [OF first(1) second] by (auto split: sum.splits intro: confined.trans)
  then show ?thesis
    using L F outside by (simp add: confines_def)
qed

end
