(* ===== verification/SharedSorts.thy ===== *)
theory SharedSorts
  imports Confinement
begin

text \<open>
  Many sorts in one world (src/engine/session.rs, src/engine/merge.rs): they share the budget,
  the permits and the file system, and their operations interleave with one another and with
  whatever other tasks do outside their directories. Each still streams the stable sort of
  the rows it accepted.
\<close>

section \<open>Polling and dropping the output\<close>

definition sort_stream_next ::
    "('fs, 'h, 'k::linorder, 'v) ext \<Rightarrow> ('k, 'v) sort_stream
      \<Rightarrow> ('fs world, ('v, ('k, 'v) sort_stream) pulled) act" where
  "sort_stream_next X stream w =
     (case stream of
        Buffered im \<Rightarrow> apfst (map_sum id (map_pulled id Buffered)) (memory_stream_next im w)
      | Merging vs \<Rightarrow> apfst (map_sum id (map_pulled id Merging)) (value_stream_next X vs w))"

definition sort_stream_drop ::
    "('fs, 'h, 'k, 'v) ext \<Rightarrow> ('k, 'v) sort_stream \<Rightarrow> 'fs world \<Rightarrow> 'fs world" where
  "sort_stream_drop X stream w =
     (case stream of Buffered im \<Rightarrow> memory_stream_drop im w | Merging vs \<Rightarrow> stream_drop X vs w)"

lemma map_pulled_cases:
  "map_pulled id f p = Yielded i s \<longleftrightarrow> (\<exists>t. p = Yielded i t \<and> s = f t)"
  "map_pulled id f p = Ended \<longleftrightarrow> p = Ended"
  by (cases p; auto simp: sum.map_id0)+

lemma sort_stream_next_cases:
  "sort_stream_next X (Buffered im) w = (Inr p, w') \<longleftrightarrow>
     (\<exists>q. memory_stream_next im w = (Inr q, w') \<and> p = map_pulled id Buffered q)"
  "sort_stream_next X (Merging vs) w = (Inr p, w') \<longleftrightarrow>
     (\<exists>q. value_stream_next X vs w = (Inr q, w') \<and> p = map_pulled id Merging q)"
proof -
  have *: "apfst (map_sum id f) m = (Inr p, w') \<longleftrightarrow> (\<exists>q. m = (Inr q, w') \<and> p = f q)" for f m
    by (cases m; cases "fst m") auto
  show "sort_stream_next X (Buffered im) w = (Inr p, w') \<longleftrightarrow>
      (\<exists>q. memory_stream_next im w = (Inr q, w') \<and> p = map_pulled id Buffered q)"
    by (simp add: sort_stream_next_def *)
  show "sort_stream_next X (Merging vs) w = (Inr p, w') \<longleftrightarrow>
      (\<exists>q. value_stream_next X vs w = (Inr q, w') \<and> p = map_pulled id Merging q)"
    by (simp add: sort_stream_next_def *)
qed

text \<open>A stream that has reported an error yields no value after it.\<close>

definition spent :: "('k, 'v) sort_stream \<Rightarrow> bool" where
  "spent stream \<longleftrightarrow> (case stream of Buffered _ \<Rightarrow> False | Merging vs \<Rightarrow> vs_state vs = None)"

lemma spent_poll:
  assumes "spent stream" and "sort_stream_next X stream w = (Inr (Yielded i later), w')"
  shows "spent later \<and> (\<exists>e. i = Inl e)"
proof -
  obtain vs where vs: "stream = Merging vs" "vs_state vs = None"
    using assms(1) by (auto simp: spent_def split: sort_stream.splits)
  obtain vs' where "value_stream_next X vs w = (Inr (Yielded i vs'), w')" "later = Merging vs'"
    using assms(2) vs(1) by (auto simp: sort_stream_next_cases map_pulled_cases dest!: sym [of "Yielded _ _"])
  then show ?thesis
    using vs(2) stream_end_shape [of X vs w i vs' w']
    by (auto simp: value_stream_next_def spent_def split: if_splits)
qed

lemma memory_poll_due:
  assumes "memory_stream_next im w = (Inr p, w')" and "stream_due X files dir (Buffered im) vals"
  shows "case p of Ended \<Rightarrow> vals = []
    | Yielded i im' \<Rightarrow> \<exists>v vals'. i = Inr v \<and> vals = v # vals' \<and> stream_due X files' dir (Buffered im') vals'"
proof -
  obtain r w1 where scan: "memory_stream_scan (im_dedup im) (im_last im) (im_rows im) w = (r, w1)"
    by (metis surj_pair)
  show ?thesis
    using assms memory_stream_scan_spec [OF scan, unfolded Let_def] scan
    by (auto simp: memory_stream_next_def stream_due_def split: option.splits prod.splits)
qed

lemma value_poll_due:
  assumes L: "ext_laws X view hpath hpos" and run: "value_stream_next X vs w = (Inr p, w')"
    and due: "stream_due X (view (w_files w)) dir (Merging vs) vals"
  shows "case p of Ended \<Rightarrow> vals = []
    | Yielded i vs' \<Rightarrow> (case i of
        Inl e \<Rightarrow> vs_state vs' = None
      | Inr v \<Rightarrow> \<exists>vals'. vals = v # vals' \<and> stream_due X (view (w_files w')) dir (Merging vs') vals')"
proof -
  obtain st P ls where at: "vs_state vs = Some st" "merge_at X (view (w_files w)) P st ls"
    "P \<subseteq> range (join dir)" "vals = map row_value (pending st ls)"
    using due by (auto simp: stream_due_def)
  obtain q st' w1 where step: "merge_next X (st, w) = (q, st', w1)" by (metis surj_pair)
  show ?thesis
  proof (cases q)
    case (Inl e)
    then show ?thesis
      using run at(1) step by (auto simp: value_stream_next_def split: fault.splits)
  next
    case (Inr out)
    obtain ls' where later: "merge_at X (view (w_files w1)) P st' ls'"
      "case out of None \<Rightarrow> pending st ls = []
       | Some row \<Rightarrow> pending st ls = stored row # pending st' ls' \<and> row_charge row \<noteq> None"
      using merge_next_spec [OF L step [unfolded Inr], of P ls] at(2) unfolding fst_conv snd_conv by blast
    show ?thesis
    proof (cases out)
      case None
      then have fin: "stream_end X (vs\<lparr>vs_state := Some st'\<rparr>) w1 = (Inr p, w')"
        using run at(1) step Inr by (simp add: value_stream_next_def)
      show ?thesis
        using None later(2) at(4) fin stream_end_shape [of X "vs\<lparr>vs_state := Some st'\<rparr>" w1 _ _ w']
        by (cases p) fastforce+
    next
      case (Some row)
      then have "p = Yielded (Inr (row_value row)) (vs\<lparr>vs_state := Some st', vs_reported := False\<rparr>)"
        "w' = row_drop row w1"
        using run at(1) step Inr by (auto simp: value_stream_next_def)
      then show ?thesis
        using later at(3,4) Some by (auto simp: stream_due_def)
    qed
  qed
qed

lemma sort_poll_due:
  assumes L: "ext_laws X view hpath hpos" and run: "sort_stream_next X stream w = (Inr p, w')"
    and due: "stream_due X (view (w_files w)) dir stream vals"
  shows "case p of Ended \<Rightarrow> vals = []
    | Yielded i later \<Rightarrow> (case i of
        Inl e \<Rightarrow> spent later
      | Inr v \<Rightarrow> \<exists>vals'. vals = v # vals' \<and> stream_due X (view (w_files w')) dir later vals')"
proof (cases stream)
  case (Buffered im)
  then obtain q where "memory_stream_next im w = (Inr q, w')" "p = map_pulled id Buffered q"
    using run by (auto simp: sort_stream_next_cases)
  then show ?thesis
    using memory_poll_due [of im w q w' X "view (w_files w)" dir vals "view (w_files w')"] due Buffered
    by (cases q) auto
next
  case (Merging vs)
  then obtain q where "value_stream_next X vs w = (Inr q, w')" "p = map_pulled id Merging q"
    using run by (auto simp: sort_stream_next_cases)
  then show ?thesis
    using value_poll_due [OF L, of vs w q w' dir vals] due Merging
    by (cases q) (auto simp: spent_def split: sum.splits)
qed

section \<open>The sorts of a world\<close>

datatype ('k, 'v) stage =
  Ingesting "('k, 'v) session"
| Streaming "('k, 'v) sort_stream" (errored: bool)
| Over (complete: bool)

record ('k, 'v) shared_sort =
  sh_dir :: path
  sh_dedup :: bool
  sh_stage :: "('k, 'v) stage"
  sh_accepted :: "('k \<times> 'v) list"
  sh_yielded :: "'v list"

type_synonym ('k, 'v, 'fs) sorts = "('k, 'v) shared_sort list \<times> 'fs world"

definition live :: "('k, 'v) shared_sort \<Rightarrow> bool" where
  "live s \<longleftrightarrow> (case sh_stage s of Over _ \<Rightarrow> False | _ \<Rightarrow> True)"

text \<open>One operation on one sort, from the call to its return; none where the code has no call.\<close>

definition sort_push ::
    "('fs, 'h, 'k::linorder, 'v) ext \<Rightarrow> 'k \<Rightarrow> 'v \<Rightarrow> usize \<Rightarrow> ('k, 'v) shared_sort \<times> 'fs world
      \<Rightarrow> (('k, 'v) shared_sort \<times> 'fs world) option" where
  "sort_push X k v n = (\<lambda>(s, w).
     case sh_stage s of
       Ingesting ss \<Rightarrow>
         (case push_with_size X k v n (ss, w) of
            (r, (ss', w')) \<Rightarrow>
              Some (s\<lparr>sh_stage := Ingesting ss',
                sh_accepted := sh_accepted s @ (case r of Inl _ \<Rightarrow> [] | Inr _ \<Rightarrow> [(k, v)])\<rparr>, w'))
     | _ \<Rightarrow> None)"

definition sort_finish ::
    "('fs, 'h, 'k::linorder, 'v) ext \<Rightarrow> ('k, 'v) shared_sort \<times> 'fs world
      \<Rightarrow> (('k, 'v) shared_sort \<times> 'fs world) option" where
  "sort_finish X = (\<lambda>(s, w).
     case sh_stage s of
       Ingesting ss \<Rightarrow>
         (case finish X (ss, w) of
            (r, w') \<Rightarrow> Some (s\<lparr>sh_stage :=
              (case r of Inl _ \<Rightarrow> Over False | Inr stream \<Rightarrow> Streaming stream False)\<rparr>, w'))
     | _ \<Rightarrow> None)"

definition sort_poll ::
    "('fs, 'h, 'k::linorder, 'v) ext \<Rightarrow> ('k, 'v) shared_sort \<times> 'fs world
      \<Rightarrow> (('k, 'v) shared_sort \<times> 'fs world) option" where
  "sort_poll X = (\<lambda>(s, w).
     case sh_stage s of
       Streaming stream bad \<Rightarrow>
         (case sort_stream_next X stream w of
            (r, w') \<Rightarrow> Some (case r of
                Inl _ \<Rightarrow> s\<lparr>sh_stage := Over False\<rparr>
              | Inr Ended \<Rightarrow> s\<lparr>sh_stage := Over (\<not> bad)\<rparr>
              | Inr (Yielded (Inl _) later) \<Rightarrow> s\<lparr>sh_stage := Streaming later True\<rparr>
              | Inr (Yielded (Inr v) later) \<Rightarrow>
                  s\<lparr>sh_stage := Streaming later bad, sh_yielded := sh_yielded s @ [v]\<rparr>, w'))
     | _ \<Rightarrow> None)"

definition sort_drop ::
    "('fs, 'h, 'k, 'v) ext \<Rightarrow> bool \<Rightarrow> ('k, 'v) shared_sort \<times> 'fs world
      \<Rightarrow> (('k, 'v) shared_sort \<times> 'fs world) option" where
  "sort_drop X in_runtime = (\<lambda>(s, w).
     case sh_stage s of
       Ingesting ss \<Rightarrow> Some (s\<lparr>sh_stage := Over False\<rparr>, session_drop X in_runtime (ss, w))
     | Streaming stream _ \<Rightarrow> Some (s\<lparr>sh_stage := Over False\<rparr>, sort_stream_drop X stream w)
     | Over _ \<Rightarrow> None)"

datatype ('k, 'v) sort_op =
  OpenSort sort_plan path bool
| PushRow nat 'k 'v usize
| FinishSort nat
| PollSort nat
| DropSort nat bool

definition on_sort ::
    "nat \<Rightarrow> (('k, 'v) shared_sort \<times> 'fs world \<Rightarrow> (('k, 'v) shared_sort \<times> 'fs world) option)
      \<Rightarrow> ('k, 'v, 'fs) sorts \<Rightarrow> ('k, 'v, 'fs) sorts option" where
  "on_sort i f = (\<lambda>(sorts, w).
     if i < length sorts then map_option (\<lambda>(s, w'). (sorts[i := s], w')) (f (sorts ! i, w)) else None)"

text \<open>
  A caller gives every sort a directory of its own: neither inside the other, as two leases of
  a governor or two \<open>sort-<uuid>\<close> directories are.
\<close>

definition apart :: "path \<Rightarrow> path \<Rightarrow> bool" where
  "apart d e \<longleftrightarrow> \<not> inside d e \<and> \<not> inside e d"

fun sorts_do ::
    "('fs, 'h, 'k::linorder, 'v) ext \<Rightarrow> ('k, 'v) sort_op \<Rightarrow> ('k, 'v, 'fs) sorts
      \<Rightarrow> ('k, 'v, 'fs) sorts option" where
  "sorts_do X (OpenSort plan dir dedup) (sorts, w) =
     (case session_new plan dir dedup of
        Inl _ \<Rightarrow> None
      | Inr ss \<Rightarrow>
          if list_all (\<lambda>s. live s \<longrightarrow> apart dir (sh_dir s)) sorts
          then Some (sorts @ [\<lparr>sh_dir = dir, sh_dedup = dedup, sh_stage = Ingesting ss,
            sh_accepted = [], sh_yielded = []\<rparr>], w)
          else None)"
| "sorts_do X (PushRow i k v n) c = on_sort i (sort_push X k v n) c"
| "sorts_do X (FinishSort i) c = on_sort i (sort_finish X) c"
| "sorts_do X (PollSort i) c = on_sort i (sort_poll X) c"
| "sorts_do X (DropSort i rt) c = on_sort i (sort_drop X rt) c"

text \<open>
  Between two operations other tasks may change the budget, the permits and every file that is
  not in the directory of a live sort.
\<close>

inductive sorts_step ::
    "('fs, 'h, 'k::linorder, 'v) ext \<Rightarrow> ('fs \<Rightarrow> path \<Rightarrow> u8 list option)
      \<Rightarrow> ('k, 'v, 'fs) sorts \<Rightarrow> ('k, 'v, 'fs) sorts \<Rightarrow> bool"
  for X view where
  operate: "sorts_do X op c = Some c' \<Longrightarrow> sorts_step X view c c'"
| elsewhere: "(\<And>s q. s \<in> set sorts \<Longrightarrow> live s \<Longrightarrow> inside (sh_dir s) q \<Longrightarrow>
      view (w_files w') q = view (w_files w) q) \<Longrightarrow> sorts_step X view (sorts, w) (sorts, w')"

section \<open>What a sort is worth\<close>

definition sort_ok ::
    "('fs, 'h, 'k::linorder, 'v) ext \<Rightarrow> (path \<Rightarrow> u8 list option) \<Rightarrow> ('k, 'v) shared_sort \<Rightarrow> bool" where
  "sort_ok X files s \<longleftrightarrow>
     (let all = map snd (sorted_rows (sh_dedup s) fst (sh_accepted s)); mine = inside (sh_dir s)
      in prefix (sh_yielded s) all \<and>
        (case sh_stage s of
           Ingesting ss \<Rightarrow> owns mine mine ss \<and> sh_yielded s = [] \<and>
             (\<not> ss_failed ss \<longrightarrow> ss_dedup ss = sh_dedup s \<and>
               (\<exists>acc. session_at X files ss acc \<and> map pair_of acc = sh_accepted s))
         | Streaming stream bad \<Rightarrow> stream_safe mine stream \<and>
             (if bad then spent stream
              else \<exists>dir vals. mine dir \<and> stream_due X files dir stream vals \<and> all = sh_yielded s @ vals)
         | Over done \<Rightarrow> done \<longrightarrow> sh_yielded s = all))"

lemma session_at_elsewhere:
  assumes "session_at X files ss acc" and "owns (inside d) dir_ok ss"
    and "\<And>q. inside d q \<Longrightarrow> files' q = files q"
  shows "session_at X files' ss acc"
proof -
  have "holds_runs X files' (frontier (ss_spills ss)) ls" if "holds_runs X files (frontier (ss_spills ss)) ls" for ls
    using that by (rule holds_runs_elsewhere) (use assms(2,3) owns_parts(6) in blast)
  then show ?thesis
    using assms(1) unfolding session_at_def by blast
qed

lemma stream_due_elsewhere:
  assumes "stream_due X files dir stream vals" and "inside d dir"
    and "\<And>q. inside d q \<Longrightarrow> files' q = files q"
  shows "stream_due X files' dir stream vals"
proof -
  have "merge_at X files' P st ls" if "merge_at X files P st ls" "P \<subseteq> range (join dir)" for P st ls
    using that(1) by (rule merge_at_elsewhere) (use that(2) assms(2,3) inside_join in blast)
  then show ?thesis
    using assms(1) unfolding stream_due_def by (auto split: sort_stream.splits) blast
qed

lemma sort_ok_elsewhere:
  assumes "sort_ok X files s" and "live s \<Longrightarrow> (\<And>q. inside (sh_dir s) q \<Longrightarrow> files' q = files q)"
  shows "sort_ok X files' s"
  using assms session_at_elsewhere [of X files _ _ "sh_dir s" "inside (sh_dir s)" files']
    stream_due_elsewhere [of X files _ _ _ "sh_dir s" files']
  by (auto simp: sort_ok_def Let_def live_def split: stage.splits; blast)

section \<open>Every operation keeps it\<close>

text \<open>An operation keeps its sort right and touches no file outside the sort's directory.\<close>

definition keeps_sort ::
    "('fs, 'h, 'k::linorder, 'v) ext \<Rightarrow> ('fs \<Rightarrow> path \<Rightarrow> u8 list option)
      \<Rightarrow> (('k, 'v) shared_sort \<times> 'fs world \<Rightarrow> (('k, 'v) shared_sort \<times> 'fs world) option) \<Rightarrow> bool" where
  "keeps_sort X view f \<longleftrightarrow>
     (\<forall>s w s' w'. f (s, w) = Some (s', w') \<longrightarrow> sort_ok X (view (w_files w)) s \<longrightarrow>
        sort_ok X (view (w_files w')) s' \<and> sh_dir s' = sh_dir s \<and> live s
        \<and> (\<forall>q. \<not> inside (sh_dir s) q \<longrightarrow> view (w_files w') q = view (w_files w) q))"

lemma keeps_sortI:
  assumes "\<And>s w s' w'. f (s, w) = Some (s', w') \<Longrightarrow> sort_ok X (view (w_files w)) s \<Longrightarrow>
      sort_ok X (view (w_files w')) s' \<and> sh_dir s' = sh_dir s \<and> live s
      \<and> confines X view hpath hpos (sh_dir s) w w'"
    and "ext_laws X view hpath hpos" and "frame_laws X view hpath"
  shows "keeps_sort X view f"
  using assms unfolding keeps_sort_def confines_def by blast

lemma keeps_push:
  assumes L: "ext_laws X view hpath hpos" and F: "frame_laws X view hpath"
  shows "keeps_sort X view (sort_push X k v n)"
proof (rule keeps_sortI [OF _ L F])
  fix s w s' w'
  assume run: "sort_push X k v n (s, w) = Some (s', w')" and ok: "sort_ok X (view (w_files w)) s"
  obtain ss where ss: "sh_stage s = Ingesting ss"
    using run by (auto simp: sort_push_def split: stage.splits)
  let ?mine = "inside (sh_dir s)"
  obtain r ss' where push: "push_with_size X k v n (ss, w) = (r, (ss', w'))"
    and s': "s' = s\<lparr>sh_stage := Ingesting ss',
      sh_accepted := sh_accepted s @ (case r of Inl _ \<Rightarrow> [] | Inr _ \<Rightarrow> [(k, v)])\<rparr>"
    using run ss by (auto simp: sort_push_def split: prod.splits)
  have "claims ?mine ?mine (confines X view hpath hpos (sh_dir s)) (ss, w) (ss', w')"
    by (rule keepsD [OF confined_session.lift_push push])
  then have claim: "confines X view hpath hpos (sh_dir s) w w'" "owns ?mine ?mine ss'"
    using ok ss by (auto simp: claims_def sort_ok_def)
  have "ss_dedup ss' = sh_dedup s \<and> (\<exists>acc. session_at X (view (w_files w')) ss' acc \<and> map pair_of acc = sh_accepted s')"
    if usable: "\<not> ss_failed ss'"
  proof (cases "ss_failed ss")
    case True
    then show ?thesis using usable push push_failed [of "(ss, w)" X k v n] by simp
  next
    case False
    then obtain acc where acc: "session_at X (view (w_files w)) ss acc" "map pair_of acc = sh_accepted s"
      "ss_dedup ss = sh_dedup s"
      using ok ss by (auto simp: sort_ok_def Let_def)
    have "\<exists>acc'. session_at X (view (w_files w')) ss' acc' \<and> same_session ss ss'
        \<and> map pair_of acc' = sh_accepted s'"
      using push_spec [OF L push, of acc] acc usable by (cases r) (auto simp: s')
    then show ?thesis using acc(3) by (auto simp: same_session_def)
  qed
  then show "sort_ok X (view (w_files w')) s' \<and> sh_dir s' = sh_dir s \<and> live s
      \<and> confines X view hpath hpos (sh_dir s) w w'"
    using claim ok ss by (auto simp: s' sort_ok_def live_def Let_def)
qed

lemma keeps_finish:
  assumes L: "ext_laws X view hpath hpos" and F: "frame_laws X view hpath"
  shows "keeps_sort X view (sort_finish X)"
proof (rule keeps_sortI [OF _ L F])
  fix s w s' w'
  assume run: "sort_finish X (s, w) = Some (s', w')" and ok: "sort_ok X (view (w_files w)) s"
  obtain ss where ss: "sh_stage s = Ingesting ss"
    using run by (auto simp: sort_finish_def split: stage.splits)
  let ?mine = "inside (sh_dir s)"
  have own: "owns ?mine ?mine ss" "sh_yielded s = []" using ok ss by (auto simp: sort_ok_def Let_def)
  obtain r where fin: "finish X (ss, w) = (r, w')"
    and s': "s' = s\<lparr>sh_stage := (case r of Inl _ \<Rightarrow> Over False | Inr stream \<Rightarrow> Streaming stream False)\<rparr>"
    using run ss by (auto simp: sort_finish_def split: prod.splits)
  have frame: "confines X view hpath hpos (sh_dir s) w w'"
    using confined_session.lift_finish [OF fin, of "sh_dir s" view hpath hpos] own by simp
  have "sort_ok X (view (w_files w')) s'"
  proof (cases r)
    case (Inl e)
    then show ?thesis by (simp add: s' sort_ok_def own)
  next
    case (Inr stream)
    have "\<not> ss_failed ss"
      using fin Inr by (auto simp: finish_def attempt_def ensure_usable_def fail_def split: prod.splits if_splits)
    then obtain acc where acc: "session_at X (view (w_files w)) ss acc" "map pair_of acc = sh_accepted s"
      "ss_dedup ss = sh_dedup s"
      using ok ss by (auto simp: sort_ok_def Let_def)
    have "stream_due X (view (w_files w')) (ss_dir ss) stream
        (map snd (sorted_rows (sh_dedup s) fst (sh_accepted s)))"
      using finish_due [OF L fin [unfolded Inr] acc(1)] by (simp add: sorted_rows_pairs acc(2,3))
    moreover have "stream_safe ?mine stream"
      using confined_session.finish_safe [OF fin [unfolded Inr], of "sh_dir s"] own by simp
    ultimately show ?thesis
      using Inr own owns_parts(1) [OF own(1)] by (auto simp: s' sort_ok_def)
  qed
  then show "sort_ok X (view (w_files w')) s' \<and> sh_dir s' = sh_dir s \<and> live s
      \<and> confines X view hpath hpos (sh_dir s) w w'"
    using frame ss by (simp add: s' live_def)
qed

lemma sort_stream_next_safe:
  assumes "sort_stream_next X stream w = (r, w')" and "stream_safe (inside d) stream"
  shows "confines X view hpath hpos d w w'
    \<and> (\<forall>i later. r = Inr (Yielded i later) \<longrightarrow> stream_safe (inside d) later)"
proof (cases stream)
  case (Buffered im)
  obtain q where "memory_stream_next im w = (q, w')" "r = map_sum id (map_pulled id Buffered) q"
    using assms(1) Buffered by (cases "memory_stream_next im w") (auto simp: sort_stream_next_def)
  then show ?thesis
    using keepsD [OF confined_session.step_memory_next, of im w q w' X view hpath hpos d]
    by (cases q) (auto simp: map_pulled_cases stream_safe_def)
next
  case (Merging vs)
  obtain q where "value_stream_next X vs w = (q, w')" "r = map_sum id (map_pulled id Merging) q"
    using assms(1) Merging by (cases "value_stream_next X vs w") (auto simp: sort_stream_next_def)
  then show ?thesis
    using keepsD [OF confined_session.step_value_next, of d vs X w q w' view hpath hpos] assms(2) Merging
      value_next_guard [of X vs w _ _ w' "inside d"]
    by (cases q) (auto simp: map_pulled_cases stream_safe_def)
qed

lemma keeps_poll:
  assumes L: "ext_laws X view hpath hpos" and F: "frame_laws X view hpath"
  shows "keeps_sort X view (sort_poll X)"
proof (rule keeps_sortI [OF _ L F])
  fix s w s' w'
  assume run: "sort_poll X (s, w) = Some (s', w')" and ok: "sort_ok X (view (w_files w)) s"
  obtain stream bad where stage: "sh_stage s = Streaming stream bad"
    using run by (auto simp: sort_poll_def split: stage.splits)
  obtain r where poll: "sort_stream_next X stream w = (r, w')"
    using run stage by (auto simp: sort_poll_def split: prod.splits)
  have safe: "stream_safe (inside (sh_dir s)) stream" using ok stage by (simp add: sort_ok_def Let_def)
  note frame = sort_stream_next_safe [OF poll safe, of view hpath hpos]
  have "sort_ok X (view (w_files w')) s' \<and> sh_dir s' = sh_dir s"
  proof (cases r)
    case (Inl e)
    then show ?thesis using run stage poll ok by (auto simp: sort_poll_def sort_ok_def Let_def)
  next
    case (Inr p)
    show ?thesis
    proof (cases bad)
      case True
      then have "spent stream" using ok stage by (simp add: sort_ok_def Let_def)
      then show ?thesis
        using run stage poll ok True Inr frame spent_poll [of stream X w _ _ w']
        by (cases p) (fastforce simp: sort_poll_def sort_ok_def Let_def split: sum.splits)+
    next
      case False
      then obtain dir vals where due: "inside (sh_dir s) dir" "stream_due X (view (w_files w)) dir stream vals"
        "map snd (sorted_rows (sh_dedup s) fst (sh_accepted s)) = sh_yielded s @ vals"
        using ok stage by (auto simp: sort_ok_def Let_def)
      show ?thesis
        using run stage poll False Inr frame due(1,3) sort_poll_due [OF L poll [unfolded Inr] due(2)]
        by (cases p) (fastforce simp: sort_poll_def sort_ok_def Let_def split: sum.splits)+
    qed
  qed
  then show "sort_ok X (view (w_files w')) s' \<and> sh_dir s' = sh_dir s \<and> live s
      \<and> confines X view hpath hpos (sh_dir s) w w'"
    using frame stage by (simp add: live_def)
qed

lemma keeps_drop:
  assumes L: "ext_laws X view hpath hpos" and F: "frame_laws X view hpath"
  shows "keeps_sort X view (sort_drop X rt)"
proof (rule keeps_sortI [OF _ L F])
  fix s w s' w'
  assume run: "sort_drop X rt (s, w) = Some (s', w')" and ok: "sort_ok X (view (w_files w)) s"
  have s': "s' = s\<lparr>sh_stage := Over False\<rparr>" "live s"
    using run by (auto simp: sort_drop_def live_def split: stage.splits)
  have "confines X view hpath hpos (sh_dir s) w w'"
  proof (cases "sh_stage s")
    case (Ingesting ss)
    then have "w' = session_drop X rt (ss, w)" "owns (inside (sh_dir s)) (inside (sh_dir s)) ss"
      using run ok by (auto simp: sort_drop_def sort_ok_def Let_def)
    then show ?thesis using confined_session.session_drop_step [of "sh_dir s" "(ss, w)"] by simp
  next
    case (Streaming stream bad)
    then have "w' = sort_stream_drop X stream w" "stream_safe (inside (sh_dir s)) stream"
      using run ok by (auto simp: sort_drop_def sort_ok_def Let_def)
    then show ?thesis
      using confined_session.step_memory_drop confined_session.step_stream_drop
      by (auto simp: sort_stream_drop_def stream_safe_def split: sort_stream.splits)
  qed (use run in \<open>simp add: sort_drop_def\<close>)
  then show "sort_ok X (view (w_files w')) s' \<and> sh_dir s' = sh_dir s \<and> live s
      \<and> confines X view hpath hpos (sh_dir s) w w'"
    using ok by (simp add: s' sort_ok_def Let_def)
qed

section \<open>The world of sorts\<close>

definition sorts_ok ::
    "('fs, 'h, 'k::linorder, 'v) ext \<Rightarrow> ('fs \<Rightarrow> path \<Rightarrow> u8 list option) \<Rightarrow> ('k, 'v, 'fs) sorts \<Rightarrow> bool" where
  "sorts_ok X view = (\<lambda>(sorts, w).
     (\<forall>s \<in> set sorts. sort_ok X (view (w_files w)) s) \<and>
     (\<forall>i < length sorts. \<forall>j < length sorts. i \<noteq> j \<longrightarrow> live (sorts ! i) \<longrightarrow> live (sorts ! j) \<longrightarrow>
        apart (sh_dir (sorts ! i)) (sh_dir (sorts ! j))))"

lemma apart_paths: "apart d e \<Longrightarrow> inside d q \<Longrightarrow> \<not> inside e q"
  by (auto simp: apart_def inside_iff append_eq_append_conv2)

lemma on_sort_ok:
  assumes f: "keeps_sort X view f" and run: "on_sort i f (sorts, w) = Some (sorts', w')"
    and ok: "sorts_ok X view (sorts, w)"
  shows "sorts_ok X view (sorts', w')"
proof -
  obtain s' where i: "i < length sorts" and step: "f (sorts ! i, w) = Some (s', w')"
    and sorts': "sorts' = sorts[i := s']"
    using run by (auto simp: on_sort_def split: if_splits)
  have ok_i: "sort_ok X (view (w_files w)) s" if "s \<in> set sorts" for s
    using that ok by (simp add: sorts_ok_def)
  have far: "apart (sh_dir (sorts ! j)) (sh_dir (sorts ! k))"
    if "j < length sorts" "k < length sorts" "j \<noteq> k" "live (sorts ! j)" "live (sorts ! k)" for j k
    using that ok by (simp add: sorts_ok_def)
  have new: "sort_ok X (view (w_files w')) s'" "sh_dir s' = sh_dir (sorts ! i)" "live (sorts ! i)"
    and frame: "\<And>q. \<not> inside (sh_dir (sorts ! i)) q \<Longrightarrow> view (w_files w') q = view (w_files w) q"
    using f step ok_i [of "sorts ! i"] i unfolding keeps_sort_def by auto
  have other: "sort_ok X (view (w_files w')) (sorts ! j)" if "j < length sorts" "j \<noteq> i" for j
  proof (rule sort_ok_elsewhere)
    show "sort_ok X (view (w_files w)) (sorts ! j)" using that ok_i by simp
    fix q
    assume "live (sorts ! j)" "inside (sh_dir (sorts ! j)) q"
    then show "view (w_files w') q = view (w_files w) q"
      using apart_paths [OF far [of j i]] that i new(3) frame by blast
  qed
  have "sort_ok X (view (w_files w')) (sorts' ! j)" if "j < length sorts" for j
    using that new(1) other by (cases "j = i") (simp_all add: sorts')
  moreover have "sh_dir (sorts' ! j) = sh_dir (sorts ! j)" "live (sorts' ! j) \<Longrightarrow> live (sorts ! j)"
    if "j < length sorts" for j
    using that new by (cases "j = i"; simp add: sorts')+
  ultimately show ?thesis
    using far by (auto simp: sorts_ok_def all_set_conv_all_nth sorts')
qed

lemma open_sort_ok:
  assumes run: "sorts_do X (OpenSort plan dir dedup) (sorts, w) = Some (sorts', w')"
    and ok: "sorts_ok X view (sorts, w)"
  shows "sorts_ok X view (sorts', w')"
proof -
  obtain ss where new: "session_new plan dir dedup = Inr ss"
    and far: "list_all (\<lambda>s. live s \<longrightarrow> apart dir (sh_dir s)) sorts" and w': "w' = w"
    and sorts': "sorts' = sorts @ [\<lparr>sh_dir = dir, sh_dedup = dedup, sh_stage = Ingesting ss,
            sh_accepted = [], sh_yielded = []\<rparr>]"
    using run by (auto split: sum.splits if_splits)
  have "owns (inside dir) (inside dir) ss"
    using new by (auto simp: session_new_def guard_set_fd_budget_def owns_def inside_iff guard_safe_def guard_disarmed_def)
  then have "sort_ok X (view (w_files w)) (last sorts')"
    using session_new_at [OF new, of X "view (w_files w)"] by (auto simp: sorts' sort_ok_def)
  moreover have "apart (sh_dir (sorts' ! i)) (sh_dir (sorts' ! j))"
    if "i < length sorts'" "j < length sorts'" "i \<noteq> j" "live (sorts' ! i)" "live (sorts' ! j)" for i j
    using that ok far by (auto simp: sorts' sorts_ok_def nth_append less_Suc_eq list_all_length apart_def split: if_splits)
  ultimately show ?thesis
    using ok by (auto simp: sorts_ok_def sorts' w')
qed

lemma sorts_do_ok:
  assumes L: "ext_laws X view hpath hpos" and F: "frame_laws X view hpath"
    and run: "sorts_do X op (sorts, w) = Some (sorts', w')" and ok: "sorts_ok X view (sorts, w)"
  shows "sorts_ok X view (sorts', w')"
proof (cases op)
  case (OpenSort plan dir dedup)
  show ?thesis by (rule open_sort_ok [OF run [unfolded OpenSort] ok])
next
  case (PushRow i k v n)
  show ?thesis by (rule on_sort_ok [OF keeps_push [OF L F] run [unfolded PushRow sorts_do.simps] ok])
next
  case (FinishSort i)
  show ?thesis by (rule on_sort_ok [OF keeps_finish [OF L F] run [unfolded FinishSort sorts_do.simps] ok])
next
  case (PollSort i)
  show ?thesis by (rule on_sort_ok [OF keeps_poll [OF L F] run [unfolded PollSort sorts_do.simps] ok])
next
  case (DropSort i rt)
  show ?thesis by (rule on_sort_ok [OF keeps_drop [OF L F] run [unfolded DropSort sorts_do.simps] ok])
qed

lemma elsewhere_ok:
  assumes ok: "sorts_ok X view (sorts, w)"
    and same: "\<And>s q. s \<in> set sorts \<Longrightarrow> live s \<Longrightarrow> inside (sh_dir s) q \<Longrightarrow> view (w_files w') q = view (w_files w) q"
  shows "sorts_ok X view (sorts, w')"
proof -
  have "sort_ok X (view (w_files w')) s" if "s \<in> set sorts" for s
  proof (rule sort_ok_elsewhere)
    show "sort_ok X (view (w_files w)) s" using that ok by (simp add: sorts_ok_def)
    show "live s \<Longrightarrow> inside (sh_dir s) q \<Longrightarrow> view (w_files w') q = view (w_files w) q" for q
      using same that by blast
  qed
  then show ?thesis
    using ok by (simp add: sorts_ok_def)
qed

lemma sorts_step_ok:
  assumes L: "ext_laws X view hpath hpos" and F: "frame_laws X view hpath"
    and step: "sorts_step X view c c'" and ok: "sorts_ok X view c"
  shows "sorts_ok X view c'"
  using step
proof cases
  case (operate op)
  then show ?thesis
    using sorts_do_ok [OF L F, of op "fst c" "snd c" "fst c'" "snd c'"] ok by simp
next
  case (elsewhere sorts w' w)
  then show ?thesis
    using elsewhere_ok ok by blast
qed

text \<open>C5. Sorts that share one budget, one set of permits and one file system do not interfere: in every
  interleaving of their operations with each other and with whatever else happens outside
  their directories, each sort has yielded a prefix of the stable sort (the first of each key
  under \<open>dedup\<close>) of the rows whose push returned, and all of it once it ended without an error.\<close>

theorem shared_sorts_sort:
  assumes "ext_laws X view hpath hpos" and "frame_laws X view hpath"
    and "(sorts_step X view)\<^sup>*\<^sup>* ([], w0) (sorts, w)" and "s \<in> set sorts"
  shows "prefix (sh_yielded s) (map snd (sorted_rows (sh_dedup s) fst (sh_accepted s)))
    \<and> (sh_stage s = Over True \<longrightarrow> sh_yielded s = map snd (sorted_rows (sh_dedup s) fst (sh_accepted s)))"
proof -
  have "sorts_ok X view (sorts, w)"
    using assms(3)
  proof (induction "(sorts, w)" arbitrary: sorts w rule: rtranclp_induct)
    case base
    then show ?case by (simp add: sorts_ok_def)
  next
    case (step c)
    then show ?case
      using sorts_step_ok [OF assms(1,2)] by (cases c) blast
  qed
  then show ?thesis
    using assms(4) by (auto simp: sorts_ok_def sort_ok_def Let_def)
qed

end
