(* ===== verification/GovernorProperties.thy ===== *)
theory GovernorProperties
  imports Governor SortProperties ReplaySystem SharedSorts
begin

text \<open>
  What the governor promises (src/service/), over the invariant of theory Governor: the
  admission of one sort, the counters, the leases, their isolation on disk, the replies, the
  bound on waiting, and a sort run under a lease from \<open>into_session\<close> to the drop of its
  lease.
\<close>

section \<open>Admission\<close>

lemma unat_available: "ac_permits a \<le> unat (ac_fd_total a) \<Longrightarrow> unat (available_fd_permits a) = ac_permits a"
  using unat_u32 [of "ac_fd_total a"] by (simp add: available_fd_permits_def unsigned_of_nat take_bit_nat_eq_self_iff)

lemma external_shares:
  assumes "sort_planner_plan spec (fst (actor_snapshot a)) (ac_config a) = Inr (External buffer fan)"
    and "ac_permits a \<le> unat (ac_fd_total a)" and "2 * (unat (ac_active a) + 1) \<le> ac_permits a"
  shows "unat fan * (unat (ac_active a) + 1) \<le> ac_permits a"
  using plan_share [OF assms(1)] assms(2,3) by (simp add: snapshot_values unat_available)

text \<open>C25. Admission never panics, and refuses a sort only when the identifiers have run out. An
  admitted sort gets the next identifier's directory, is counted as active exactly when it is
  external, and the fan-ins of that many sorts fit the free descriptors whenever two each do.\<close>

theorem admission_is_sound:
  assumes "config_ok (ac_config a)" and "ac_permits a \<le> unat (ac_fd_total a)"
  shows "\<exists>r a'. admit spec a = Inr (r, a') \<and>
    (case r of
       Inl e \<Rightarrow> e = RunLimit \<and> unat (ac_next_id a) = 2 ^ 64 - 1 \<and> ac_next_id a' = ac_next_id a \<and> ac_active a' = ac_active a
     | Inr l \<Rightarrow>
         sl_dir l = join (ac_root a) (sort_name (ac_namespace a) (ac_next_id a))
         \<and> unat (ac_next_id a') = unat (ac_next_id a) + 1
         \<and> (sl_active l \<longleftrightarrow> sl_plan l \<noteq> InMemory)
         \<and> ac_active a' = ac_active a + (if sl_active l then 1 else 0)
         \<and> (\<forall>buffer fan. sl_plan l = External buffer fan \<and> 2 * (unat (ac_active a) + 1) \<le> ac_permits a
              \<longrightarrow> unat fan * (unat (ac_active a) + 1) \<le> ac_permits a))"
  using assms(1)
proof (cases rule: admit_cases [where spec = spec])
  case (external next_id buffer fan)
  then show ?thesis
    using external_shares [OF external(1) assms(2)] by (simp add: lease_external_def)
qed (simp_all add: lease_in_memory_def)

section \<open>Counters and leases\<close>

lemma lease_plan: "lease_ok a l \<Longrightarrow> sl_active l \<longleftrightarrow> sl_plan l \<noteq> InMemory"
  by (cases "sl_plan l") (simp_all add: lease_ok_def)

text \<open>C6. In every reachable state the statistics are true: the active counter is the number of live
  external leases, the two totals add up to the sorts admitted, the free descriptors are the
  semaphore's and no more than the total, and the in-memory leases never count as active.\<close>

theorem stats_count_leases:
  assumes "governor_run config g" and "config_ok config"
  shows "let st = fst (actor_stats (gv_actor g)) in
    st_active_external_sorts st = of_nat (length (filter (\<lambda>l. sl_plan l \<noteq> InMemory) (lives (gv_leases g))))
    \<and> unat (st_in_memory_sorts st) + unat (st_external_sorts st) = unat (ac_next_id (gv_actor g))
    \<and> unat (st_fd_permits_available st) = ac_permits (gv_actor g)
    \<and> st_fd_permits_available st \<le> st_fd_permits_total st"
proof -
  let ?a = "gv_actor g"
  have ok: "actor_ok config (lives (gv_leases g)) ?a"
    using governor_run_ok [OF assms] by (simp add: governor_ok_def)
  then have "sl_active l \<longleftrightarrow> sl_plan l \<noteq> InMemory" if "l \<in> set (lives (gv_leases g))" for l
    using that lease_plan by (auto simp: actor_ok_def)
  then have "filter sl_active (lives (gv_leases g)) = filter (\<lambda>l. sl_plan l \<noteq> InMemory) (lives (gv_leases g))"
    by (rule filter_cong [OF HOL.refl])
  then show ?thesis
    using ok unat_available [of ?a] by (simp add: actor_ok_def actor_stats_def Let_def case_prod_beta word_le_nat_alt)
qed

text \<open>C26. Every live lease is well formed: its directory lies directly under the scratch root under
  an identifier already given out, it holds an activity guard exactly when its plan is
  external, and an external plan keeps the caps of the configuration.\<close>

theorem live_leases_are_valid:
  assumes "governor_run config g" and "config_ok config" and "l \<in> set (lives (gv_leases g))"
  shows "(\<exists>n < ac_next_id (gv_actor g). sl_dir l = join (ac_root (gv_actor g)) (sort_name (ac_namespace (gv_actor g)) n))
    \<and> (case sl_plan l of
         InMemory \<Rightarrow> \<not> sl_active l
       | External buffer fan \<Rightarrow> sl_active l \<and> 2 \<le> fan \<and> fan \<le> max_fan_in config
           \<and> min_run_buffer_bytes config \<le> buffer \<and> buffer \<le> max_run_buffer_bytes config)"
proof -
  have "lease_ok (gv_actor g) l" "ac_config (gv_actor g) = config"
    using governor_run_ok [OF assms(1,2)] assms(3) by (auto simp: governor_ok_def actor_ok_def)
  then show ?thesis by (cases "sl_plan l") (simp_all add: lease_ok_def)
qed

section \<open>Replies\<close>



section \<open>A sort under a lease\<close>

lemma into_session_spec:
  assumes "into_session l hold dedup a files = Inr (ss, w)"
  shows "session_at X f ss []" "session_ok ss" "session_bytes ss = 0" "ss_dedup ss = dedup"
    "ss_plan ss = sl_plan l" "ss_dir ss = sl_dir l" "ss_hold ss = Some hold"
    "w_budget w = ac_memory a" "w_permits w = ac_permits a" "w_files w = files"
proof -
  obtain s0 where new: "session_new (sl_plan l) (sl_dir l) dedup = Inr s0"
    and ss: "ss = s0\<lparr>ss_hold := Some hold\<rparr>"
    and w: "w_budget w = ac_memory a" "w_permits w = ac_permits a" "w_files w = files"
    using assms by (auto simp: into_session_def attempt_def with_fd_budget_def with_memory_budget_def
        hold_resource_def session_world_def session_new_def guard_set_fd_budget_def guard_disarmed_def)
  show "session_at X f ss []" "session_ok ss" "session_bytes ss = 0" "ss_dedup ss = dedup"
    "ss_plan ss = sl_plan l" "ss_dir ss = sl_dir l" "ss_hold ss = Some hold"
    using session_new_at [OF new, of X f] session_new_ok [OF new] new_session_bytes [OF new] new
    by (simp_all add: ss session_at_def session_ok_def guarded_def usable_def session_bytes_def)
      (auto simp: session_new_def guard_set_fd_budget_def guard_disarmed_def)
  show "w_budget w = ac_memory a" "w_permits w = ac_permits a" "w_files w = files" by fact+
qed

lemma into_session_owns:
  "into_session l hold dedup a files = Inr (ss, w) \<Longrightarrow> owns (inside (sl_dir l)) (inside (sl_dir l)) ss"
  by (auto simp: into_session_def attempt_def with_fd_budget_def with_memory_budget_def hold_resource_def
      session_world_def session_new_def guard_set_fd_budget_def guard_disarmed_def owns_def guard_safe_def inside_iff)

lemma leases_apart:
  assumes ok: "actor_ok config ls a" and "i < length ls" and "j < length ls" and "i \<noteq> j"
  shows "apart (sl_dir (ls ! i)) (sl_dir (ls ! j))"
proof -
  have "\<forall>l \<in> set ls. length (sl_dir l) = Suc (length (ac_root a))"
    using ok by (auto simp: actor_ok_def lease_ok_def join_def)
  then have "length (sl_dir (ls ! i)) = length (sl_dir (ls ! j))"
    using assms by simp
  moreover have "sl_dir (ls ! i) \<noteq> sl_dir (ls ! j)"
    using assms nth_eq_iff_index_eq [of "map sl_dir ls" i j] by (simp add: actor_ok_def)
  ultimately show ?thesis by (simp add: apart_def inside_def)
qed

text \<open>C23. Live leases are isolated on disk: neither directory is inside the other, and a whole sort
  under one of them (its pushes, \<open>finish\<close>, the reads and the removal of its directory, whatever
  of them fails or is cancelled) leaves every file under the directory of the other untouched.\<close>

theorem leases_are_isolated:
  assumes "ext_laws X view hpath hpos" and "frame_laws X view hpath"
    and "governor_run config g" and "config_ok config"
    and "i < length (lives (gv_leases g))" and "j < length (lives (gv_leases g))" and "i \<noteq> j"
    and "into_session (lives (gv_leases g) ! i) hold dedup (gv_actor g) files = Inr (ss, w0)"
    and "push_all X xs (ss, w0\<lparr>w_leaves := leaves\<rparr>) = (rs, s1)" and "finish X s1 = (r, w2)"
  shows "apart (sl_dir (lives (gv_leases g) ! i)) (sl_dir (lives (gv_leases g) ! j))
    \<and> view (w_files (case r of Inl _ \<Rightarrow> w2 | Inr stream \<Rightarrow> snd (drain_sort X stream w2)))
         (sl_dir (lives (gv_leases g) ! j) @ below)
       = view files (sl_dir (lives (gv_leases g) ! j) @ below)"
proof -
  let ?d = "sl_dir (lives (gv_leases g) ! i)" and ?e = "sl_dir (lives (gv_leases g) ! j)"
  note new = into_session_spec [OF assms(8)]
  have far: "apart ?d ?e"
    using governor_run_ok [OF assms(3,4)] leases_apart assms(5-7) unfolding governor_ok_def by blast
  then have "\<not> inside ?d (?e @ below)"
    using apart_paths [of ?e ?d] by (auto simp: apart_def inside_iff)
  then show ?thesis
    using sort_confined [OF assms(1,2) into_session_owns [OF assms(8)] assms(9,10)] far new(10) by simp
qed

lemma sort_world_share:
  assumes "governor_run config g" and "w_permits w = ac_permits (gv_actor g)"
    and "budget_cap (w_budget w) = budget_cap (ac_memory (gv_actor g))" and "config_ok config"
    and "i < length (gv_leases g)" and "Answered (Leased (Inr i)) \<notin> set (gv_calls g)"
  shows "governor_run config
    (lease_drop i (g\<lparr>gv_actor := (gv_actor g)\<lparr>ac_permits := w_permits w, ac_memory := w_budget w\<rparr>\<rparr>))"
proof -
  have "ac_permits (gv_actor g) \<le> unat (ac_fd_total (gv_actor g))"
    using governor_run_ok [OF assms(1,4)] by (simp add: governor_ok_def actor_ok_def)
  then have "governor_step g (g\<lparr>gv_actor := (gv_actor g)\<lparr>ac_permits := w_permits w, ac_memory := w_budget w\<rparr>\<rparr>)"
    using assms(2,3) by (intro governor_step.share) simp_all
  then show ?thesis
    using assms(1,5,6) by (intro governor_run.step [OF governor_run.step governor_step.lease_drop]) auto
qed


section \<open>A replay under a lease\<close>

text \<open>
  A lease always opens as a replay writer in its own directory, holding the lease, so that what
  theories ReplayLog and ReplayProperties show of the runs of a replay holds of a leased one.
\<close>

lemma leased_replay_runs:
  obtains wr inner where "into_replay_writer l hold = Inr (wr, inner)"
    and "ri_dir inner = sl_dir l" and "ri_hold inner = Some hold"
    and "replay_run X view [] (\<lparr>sy_writer = Some wr, sy_inner = inner, sy_replay = False, sy_cursors = []\<rparr>, w)"
proof -
  obtain wr inner where new: "into_replay_writer l hold = Inr (wr, inner)"
    and "ri_dir inner = sl_dir l" "ri_hold inner = Some hold"
    by (simp add: into_replay_writer_def replay_writer_new_def replay_inner_new_def
        guard_set_fd_budget_def guard_disarmed_def)
  then show thesis
    using that replay_run.start [OF new [unfolded into_replay_writer_def]] by blast
qed

end
