(* ===== verification/SharedRuns.thy ===== *)
theory SharedRuns
  imports SharedSorts MemSession
begin

text \<open>
  Two sorts that share the world of the in-memory instance, one spilling and one in memory,
  driven call by call.
\<close>

lemma mem_frame_laws: "frame_laws mem_ext map_of fst"
  unfolding frame_laws_def mem_ext_def inside_def
  by (auto simp: mem_open_end_def mem_write_def update_conv' delete_conv' map_of_filter_fst split: option.splits)

fun sorts_run ::
    "('fs, 'h, 'k::linorder, 'v) ext \<Rightarrow> ('k, 'v) sort_op list \<Rightarrow> ('k, 'v, 'fs) sorts
      \<Rightarrow> ('k, 'v, 'fs) sorts option" where
  "sorts_run X [] c = Some c"
| "sorts_run X (op # ops) c = Option.bind (sorts_do X op c) (sorts_run X ops)"

lemma sorts_run_steps: "sorts_run X ops c = Some c' \<Longrightarrow> (sorts_step X view)\<^sup>*\<^sup>* c c'"
proof (induction ops arbitrary: c)
  case (Cons op ops)
  then obtain c1 where "sorts_do X op c = Some c1" "sorts_run X ops c1 = Some c'"
    by (auto split: bind_splits)
  then show ?case
    using Cons.IH converse_rtranclp_into_rtranclp sorts_step.operate by metis
qed simp

definition shared_ops :: "(u8, u8) sort_op list" where
  "shared_ops =
     [OpenSort (External 128 2) [''d''] True, PushRow 0 3 30 1, OpenSort InMemory [''e''] False,
      PushRow 1 2 21 1, PushRow 0 1 10 1, PushRow 1 1 11 1, PushRow 0 3 31 1, FinishSort 0,
      PollSort 0, FinishSort 1, PollSort 1, PollSort 0, PollSort 1, PollSort 0, PollSort 1]"

lemmas shared_eval =
  shared_ops_def on_sort_def sort_push_def sort_finish_def sort_poll_def live_def apart_def inside_def
  sort_stream_next_def sum.map_id0 mem_sort_def

lemma shared_run:
  "\<exists>s0 s1 w. sorts_run mem_ext shared_ops ([], session_world InMemory []) = Some ([s0, s1], w)
    \<and> sh_stage s0 = Over True \<and> sh_stage s1 = Over True
    \<and> sh_dedup s0 \<and> \<not> sh_dedup s1
    \<and> sh_accepted s0 = [(3, 30), (1, 10), (3, 31)] \<and> sh_accepted s1 = [(2, 21), (1, 11)]"
  by (simp add: shared_eval all_eval)

theorem shared_sorts_sort_witness:
  "\<exists>s0 s1 w. sorts_run mem_ext shared_ops ([], session_world InMemory []) = Some ([s0, s1], w)
    \<and> sh_yielded s0 = [10, 30] \<and> sh_yielded s1 = [11, 21]"
proof -
  obtain s0 s1 w where run: "sorts_run mem_ext shared_ops ([], session_world InMemory []) = Some ([s0, s1], w)"
    and stages: "sh_stage s0 = Over True" "sh_stage s1 = Over True" "sh_dedup s0" "\<not> sh_dedup s1"
      "sh_accepted s0 = [(3, 30), (1, 10), (3, 31)]" "sh_accepted s1 = [(2, 21), (1, 11)]"
    using shared_run by blast
  note sorted = shared_sorts_sort [OF mem_ext_laws mem_frame_laws sorts_run_steps [OF run]]
  show ?thesis
    using run stages sorted [of s0] sorted [of s1] by (simp add: sorted_rows_def word_le_nat_alt)
qed

end
