(* ===== verification/GovernorRuns.thy ===== *)
theory GovernorRuns
  imports GovernorProperties SharedRuns
begin

text \<open>
  Concrete runs of the governor: an executable driver of the step relation of theory Governor,
  a governor of 64 descriptors over the in-memory files, and the witnesses of the properties
  of theory GovernorProperties.
\<close>

section \<open>Driving a governor\<close>

datatype governor_action = Call_submit sort_spec | Call_stats | Actor_turn | Take_reply nat | Drop_lease nat

fun governor_act :: "governor_action \<Rightarrow> governor \<Rightarrow> governor option" where
  "governor_act (Call_submit spec) g =
     (if 0 < gv_handles g then case send_command (Submit spec) g of Some (Inr (_, g')) \<Rightarrow> Some g' | _ \<Rightarrow> None else None)"
| "governor_act Call_stats g =
     (if 0 < gv_handles g then case send_command Stats g of Some (Inr (_, g')) \<Rightarrow> Some g' | _ \<Rightarrow> None else None)"
| "governor_act Actor_turn g = (if gv_running g then actor_turn g else None)"
| "governor_act (Take_reply t) g =
     (if t < length (gv_calls g) then map_option snd (take_reply t g) else None)"
| "governor_act (Drop_lease i) g =
     (if i < length (gv_leases g) \<and> Answered (Leased (Inr i)) \<notin> set (gv_calls g) then Some (lease_drop i g) else None)"

lemma governor_act_step: "governor_act c g = Some g' \<Longrightarrow> governor_step g g'"
  by (cases c) (auto intro: governor_step.intros split: option.splits sum.splits if_splits)

fun governor_acts :: "governor_action list \<Rightarrow> governor \<Rightarrow> governor option" where
  "governor_acts [] g = Some g"
| "governor_acts (c # cs) g = (case governor_act c g of None \<Rightarrow> None | Some g' \<Rightarrow> governor_acts cs g')"

lemma governor_acts_run: "governor_run config g \<Longrightarrow> governor_acts cs g = Some g' \<Longrightarrow> governor_run config g'"
proof (induction cs arbitrary: g)
  case (Cons c cs)
  then show ?case
    using governor_run.step [OF Cons.prems(1) governor_act_step] by (auto split: option.splits)
qed simp

section \<open>A governor\<close>

definition demo_governor :: governor where
  "demo_governor = \<lparr>gv_actor = actor_new config_default 64 (\<lambda>_. (1073741824, 0)) [''scratch''] ''a'',
     gv_running = True, gv_handles = 1, gv_queue = [], gv_calls = [], gv_leases = []\<rparr>"

lemma demo_run: "governor_run config_default demo_governor"
  by (rule governor_run.start [where fd_budget = 64]) (simp add: handle_spawn_def demo_governor_def)

lemmas governor_eval =
  demo_governor_def actor_new_def send_command_def take_reply_def actor_turn_def admit_def actor_snapshot_def
  available_fd_permits_def send_lease_def send_stats_def lease_drop_def set_active_def active_guard_drop_def
  lease_in_memory_def lease_external_def actor_stats_def command_channel_capacity_def budget_governed_def

text \<open>Two external sorts and one in memory, all replies taken.\<close>

definition three_leases :: "governor_action list" where
  "three_leases = [Call_submit (sort_spec_new 0 0), Call_submit (sort_spec_new 10 1000), Actor_turn,
     Call_submit replay_spec, Actor_turn, Actor_turn, Take_reply 0, Take_reply 1, Take_reply 2]"

lemma three_leases_run:
  "\<exists>g. governor_acts three_leases demo_governor = Some g
    \<and> gv_leases g = [Some (lease_external (External 1048576 64) [''scratch'', sort_name ''a'' 0]),
         Some (lease_in_memory InMemory [''scratch'', sort_name ''a'' 1]),
         Some (lease_external (External 1048576 32) [''scratch'', sort_name ''a'' 2])]
    \<and> gv_calls g = [Closed, Closed, Closed] \<and> gv_running g \<and> ac_permits (gv_actor g) = 64
    \<and> ac_memory (gv_actor g) = (budget_governed 268435456 (\<lambda>_. (1073741824, 0)))\<lparr>budget_clock := 6\<rparr>"
  by (simp add: three_leases_def replay_spec_def labelled_def governor_eval plan_eval join_def)

lemma three_leases_reached:
  obtains g where "governor_acts three_leases demo_governor = Some g" "governor_run config_default g"
    "gv_leases g = [Some (lease_external (External 1048576 64) [''scratch'', sort_name ''a'' 0]),
         Some (lease_in_memory InMemory [''scratch'', sort_name ''a'' 1]),
         Some (lease_external (External 1048576 32) [''scratch'', sort_name ''a'' 2])]"
    "gv_calls g = [Closed, Closed, Closed]" "gv_running g"
    "ac_permits (gv_actor g) = 64"
    "ac_memory (gv_actor g) = (budget_governed 268435456 (\<lambda>_. (1073741824, 0)))\<lparr>budget_clock := 6\<rparr>"
  using three_leases_run governor_acts_run [OF demo_run] by blast

section \<open>Witnesses\<close>

theorem admission_is_sound_witness:
  "\<exists>l a'. admit (sort_spec_new 0 0) (gv_actor demo_governor) = Inr (Inr l, a') \<and> ac_active a' = 1"
proof -
  have "config_ok (ac_config (gv_actor demo_governor))" "ac_permits (gv_actor demo_governor) \<le> unat (ac_fd_total (gv_actor demo_governor))"
    by (simp_all add: demo_governor_def actor_new_def config_ok_default)
  from admission_is_sound [OF this, of "sort_spec_new 0 0"] obtain r a' where
    r: "admit (sort_spec_new 0 0) (gv_actor demo_governor) = Inr (r, a')" by blast
  then have "\<exists>l. r = Inr l \<and> ac_active a' = 1"
    by (auto simp: governor_eval plan_eval)
  then show ?thesis using r by blast
qed

theorem stats_count_leases_witness:
  "\<exists>g. governor_acts three_leases demo_governor = Some g
    \<and> st_active_external_sorts (fst (actor_stats (gv_actor g))) = 2
    \<and> unat (st_fd_permits_available (fst (actor_stats (gv_actor g)))) = 64"
proof (rule three_leases_reached)
  fix g
  assume g: "governor_acts three_leases demo_governor = Some g" "governor_run config_default g"
    "gv_leases g = [Some (lease_external (External 1048576 64) [''scratch'', sort_name ''a'' 0]),
         Some (lease_in_memory InMemory [''scratch'', sort_name ''a'' 1]),
         Some (lease_external (External 1048576 32) [''scratch'', sort_name ''a'' 2])]"
    "ac_permits (gv_actor g) = 64"
  then show ?thesis
    using stats_count_leases [OF g(2) config_ok_default]
    by (simp add: Let_def lease_external_def lease_in_memory_def)
qed

theorem live_leases_are_valid_witness:
  "\<exists>g. governor_acts three_leases demo_governor = Some g
    \<and> (\<exists>n < ac_next_id (gv_actor g). [''scratch'', sort_name ''a'' 2]
          = join (ac_root (gv_actor g)) (sort_name (ac_namespace (gv_actor g)) n))"
proof (rule three_leases_reached)
  fix g
  assume g: "governor_acts three_leases demo_governor = Some g" "governor_run config_default g"
    "gv_leases g = [Some (lease_external (External 1048576 64) [''scratch'', sort_name ''a'' 0]),
         Some (lease_in_memory InMemory [''scratch'', sort_name ''a'' 1]),
         Some (lease_external (External 1048576 32) [''scratch'', sort_name ''a'' 2])]"
  then show ?thesis
    using live_leases_are_valid [OF g(2) config_ok_default, of "lease_external (External 1048576 32) [''scratch'', sort_name ''a'' 2]"]
    by (simp add: lease_external_def)
qed

text \<open>A sort that spills every row, under the first lease, while the third has a run on disk.\<close>

definition spilling_sort :: "governor \<Rightarrow> ((error + u8) list \<times> fault option) option \<times> mem_fs world option" where
  "spilling_sort g =
     (case into_session (lives (gv_leases g) ! 0) 0 False (gv_actor g) [([''scratch'', sort_name ''a'' 2, ''run''], [2])] of
        Inl _ \<Rightarrow> (None, None)
      | Inr (ss, w) \<Rightarrow>
          (case push_all mem_ext [(3, 30, 1048576), (1, 10, 1048576)] (ss, w\<lparr>w_leaves := [False]\<rparr>) of
             (rs, s1) \<Rightarrow>
               (case finish mem_ext s1 of
                  (Inl e, w2) \<Rightarrow> (None, None)
                | (Inr stream, w2) \<Rightarrow> (case drain_sort mem_ext stream w2 of (out, w3) \<Rightarrow> (Some out, Some w3)))))"

lemma spilling_sort_runs:
  "gv_leases g = [Some (lease_external (External 1048576 64) [''scratch'', sort_name ''a'' 0]), l1, l2] \<Longrightarrow>
   ac_memory (gv_actor g) = (budget_governed 268435456 (\<lambda>_. (1073741824, 0)))\<lparr>budget_clock := 6\<rparr> \<Longrightarrow>
   ac_permits (gv_actor g) = 64 \<Longrightarrow>
   fst (spilling_sort g) = Some ([Inr 10, Inr 30], None)"
  by (simp add: spilling_sort_def into_session_def lease_external_def with_fd_budget_def with_memory_budget_def
      hold_resource_def budget_governed_def all_eval)

theorem leases_are_isolated_witness:
  "\<exists>g w. governor_acts three_leases demo_governor = Some g
    \<and> spilling_sort g = (Some ([Inr 10, Inr 30], None), Some w)
    \<and> map_of (w_files w) [''scratch'', sort_name ''a'' 2, ''run''] = Some [2]"
proof (rule three_leases_reached)
  let ?xs = "[(3 :: u8, 30 :: u8, 1048576), (1, 10, 1048576)]"
  let ?files = "[([''scratch'', sort_name ''a'' 2, ''run''], [2])] :: mem_fs"
  fix g
  assume g: "governor_acts three_leases demo_governor = Some g" "governor_run config_default g"
    "gv_leases g = [Some (lease_external (External 1048576 64) [''scratch'', sort_name ''a'' 0]),
         Some (lease_in_memory InMemory [''scratch'', sort_name ''a'' 1]),
         Some (lease_external (External 1048576 32) [''scratch'', sort_name ''a'' 2])]"
    "ac_permits (gv_actor g) = 64"
    "ac_memory (gv_actor g) = (budget_governed 268435456 (\<lambda>_. (1073741824, 0)))\<lparr>budget_clock := 6\<rparr>"
  have out: "fst (spilling_sort g) = Some ([Inr 10, Inr 30], None)"
    by (rule spilling_sort_runs [OF g(3,5,4)])
  obtain ss w0 rs s1 stream w2 w3 where
    1: "into_session (lives (gv_leases g) ! 0) 0 False (gv_actor g) ?files = Inr (ss, w0)"
    and 2: "push_all mem_ext ?xs (ss, w0\<lparr>w_leaves := [False]\<rparr>) = (rs, s1)"
    and 3: "finish mem_ext s1 = (Inr stream, w2)"
    and 4: "drain_sort mem_ext stream w2 = (([Inr 10, Inr 30], None), w3)"
    and w: "snd (spilling_sort g) = Some w3"
    using out by (auto simp: spilling_sort_def split: sum.splits prod.splits)
  have "map_of (w_files w3) ([''scratch'', sort_name ''a'' 2] @ [''run'']) = map_of ?files ([''scratch'', sort_name ''a'' 2] @ [''run''])"
    using leases_are_isolated [OF mem_ext_laws mem_frame_laws g(2) config_ok_default _ _ _ 1 2 3, of 2 "[''run'']"] g(3) 4
    by (simp add: lease_external_def)
  then show ?thesis
    using g(1) out w by (intro exI [of _ g] exI [of _ w3]) (simp add: prod_eq_iff)
qed


lemma one_call: "governor_acts [Call_stats] demo_governor
  = Some (demo_governor\<lparr>gv_queue := [Stats 0], gv_calls := [Awaiting]\<rparr>)"
  by (simp add: governor_eval)


section \<open>A sort under the second lease\<close>

definition demo_sort :: "governor \<Rightarrow> (fault + unit) list \<times> (error + u8) list \<times> fault option" where
  "demo_sort g =
     (case gv_leases g ! 1 of
        None \<Rightarrow> ([], [], None)
      | Some l \<Rightarrow>
          (case into_session l 1 False (gv_actor g) [] of
             Inl e \<Rightarrow> ([], [], Some e)
           | Inr (ss, w) \<Rightarrow>
               (case push_all mem_ext [(3, 30, 1), (1, 10, 1)] (ss, w\<lparr>w_leaves := [True]\<rparr>) of (rs, s1) \<Rightarrow>
                  (case finish mem_ext s1 of
                     (Inl e, w2) \<Rightarrow> (rs, [], Some e)
                   | (Inr stream, w2) \<Rightarrow> (case drain_sort mem_ext stream w2 of (out, w3) \<Rightarrow> (rs, out))))))"

lemma demo_sort_runs:
  "gv_leases g ! 1 = Some (lease_in_memory InMemory [''scratch'', sort_name ''a'' 1]) \<Longrightarrow>
   ac_memory (gv_actor g) = (budget_governed 268435456 (\<lambda>_. (1073741824, 0)))\<lparr>budget_clock := 6\<rparr> \<Longrightarrow>
   ac_permits (gv_actor g) = 64 \<Longrightarrow>
   demo_sort g = ([Inr (), Inr ()], [Inr 10, Inr 30], None)"
  by (simp add: demo_sort_def into_session_def lease_in_memory_def with_fd_budget_def with_memory_budget_def
      hold_resource_def budget_governed_def all_eval)


end
